(* ===== verification/Prelude.thy ===== *)
theory Prelude
  imports Main "HOL-Library.Word" "HOL-Library.Signed_Division" "HOL-Library.Code_Target_Numeral"
begin

text \<open>
  What every component shares: the results of C code that may abort, exit or run into
  undefined behaviour (\<open>res\<close>), the C memory primitives the sources use (\<open>malloc\<close>,
  \<open>realloc\<close>, \<open>memcpy\<close>, C strings), the widths of the integer types, runs of a
  step function over a list of inputs, and the collections of rewrite rules the
  component proofs are built from.
\<close>

named_theorems res_simps \<open>how results compose\<close>
named_theorems queue_simps \<open>fields of queues after an operation\<close>

section \<open>Results\<close>

text \<open>
  Everything that stops a C function from returning. \<open>Assert_failed\<close> is \<open>abort\<close> by
  \<open>assert\<close>; \<open>Exit_failure\<close> and \<open>Exit_success\<close> are the calls of \<open>exit\<close>; \<open>Diverges\<close> is a loop
  that never ends; the others are undefined behaviour, made explicit.
\<close>

datatype fault =
    Assert_failed
  | Exit_failure
  | Exit_success
  | Null_deref
  | Use_after_free
  | Out_of_bounds
  | Uninitialised
  | Signed_overflow
  | Format_string
  | Diverges

type_synonym 'a res = "fault + 'a"

definition rbind :: "'a res \<Rightarrow> ('a \<Rightarrow> 'b res) \<Rightarrow> 'b res" where
  "rbind m f = (case m of Inl e \<Rightarrow> Inl e | Inr x \<Rightarrow> f x)"

lemma rbind_Inl [simp, res_simps]: "rbind (Inl e) f = Inl e"
  by (simp add: rbind_def)

lemma rbind_Inr [simp, res_simps]: "rbind (Inr x) f = f x"
  by (simp add: rbind_def)

lemma rbind_eq_Inr [res_simps]: "rbind m f = Inr y \<longleftrightarrow> (\<exists>x. m = Inr x \<and> f x = Inr y)"
  by (cases m) auto

lemma rbind_cong [fundef_cong]:
  "m = m' \<Longrightarrow> (\<And>x. m' = Inr x \<Longrightarrow> f x = f' x) \<Longrightarrow> rbind m f = rbind m' f'"
  by (cases m') auto

lemma rbind_assoc: "rbind (rbind m f) g = rbind m (\<lambda>x. rbind (f x) g)"
  by (cases m) simp_all

text \<open>\<open>returns m P\<close>: the code returns, and what it returns satisfies \<open>P\<close>.\<close>

definition returns :: "'a res \<Rightarrow> ('a \<Rightarrow> bool) \<Rightarrow> bool" where
  "returns m P \<longleftrightarrow> (case m of Inl _ \<Rightarrow> False | Inr x \<Rightarrow> P x)"

lemma returns_Inr [simp]: "returns (Inr x) P \<longleftrightarrow> P x"
  by (simp add: returns_def)

lemma returns_Inl [simp]: "\<not> returns (Inl e) P"
  by (simp add: returns_def)

lemma returns_iff: "returns m P \<longleftrightarrow> (\<exists>x. m = Inr x \<and> P x)"
  by (cases m) auto

lemma returnsE:
  assumes "returns m P"
  obtains x where "m = Inr x" and "P x"
  using assms by (auto simp: returns_iff)

lemma returns_rbind: "returns (rbind m f) P \<longleftrightarrow> returns m (\<lambda>x. returns (f x) P)"
  by (cases m) simp_all

lemma returns_bindI:
  "returns m Q \<Longrightarrow> (\<And>x. m = Inr x \<Longrightarrow> Q x \<Longrightarrow> returns (f x) P) \<Longrightarrow> returns (rbind m f) P"
  by (cases m) simp_all

lemma returns_mono: "returns m Q \<Longrightarrow> (\<And>x. m = Inr x \<Longrightarrow> Q x \<Longrightarrow> P x) \<Longrightarrow> returns m P"
  by (cases m) simp_all

section \<open>Runs of a step function\<close>

text \<open>A loop that handles one input after the other and stops at the first fault.\<close>

fun run_res :: "('s \<Rightarrow> 'i \<Rightarrow> 's res) \<Rightarrow> 's \<Rightarrow> 'i list \<Rightarrow> 's res" where
  "run_res step s [] = Inr s"
| "run_res step s (i # is) = rbind (step s i) (\<lambda>s'. run_res step s' is)"

lemma run_res_append:
  "run_res step s (xs @ ys) = rbind (run_res step s xs) (\<lambda>s'. run_res step s' ys)"
  by (induction xs arbitrary: s) (simp_all add: rbind_assoc)

text \<open>
  The interface of a stepped component: an invariant, an abstract step, and a condition on
  the input, stated over the abstract state, under which every concrete step refines the
  abstract one without a fault. Whole runs then refine the abstract run, as long as each
  input is admissible in the abstract state it meets.
\<close>

fun run_ok :: "('a \<Rightarrow> 'i \<Rightarrow> bool) \<Rightarrow> ('a \<Rightarrow> 'i \<Rightarrow> 'a) \<Rightarrow> 'a \<Rightarrow> 'i list \<Rightarrow> bool" where
  "run_ok ok astep a [] = True"
| "run_ok ok astep a (i # is) = (ok a i \<and> run_ok ok astep (astep a i) is)"

locale stepper =
  fixes step :: "'s \<Rightarrow> 'i \<Rightarrow> 's res"
    and inv :: "'s \<Rightarrow> bool"
    and abs :: "'s \<Rightarrow> 'a"
    and ok :: "'a \<Rightarrow> 'i \<Rightarrow> bool"
    and astep :: "'a \<Rightarrow> 'i \<Rightarrow> 'a"
  assumes step_refines: "inv s \<Longrightarrow> ok (abs s) i \<Longrightarrow>
    returns (step s i) (\<lambda>s'. inv s' \<and> abs s' = astep (abs s) i)"
begin

lemma run_refines:
  "inv s \<Longrightarrow> run_ok ok astep (abs s) is \<Longrightarrow>
   returns (run_res step s is) (\<lambda>s'. inv s' \<and> abs s' = foldl astep (abs s) is)"
proof (induction "is" arbitrary: s)
  case Nil
  then show ?case by simp
next
  case (Cons i "is")
  from Cons.prems have "returns (step s i) (\<lambda>s'. inv s' \<and> abs s' = astep (abs s) i)"
    by (intro step_refines) simp_all
  then obtain s' where s': "step s i = Inr s'" "inv s'" "abs s' = astep (abs s) i"
    by (auto simp: returns_iff)
  from Cons.IH [OF s'(2)] s' Cons.prems show ?case by simp
qed

end

text \<open>
  An abstract step seen from one client: what concerns the client changes by \<open>lstep\<close> with its own events, not at all with those
  of others, as long as it is not about to be connected anew. After any run it depends on the number of its events only.
\<close>

locale per_client =
  fixes astep :: "'a \<Rightarrow> 'i \<Rightarrow> 'a"
    and ok :: "'a \<Rightarrow> 'i \<Rightarrow> bool"
    and away :: "'a \<Rightarrow> bool"
    and local_part :: "'a \<Rightarrow> 'l"
    and lstep :: "'l \<Rightarrow> 'l"
    and c :: 'i
  assumes own_event: "away a \<Longrightarrow> ok a c \<Longrightarrow> local_part (astep a c) = lstep (local_part a)"
    and other_event: "away a \<Longrightarrow> ok a i \<Longrightarrow> i \<noteq> c \<Longrightarrow> local_part (astep a i) = local_part a"
    and stays_away: "away a \<Longrightarrow> ok a i \<Longrightarrow> away (astep a i)"
begin

lemma run_local:
  "away a \<Longrightarrow> run_ok ok astep a is \<Longrightarrow> local_part (foldl astep a is) = (lstep ^^ count_list is c) (local_part a)"
proof (induction "is" arbitrary: a)
  case (Cons i "is")
  then show ?case
    using own_event [of a] other_event [of a i] stays_away [of a i]
    by (cases "i = c") (simp_all add: funpow_Suc_right del: funpow.simps)
qed simp

end

section \<open>Integer types\<close>

text \<open>
  The code runs on LP64 Linux (it uses \<open>epoll\<close>): \<open>size_t\<close> has 64 bits, \<open>int\<close> 32.
  \<open>int_of_size\<close> is the conversion \<open>(int)n\<close> of a \<open>size_t\<close>.
\<close>

type_synonym size_t = "64 word"
type_synonym int32_t = "32 word"
type_synonym int64_t = "64 word"

definition int_of_size :: "size_t \<Rightarrow> int" where
  "int_of_size n = sint (ucast n :: 32 word)"

lemma int_of_size_small:
  assumes "unat n < 2 ^ 31"
  shows "int_of_size n = int (unat n)"
proof -
  have "int (unat n) < 2 ^ 31"
    using assms by (simp only: of_nat_less_numeral_power_cancel_iff)
  then have small: "uint n < 2 ^ 31"
    by (simp only: of_nat_unat)
  have "uint (ucast n :: 32 word) = take_bit 32 (uint n)"
    by (simp add: unsigned_ucast_eq)
  also have "\<dots> = uint n"
    using small by (intro take_bit_int_eq_self) simp_all
  finally have u: "uint (ucast n :: 32 word) = uint n" .
  have "sint (ucast n :: 32 word) = signed_take_bit 31 (uint (ucast n :: 32 word))"
    by (simp add: sint_uint)
  also have "\<dots> = uint n"
    unfolding u using small uint_ge_0 [of n] by (intro signed_take_bit_int_eq_self) linarith+
  finally show ?thesis
    by (simp add: int_of_size_def)
qed

lemma unat_of_nat_small: "n < 2 ^ 64 \<Longrightarrow> unat (of_nat n :: size_t) = n"
  by (simp add: unat_of_nat)

lemma unat_add_small: "unat (a :: size_t) + unat b < 2 ^ 64 \<Longrightarrow> unat (a + b) = unat a + unat b"
  by (simp add: unat_word_ariths)

lemma unat_diff_small: "unat (b :: size_t) \<le> unat a \<Longrightarrow> unat (a - b) = unat a - unat b"
  by (simp add: unat_sub word_le_nat_alt)

lemma unat_double_small: "2 * unat (a :: size_t) < 2 ^ 64 \<Longrightarrow> unat (a * 2) = 2 * unat a"
  by (simp add: unat_word_ariths mult.commute)

section \<open>Memory\<close>

text \<open>
  The allocator, as its answer to a request for \<open>n\<close> bytes: \<open>None\<close> when there is no memory,
  otherwise the indeterminate contents of the fresh bytes. Every operation that
  allocates takes it as an argument, so all theorems hold for any contents of fresh memory.
\<close>

type_synonym allocator = "nat \<Rightarrow> (nat \<Rightarrow> char) option"

definition alloc_ok :: "allocator \<Rightarrow> bool" where
  "alloc_ok al \<longleftrightarrow> (\<forall>n. al n \<noteq> None)"

lemma alloc_okE:
  assumes "alloc_ok al"
  obtains junk where "al n = Some junk"
  using assms by (auto simp: alloc_ok_def)

text \<open>\<open>realloc\<close>: the old contents, cut or extended with indeterminate bytes.\<close>

definition realloc_bytes :: "(nat \<Rightarrow> char) \<Rightarrow> char list \<Rightarrow> nat \<Rightarrow> char list" where
  "realloc_bytes junk old n = take n old @ map junk [length old..<n]"

lemma length_realloc_bytes [simp]: "length (realloc_bytes junk old n) = n"
  by (simp add: realloc_bytes_def)

lemma take_realloc_bytes:
  "k \<le> length old \<Longrightarrow> k \<le> n \<Longrightarrow> take k (realloc_bytes junk old n) = take k old"
  by (simp add: realloc_bytes_def min_def)

text \<open>\<open>memcpy\<close> into a buffer at an offset, and out of it.\<close>

definition poke :: "char list \<Rightarrow> nat \<Rightarrow> char list \<Rightarrow> char list res" where
  "poke buf off bs =
     (if off + length bs \<le> length buf
      then Inr (take off buf @ bs @ drop (off + length bs) buf) else Inl Out_of_bounds)"

definition peek :: "char list \<Rightarrow> nat \<Rightarrow> nat \<Rightarrow> char list res" where
  "peek buf off n = (if off + n \<le> length buf then Inr (take n (drop off buf)) else Inl Out_of_bounds)"

lemma poke_in: "off + length bs \<le> length buf \<Longrightarrow>
   poke buf off bs = Inr (take off buf @ bs @ drop (off + length bs) buf)"
  by (simp add: poke_def)

lemma poke_length: "poke buf off bs = Inr buf' \<Longrightarrow> length buf' = length buf"
  by (auto simp: poke_def split: if_splits)

lemma poke_prefix: "poke buf off bs = Inr buf' \<Longrightarrow> k \<le> off \<Longrightarrow> take k buf' = take k buf"
  by (auto simp: poke_def min_def split: if_splits)

lemma poke_written:
  "poke buf off bs = Inr buf' \<Longrightarrow> take (off + length bs) buf' = take off buf @ bs"
  by (auto simp: poke_def split: if_splits)

lemma peek_in: "off + n \<le> length buf \<Longrightarrow> peek buf off n = Inr (take n (drop off buf))"
  by (simp add: peek_def)

text \<open>A C string: the bytes before the first NUL; reading on past the object is a fault.\<close>

definition NUL :: char where
  "NUL = CHR 0x00"

definition c_string :: "char list \<Rightarrow> char list res" where
  "c_string mem = (if NUL \<in> set mem then Inr (takeWhile (\<lambda>c. c \<noteq> NUL) mem) else Inl Out_of_bounds)"

text \<open>An allocator that never fails and clears its memory, for examples.\<close>

definition zero_alloc :: allocator where
  "zero_alloc n = Some (\<lambda>_. NUL)"

lemma zero_alloc_ok: "alloc_ok zero_alloc"
  by (simp add: zero_alloc_def alloc_ok_def)

end
