(* ===== verification/Logger.thy ===== *)
theory Logger
  imports Prelude
begin

text \<open>
  The logging library \<open>log/log.c\<close>: one static record \<open>L\<close> with a lock, a level, a quiet flag and a
  table of 32 callbacks, the formatting of a line, and \<open>log_log\<close>. Function pointers are the
  built-in \<open>file_callback\<close> or a number; \<open>udata\<close> pointers are numbers. Logging produces
  effects, in order: calls of the lock, lines written to a file, calls of other callbacks.
  The time of day and the expansion of the message by \<open>vfprintf\<close> are arguments.
\<close>

section \<open>State\<close>

datatype log_fn = File_callback | User_callback nat

record callback =
  cb_fn :: "log_fn option"
  cb_udata :: nat
  cb_level :: int

record logger =
  l_udata :: nat
  l_lock :: "nat option"
  l_level :: int
  l_quiet :: bool
  l_callbacks :: "callback list"

datatype log_effect =
    Lock_call nat bool nat
  | Write_line nat string
  | User_call nat int nat

definition LOG_TRACE :: int where "LOG_TRACE = 0"

definition MAX_CALLBACKS :: nat where "MAX_CALLBACKS = 32"

definition stderr_udata :: nat where "stderr_udata = 2"

definition level_strings :: "string list" where
  "level_strings = [''TRACE'', ''DEBUG'', ''INFO'', ''WARN'', ''ERROR'', ''FATAL'']"

text \<open>The SGR codes of \<open>level_colors\<close> (the targets are built with \<open>LOG_USE_COLOR\<close>).\<close>

definition esc :: string where "esc = [CHR 0x1B]"

definition level_colors :: "string list" where
  "level_colors = map (\<lambda>n. esc @ ''['' @ n @ ''m'') [''94'', ''36'', ''32'', ''33'', ''31'', ''35'']"

text \<open>The static initialisation: everything zero.\<close>

definition log_initial :: logger where
  "log_initial = \<lparr>l_udata = 0, l_lock = None, l_level = 0, l_quiet = False,
     l_callbacks = replicate MAX_CALLBACKS \<lparr>cb_fn = None, cb_udata = 0, cb_level = 0\<rparr>\<rparr>"

section \<open>Operations\<close>

definition level_at :: "string list \<Rightarrow> int \<Rightarrow> string res" where
  "level_at table level =
     (if 0 \<le> level \<and> nat level < length table then Inr (table ! nat level) else Inl Out_of_bounds)"

definition log_level_string :: "int \<Rightarrow> string res" where
  "log_level_string level = level_at level_strings level"

definition log_set_lock :: "logger \<Rightarrow> nat option \<Rightarrow> nat \<Rightarrow> logger" where
  "log_set_lock L fn udata = L\<lparr>l_lock := fn, l_udata := udata\<rparr>"

definition log_set_level :: "logger \<Rightarrow> int \<Rightarrow> logger" where
  "log_set_level L level = L\<lparr>l_level := level\<rparr>"

definition log_set_quiet :: "logger \<Rightarrow> bool \<Rightarrow> logger" where
  "log_set_quiet L enable = L\<lparr>l_quiet := enable\<rparr>"

text \<open>The first entry without a function is taken, or -1 is returned.\<close>

fun add_at_first_free :: "callback \<Rightarrow> callback list \<Rightarrow> callback list option" where
  "add_at_first_free c [] = None"
| "add_at_first_free c (d # ds) =
     (if cb_fn d = None then Some (c # ds) else map_option ((#) d) (add_at_first_free c ds))"

definition log_add_callback :: "logger \<Rightarrow> log_fn option \<Rightarrow> nat \<Rightarrow> int \<Rightarrow> int \<times> logger" where
  "log_add_callback L fn udata level =
     (case add_at_first_free \<lparr>cb_fn = fn, cb_udata = udata, cb_level = level\<rparr> (l_callbacks L) of
        None \<Rightarrow> (-1, L)
      | Some cs \<Rightarrow> (0, L\<lparr>l_callbacks := cs\<rparr>))"

definition log_add_fp :: "logger \<Rightarrow> nat \<Rightarrow> int \<Rightarrow> int \<times> logger" where
  "log_add_fp L fp level = log_add_callback L (Some File_callback) fp level"

text \<open>
  \<open>format_timestamp(buf, buf_size)\<close>: \<open>date\<close> is what \<open>strftime\<close> would write, \<open>usec\<close> the microseconds. When the
  date does not fit, the buffer is left indeterminate and printed all the same.
\<close>

fun dec_nat :: "nat \<Rightarrow> string" where
  "dec_nat n = (if n < 10 then [char_of (48 + n)] else dec_nat (n div 10) @ [char_of (48 + n mod 10)])"

declare dec_nat.simps [simp del]

definition pad_left :: "nat \<Rightarrow> char \<Rightarrow> string \<Rightarrow> string" where
  "pad_left n c s = replicate (n - length s) c @ s"

definition pad_right :: "nat \<Rightarrow> char \<Rightarrow> string \<Rightarrow> string" where
  "pad_right n c s = s @ replicate (n - length s) c"

definition format_timestamp :: "string \<Rightarrow> nat \<Rightarrow> nat \<Rightarrow> string res" where
  "format_timestamp date usec buf_size =
     (if date = [] \<or> length date \<ge> buf_size then Inl Uninitialised
      else Inr (date @ take (buf_size - length date - 1) (''.'' @ pad_left 6 (CHR ''0'') (dec_nat usec))))"

definition base_name :: "string \<Rightarrow> string" where
  "base_name file =
     (if CHR ''/'' \<in> set file then rev (takeWhile (\<lambda>c. c \<noteq> CHR ''/'') (rev file)) else file)"

text \<open>An event: file, line, level, expanded message, and the time it is logged at.\<close>

record log_event =
  ev_file :: string
  ev_line :: nat
  ev_level :: int
  ev_msg :: string
  ev_date :: string
  ev_usec :: nat

definition file_callback :: "log_event \<Rightarrow> nat \<Rightarrow> log_effect res" where
  "file_callback ev udata =
     rbind (format_timestamp (ev_date ev) (ev_usec ev) 64)
       (\<lambda>buf. rbind (log_level_string (ev_level ev))
       (\<lambda>lv. Inr (Write_line udata
          (buf @ '' '' @ pad_right 5 (CHR '' '') lv @ '' '' @ base_name (ev_file ev) @ '':'' @
           dec_nat (ev_line ev) @ '': '' @ ev_msg ev @ [CHR 0x0A]))))"

definition stdout_callback :: "log_event \<Rightarrow> nat \<Rightarrow> log_effect res" where
  "stdout_callback ev udata =
     rbind (format_timestamp (ev_date ev) (ev_usec ev) 32)
       (\<lambda>buf. rbind (level_at level_colors (ev_level ev))
       (\<lambda>col. rbind (log_level_string (ev_level ev))
       (\<lambda>lv. Inr (Write_line udata
          (buf @ '' '' @ col @ pad_right 5 (CHR '' '') lv @ esc @ ''[0m '' @ esc @ ''[90m'' @
           base_name (ev_file ev) @ '':'' @ dec_nat (ev_line ev) @ '':'' @ esc @ ''[0m '' @
           ev_msg ev @ [CHR 0x0A])))))"

definition lock_effect :: "logger \<Rightarrow> bool \<Rightarrow> log_effect list" where
  "lock_effect L b = (case l_lock L of None \<Rightarrow> [] | Some f \<Rightarrow> [Lock_call f b (l_udata L)])"

definition call_callback :: "log_event \<Rightarrow> log_fn \<Rightarrow> nat \<Rightarrow> log_effect res" where
  "call_callback ev fn udata =
     (case fn of File_callback \<Rightarrow> file_callback ev udata
               | User_callback n \<Rightarrow> Inr (User_call n (ev_level ev) udata))"

text \<open>The loop over the callbacks stops at the first entry without a function.\<close>

fun callback_loop :: "log_event \<Rightarrow> callback list \<Rightarrow> log_effect list res" where
  "callback_loop ev [] = Inr []"
| "callback_loop ev (c # cs) =
     (case cb_fn c of
        None \<Rightarrow> Inr []
      | Some fn \<Rightarrow>
          if ev_level ev \<ge> cb_level c
          then rbind (call_callback ev fn (cb_udata c))
                 (\<lambda>e. rbind (callback_loop ev cs) (\<lambda>es. Inr (e # es)))
          else callback_loop ev cs)"

definition log_log :: "logger \<Rightarrow> log_event \<Rightarrow> log_effect list res" where
  "log_log L ev =
     rbind (if \<not> l_quiet L \<and> ev_level ev \<ge> l_level L
            then rbind (stdout_callback ev stderr_udata) (\<lambda>e. Inr [e]) else Inr [])
       (\<lambda>out. rbind (callback_loop ev (l_callbacks L))
       (\<lambda>es. Inr (lock_effect L True @ out @ es @ lock_effect L False)))"

text \<open>\<open>init_logs\<close> of \<open>utils/utils.c\<close>: log to a file at a level, quietly.\<close>

definition init_logs :: "logger \<Rightarrow> nat \<Rightarrow> int \<Rightarrow> int \<times> logger" where
  "init_logs L fd log_level =
     (case log_add_fp L fd log_level of
        (r, L') \<Rightarrow> if r = -1 then (-2, L') else (0, log_set_quiet (log_set_level L' log_level) True))"

section \<open>The callback table has no gaps\<close>

definition has_fn :: "callback \<Rightarrow> bool" where
  "has_fn c \<longleftrightarrow> cb_fn c \<noteq> None"

lemma has_fn_simps [simp]:
  "cb_fn c = None \<Longrightarrow> \<not> has_fn c" "cb_fn c = Some f \<Longrightarrow> has_fn c"
  by (simp_all add: has_fn_def)

definition log_installed :: "logger \<Rightarrow> callback list" where
  "log_installed L = takeWhile has_fn (l_callbacks L)"

definition log_inv :: "logger \<Rightarrow> bool" where
  "log_inv L \<longleftrightarrow> length (l_callbacks L) = MAX_CALLBACKS \<and>
     list_all (\<lambda>c. \<not> has_fn c) (dropWhile has_fn (l_callbacks L))"

lemma log_initial_inv: "log_inv log_initial" and log_initial_installed: "log_installed log_initial = []"
  by (simp_all add: log_inv_def log_initial_def log_installed_def MAX_CALLBACKS_def list_all_iff)

lemma add_at_first_free_full: "\<forall>d \<in> set ds. has_fn d \<Longrightarrow> add_at_first_free c ds = None"
  by (induction ds) (auto simp: has_fn_def)

lemma add_at_first_free_gap:
  "\<forall>d \<in> set ds. has_fn d \<Longrightarrow> \<not> has_fn e \<Longrightarrow> add_at_first_free c (ds @ e # es) = Some (ds @ c # es)"
  by (induction ds) (auto simp: has_fn_def)

lemma log_set_inv [simp]:
  "log_inv (log_set_quiet L b) = log_inv L" "log_inv (log_set_level L n) = log_inv L"
  "log_inv (log_set_lock L f u) = log_inv L"
  "log_installed (log_set_quiet L b) = log_installed L" "log_installed (log_set_level L n) = log_installed L"
  "log_installed (log_set_lock L f u) = log_installed L"
  by (simp_all add: log_inv_def log_installed_def log_set_quiet_def log_set_level_def log_set_lock_def)

lemma length_log_installed: "log_inv L \<Longrightarrow> length (log_installed L) \<le> MAX_CALLBACKS"
  by (metis log_inv_def log_installed_def length_takeWhile_le)

lemma log_add_callback_ok:
  assumes "log_inv L" and "fn \<noteq> None"
  shows "case log_add_callback L fn udata level of (r, L') \<Rightarrow>
     log_inv L' \<and>
     (if length (log_installed L) < MAX_CALLBACKS
      then r = 0 \<and> log_installed L' =
        log_installed L @ [\<lparr>cb_fn = fn, cb_udata = udata, cb_level = level\<rparr>]
      else r = -1 \<and> L' = L)"
proof -
  have fn: "has_fn \<lparr>cb_fn = fn, cb_udata = udata, cb_level = level\<rparr>"
    using assms(2) by (simp add: has_fn_def)
  let ?c = "\<lparr>cb_fn = fn, cb_udata = udata, cb_level = level\<rparr>"
  define cs ds where "cs = takeWhile has_fn (l_callbacks L)" and "ds = dropWhile has_fn (l_callbacks L)"
  have split: "l_callbacks L = cs @ ds" and installed: "log_installed L = cs"
    by (simp_all add: cs_def ds_def log_installed_def)
  have len: "length cs + length ds = MAX_CALLBACKS"
    using assms(1) split by (simp add: log_inv_def)
  have keep: "\<forall>c \<in> set cs. has_fn c"
    by (auto simp: cs_def dest: set_takeWhileD)
  have free: "list_all (\<lambda>c. \<not> has_fn c) ds"
    using assms(1) by (simp add: log_inv_def ds_def)
  show ?thesis
  proof (cases ds)
    case Nil
    with len show ?thesis
      using assms(1) keep by (simp add: log_add_callback_def split add_at_first_free_full installed)
  next
    case (Cons e es)
    have t: "takeWhile has_fn (cs @ ?c # es) = cs @ [?c]" and d: "dropWhile has_fn (cs @ ?c # es) = es"
      using free Cons keep fn
      by (cases es; simp add: takeWhile_append2 dropWhile_append2)+
    have "log_add_callback L fn udata level = (0, L\<lparr>l_callbacks := cs @ ?c # es\<rparr>)"
      using free Cons keep by (simp add: log_add_callback_def split add_at_first_free_gap)
    then show ?thesis
      using Cons free len t d by (simp add: log_inv_def installed) (simp add: log_installed_def)
  qed
qed

section \<open>What a log call does\<close>

definition ev_ok :: "log_event \<Rightarrow> bool" where
  "ev_ok ev \<longleftrightarrow> 0 \<le> ev_level ev \<and> ev_level ev \<le> 5 \<and> ev_date ev \<noteq> [] \<and> length (ev_date ev) < 32"

lemma level_at_ok: "0 \<le> n \<Longrightarrow> n \<le> 5 \<Longrightarrow> length t = 6 \<Longrightarrow> level_at t n = Inr (t ! nat n)"
  by (simp add: level_at_def)

lemma level_tables: "length level_strings = 6" "length level_colors = 6"
  by (simp_all add: level_strings_def level_colors_def)

text \<open>The line a file receives for an event.\<close>

definition file_line :: "log_event \<Rightarrow> string" where
  "file_line ev = (case file_callback ev 0 of Inr (Write_line _ s) \<Rightarrow> s | _ \<Rightarrow> [])"

lemma file_callback_ok: "ev_ok ev \<Longrightarrow> file_callback ev u = Inr (Write_line u (file_line ev))"
  by (simp add: file_line_def file_callback_def format_timestamp_def log_level_string_def ev_ok_def
      level_at_ok level_tables)

lemma stdout_callback_ok: "ev_ok ev \<Longrightarrow> \<exists>s. stdout_callback ev u = Inr (Write_line u s)"
  by (simp add: stdout_callback_def format_timestamp_def log_level_string_def ev_ok_def
      level_at_ok level_tables)

definition callback_effect :: "log_event \<Rightarrow> callback \<Rightarrow> log_effect" where
  "callback_effect ev c =
     (case cb_fn c of
        Some (User_callback n) \<Rightarrow> User_call n (ev_level ev) (cb_udata c)
      | _ \<Rightarrow> Write_line (cb_udata c) (file_line ev))"

lemma callback_loop_effects:
  assumes "ev_ok ev"
  shows "callback_loop ev cs = Inr (map (callback_effect ev)
     (filter (\<lambda>c. cb_level c \<le> ev_level ev) (takeWhile has_fn cs)))"
proof (induction cs)
  case Nil
  then show ?case by simp
next
  case (Cons c cs)
  then show ?case
    using assms
    by (auto simp: call_callback_def callback_effect_def file_callback_ok split: option.splits log_fn.splits)
qed

lemma log_log_effects:
  assumes "ev_ok ev"
  shows "\<exists>out. log_log L ev = Inr (lock_effect L True @ out @
      map (callback_effect ev) (filter (\<lambda>c. cb_level c \<le> ev_level ev) (log_installed L)) @
      lock_effect L False) \<and>
    (if \<not> l_quiet L \<and> l_level L \<le> ev_level ev then \<exists>s. out = [Write_line stderr_udata s] else out = [])"
  using stdout_callback_ok [OF assms, of stderr_udata]
  by (auto simp: log_log_def callback_loop_effects [OF assms] log_installed_def)

section \<open>Decimal numbers\<close>

definition digits_value :: "string \<Rightarrow> nat" where
  "digits_value s = foldl (\<lambda>v c. 10 * v + (of_char c - 48)) 0 s"

lemma digits_value_dec_nat: "digits_value (dec_nat n) = n"
proof (induction n rule: dec_nat.induct)
  case (1 n)
  have c: "of_char (char_of (48 + m) :: char) = 48 + m" if "m < 10" for m :: nat
    using that by simp
  show ?case
    using "1" c by (simp add: dec_nat.simps [of n] digits_value_def)
qed

section \<open>Properties\<close>

definition register_all :: "logger \<Rightarrow> (log_fn \<times> nat \<times> int) list \<Rightarrow> logger" where
  "register_all L regs = foldl (\<lambda>L (fn, u, l). snd (log_add_callback L (Some fn) u l)) L regs"

lemma register_all_installed:
  "log_inv L \<Longrightarrow> length (log_installed L) + length regs \<le> MAX_CALLBACKS \<Longrightarrow>
   log_installed (register_all L regs) =
     log_installed L @ map (\<lambda>(fn, u, l). \<lparr>cb_fn = Some fn, cb_udata = u, cb_level = l\<rparr>) regs"
proof (induction regs arbitrary: L)
  case Nil
  then show ?case by (simp add: register_all_def)
next
  case (Cons r regs)
  obtain fn u l where r: "r = (fn, u, l)" by (cases r) auto
  obtain c L' where add: "log_add_callback L (Some fn) u l = (c, L')" by fastforce
  have "log_inv L'" and "log_installed L' = log_installed L @ [\<lparr>cb_fn = Some fn, cb_udata = u, cb_level = l\<rparr>]"
    using log_add_callback_ok [of L "Some fn" u l] Cons.prems add by simp_all
  then show ?case
    using Cons.IH [of L'] Cons.prems r add by (simp add: register_all_def)
qed

text \<open>C40: a log call reaches exactly the callbacks registered for its level, in the order of
  registration, between the two calls of the lock, and standard error exactly when the
  logger is not quiet and its level allows.\<close>

theorem log_log_reaches_registered:
  assumes "ev_ok ev" and "length regs \<le> MAX_CALLBACKS"
  shows "\<exists>out. log_log (register_all log_initial regs) ev = Inr (lock_effect (register_all log_initial regs) True @
      out @
      map (\<lambda>(fn, u, l). case fn of File_callback \<Rightarrow> Write_line u (file_line ev)
                                 | User_callback n \<Rightarrow> User_call n (ev_level ev) u)
        (filter (\<lambda>(fn, u, l). l \<le> ev_level ev) regs) @
      lock_effect (register_all log_initial regs) False) \<and>
    (if \<not> l_quiet (register_all log_initial regs) \<and> l_level (register_all log_initial regs) \<le> ev_level ev
     then \<exists>s. out = [Write_line stderr_udata s] else out = [])"
proof -
  let ?L = "register_all log_initial regs"
  let ?cb = "\<lambda>(fn, u, l). \<lparr>cb_fn = Some fn, cb_udata = u, cb_level = l\<rparr>"
  have inst: "log_installed ?L = map ?cb regs"
    using register_all_installed [OF log_initial_inv, of regs] assms(2)
    by (simp add: log_initial_installed)
  have "map (callback_effect ev) (filter (\<lambda>c. cb_level c \<le> ev_level ev) (map ?cb regs)) =
    map (\<lambda>(fn, u, l). case fn of File_callback \<Rightarrow> Write_line u (file_line ev)
                                 | User_callback n \<Rightarrow> User_call n (ev_level ev) u)
        (filter (\<lambda>(fn, u, l). l \<le> ev_level ev) regs)"
    by (induction regs) (auto simp: callback_effect_def split: log_fn.splits)
  with log_log_effects [OF assms(1), of ?L] show ?thesis
    unfolding inst by simp
qed

definition sample_event :: log_event where
  "sample_event = \<lparr>ev_file = ''source/main.c'', ev_line = 96, ev_level = 3, ev_msg = ''hi'',
     ev_date = ''2024-01-01 00:00:00'', ev_usec = 42\<rparr>"

theorem log_log_reaches_registered_witness:
  "\<exists>s s'. log_log (register_all log_initial [(File_callback, 7, 0), (User_callback 1, 8, 5)]) sample_event
    = Inr [Write_line stderr_udata s, Write_line 7 s']"
  using log_log_reaches_registered
    [of sample_event "[(File_callback, 7, 0), (User_callback 1, 8, 5)]"]
  by (auto simp: sample_event_def ev_ok_def MAX_CALLBACKS_def lock_effect_def register_all_def
      log_add_callback_def log_initial_def numeral_eq_Suc)

text \<open>After \<open>init_logs\<close> on the fresh logger an event goes to the log file exactly when its
  level reaches the configured one, and nowhere else: standard error stays silent.\<close>

lemma init_logs_file_only:
  assumes "ev_ok ev"
  shows "case init_logs log_initial fd level of (r, L) \<Rightarrow> r = 0 \<and>
    log_log L ev = Inr (if level \<le> ev_level ev then [Write_line fd (file_line ev)] else [])"
proof -
  obtain c L where add: "log_add_callback log_initial (Some File_callback) fd level = (c, L)" by fastforce
  have c: "c = 0" and inst: "log_installed L = [\<lparr>cb_fn = Some File_callback, cb_udata = fd, cb_level = level\<rparr>]"
    using log_add_callback_ok [OF log_initial_inv, of "Some File_callback" fd level] add
    by (simp_all add: log_initial_installed MAX_CALLBACKS_def)
  have "l_lock L = None"
    using add by (auto simp: log_add_callback_def log_initial_def split: option.splits)
  moreover have "init_logs log_initial fd level = (0, log_set_quiet (log_set_level L level) True)"
    using add c by (simp add: init_logs_def log_add_fp_def)
  moreover have "l_lock (log_set_quiet (log_set_level L level) True) = l_lock L"
    "l_quiet (log_set_quiet (log_set_level L level) True)"
    by (simp_all add: log_set_quiet_def log_set_level_def)
  ultimately show ?thesis
    using log_log_effects [OF assms, of "log_set_quiet (log_set_level L level) True"] inst
    by (auto simp: lock_effect_def callback_effect_def)
qed

text \<open>Numbers in a log line are printed so that reading the digits gives the number back.\<close>

lemma dec_nat_roundtrip: "digits_value (dec_nat n) = n"
  by (rule digits_value_dec_nat)

end
