(* ===== verification/Kernel.thy ===== *)
theory Kernel
  imports Prelude
begin

text \<open>
  The operating system as the servers see it: the sockets API and \<open>epoll\<close>, by their documented
  behaviour, over an explicit state that is threaded through every call. What the peers
  and the kernel decide is data of that state and arbitrary: what each socket will
  deliver (\<open>k_rx\<close>), how each \<open>send\<close> is answered (\<open>k_tx\<close>), what \<open>accept\<close> returns
  (\<open>k_accept\<close>), which calls of \<open>epoll_ctl\<close> fail for want of resources (\<open>k_ctl_fails\<close>). What the
  program does to the outside is recorded: the bytes sent on each socket (\<open>k_out\<close>), the
  epoll interest list, the sockets made non-blocking, and the descriptors closed.
\<close>

section \<open>State\<close>

text \<open>
  One item of what a socket delivers: bytes, the end of the stream, or an error return
  with its \<open>errno\<close>. \<open>EAGAIN\<close> and \<open>EWOULDBLOCK\<close> are both 11 on Linux.
\<close>

datatype rx = RxData "char list" | RxEof | RxErr int

datatype tx = TxOk nat | TxErr int

datatype epoll_flag = EPOLLIN | EPOLLRDHUP | EPOLLET

definition EAGAIN :: int where "EAGAIN = 11"

definition EWOULDBLOCK :: int where "EWOULDBLOCK = 11"

record kernel =
  k_rx :: "int \<Rightarrow> rx list"
  k_tx :: "int \<Rightarrow> tx list"
  k_out :: "int \<Rightarrow> char list"
  k_accept :: "int list"
  k_ctl_fails :: "bool list"
  k_interest :: "(int \<times> epoll_flag list) list"
  k_nonblock :: "int list"
  k_closed :: "int list"

text \<open>Updates of one socket.\<close>

definition set_rx :: "int \<Rightarrow> rx list \<Rightarrow> kernel \<Rightarrow> kernel" where
  "set_rx fd rs k = k\<lparr>k_rx := (k_rx k)(fd := rs)\<rparr>"

definition set_tx :: "int \<Rightarrow> tx list \<Rightarrow> kernel \<Rightarrow> kernel" where
  "set_tx fd ts k = k\<lparr>k_tx := (k_tx k)(fd := ts)\<rparr>"

definition put_out :: "int \<Rightarrow> char list \<Rightarrow> kernel \<Rightarrow> kernel" where
  "put_out fd bs k = k\<lparr>k_out := (k_out k)(fd := k_out k fd @ bs)\<rparr>"

lemma set_rx_fields [simp]:
  "k_rx (set_rx fd rs k) = (k_rx k)(fd := rs)" "k_tx (set_rx fd rs k) = k_tx k"
  "k_out (set_rx fd rs k) = k_out k" "k_accept (set_rx fd rs k) = k_accept k"
  "k_ctl_fails (set_rx fd rs k) = k_ctl_fails k" "k_interest (set_rx fd rs k) = k_interest k"
  "k_nonblock (set_rx fd rs k) = k_nonblock k" "k_closed (set_rx fd rs k) = k_closed k"
  by (simp_all add: set_rx_def)

lemma set_tx_fields [simp]:
  "k_rx (set_tx fd ts k) = k_rx k" "k_tx (set_tx fd ts k) = (k_tx k)(fd := ts)"
  "k_out (set_tx fd ts k) = k_out k" "k_accept (set_tx fd ts k) = k_accept k"
  "k_ctl_fails (set_tx fd ts k) = k_ctl_fails k" "k_interest (set_tx fd ts k) = k_interest k"
  "k_nonblock (set_tx fd ts k) = k_nonblock k" "k_closed (set_tx fd ts k) = k_closed k"
  by (simp_all add: set_tx_def)

lemma put_out_fields [simp]:
  "k_rx (put_out fd bs k) = k_rx k" "k_tx (put_out fd bs k) = k_tx k"
  "k_out (put_out fd bs k) = (k_out k)(fd := k_out k fd @ bs)" "k_accept (put_out fd bs k) = k_accept k"
  "k_ctl_fails (put_out fd bs k) = k_ctl_fails k" "k_interest (put_out fd bs k) = k_interest k"
  "k_nonblock (put_out fd bs k) = k_nonblock k" "k_closed (put_out fd bs k) = k_closed k"
  by (simp_all add: put_out_def)

lemma set_rx_twice [simp]: "set_rx fd rs (set_rx fd rs' k) = set_rx fd rs k"
  by (simp add: set_rx_def)

lemma set_rx_idem [simp]: "k_rx k fd = rs \<Longrightarrow> set_rx fd rs k = k"
  by (cases k) (auto simp: set_rx_def)

lemma put_out_twice [simp]: "put_out fd bs (put_out fd as k) = put_out fd (as @ bs) k"
  by (simp add: put_out_def)

lemma put_out_Nil [simp]: "put_out fd [] k = k"
  by (cases k) (simp add: put_out_def)

section \<open>Calls\<close>

text \<open>
  \<open>recv(fd, buf, len, 0)\<close> on a non-blocking stream socket: at most \<open>len\<close> bytes, no bytes at
  the end of the stream (which stays at its end), \<open>EAGAIN\<close> when nothing has arrived.
\<close>

datatype recv_ret = RecvBytes "char list" | RecvErr int

definition recv_call :: "int \<Rightarrow> nat \<Rightarrow> kernel \<Rightarrow> recv_ret \<times> kernel" where
  "recv_call fd len k =
     (case k_rx k fd of
        [] \<Rightarrow> (RecvErr EAGAIN, k)
      | RxErr e # rs \<Rightarrow> (RecvErr e, set_rx fd rs k)
      | RxEof # rs \<Rightarrow> (RecvBytes [], k)
      | RxData bs # rs \<Rightarrow>
          if length bs \<le> len then (RecvBytes bs, set_rx fd rs k)
          else (RecvBytes (take len bs), set_rx fd (RxData (drop len bs) # rs) k))"

text \<open>
  \<open>send(fd, bs, |bs|, 0)\<close>: the number of bytes accepted, or an error. Once the answers of \<open>k_tx\<close>
  are used up every \<open>send\<close> is accepted whole.
\<close>

datatype send_ret = Sent nat | SendErr int

definition send_call :: "int \<Rightarrow> char list \<Rightarrow> kernel \<Rightarrow> send_ret \<times> kernel" where
  "send_call fd bs k =
     (case k_tx k fd of
        [] \<Rightarrow> (Sent (length bs), put_out fd bs k)
      | TxErr e # ts \<Rightarrow> (SendErr e, set_tx fd ts k)
      | TxOk n # ts \<Rightarrow>
          (Sent (min n (length bs)), put_out fd (take n bs) (set_tx fd ts k)))"

definition accept_call :: "kernel \<Rightarrow> int \<times> kernel" where
  "accept_call k = (case k_accept k of [] \<Rightarrow> (-1, k) | fd # fds \<Rightarrow> (fd, k\<lparr>k_accept := fds\<rparr>))"

definition fcntl_nonblock :: "int \<Rightarrow> kernel \<Rightarrow> kernel" where
  "fcntl_nonblock fd k = k\<lparr>k_nonblock := fd # k_nonblock k\<rparr>"

text \<open>
  \<open>epoll_ctl\<close> with \<open>EPOLL_CTL_ADD\<close> fails on a registered descriptor, with \<open>EPOLL_CTL_DEL\<close> on one that is
  not; either may also fail as \<open>k_ctl_fails\<close> says.
\<close>

definition ctl_resource :: "kernel \<Rightarrow> bool \<times> kernel" where
  "ctl_resource k =
     (case k_ctl_fails k of [] \<Rightarrow> (False, k) | f # fs \<Rightarrow> (f, k\<lparr>k_ctl_fails := fs\<rparr>))"

definition epoll_ctl_add :: "int \<Rightarrow> epoll_flag list \<Rightarrow> kernel \<Rightarrow> int \<times> kernel" where
  "epoll_ctl_add fd ev k =
     (let (f, k) = ctl_resource k in
      if f \<or> fd \<in> fst ` set (k_interest k) then (-1, k)
      else (0, k\<lparr>k_interest := (fd, ev) # k_interest k\<rparr>))"

definition epoll_ctl_del :: "int \<Rightarrow> kernel \<Rightarrow> int \<times> kernel" where
  "epoll_ctl_del fd k =
     (let (f, k) = ctl_resource k in
      if f \<or> fd \<notin> fst ` set (k_interest k) then (-1, k)
      else (0, k\<lparr>k_interest := filter (\<lambda>(fd', _). fd' \<noteq> fd) (k_interest k)\<rparr>))"

definition close_call :: "int \<Rightarrow> kernel \<Rightarrow> kernel" where
  "close_call fd k =
     k\<lparr>k_closed := fd # k_closed k, k_interest := filter (\<lambda>(fd', _). fd' \<noteq> fd) (k_interest k)\<rparr>"

section \<open>What the calls guarantee\<close>

lemma recv_call_bound: "recv_call fd len k = (RecvBytes bs, k') \<Longrightarrow> length bs \<le> len"
  by (auto simp: recv_call_def split: list.splits rx.splits if_splits)

lemma recv_call_frame:
  "recv_call fd len k = (r, k') \<Longrightarrow> k' = set_rx fd (k_rx k' fd) k"
  by (auto simp: recv_call_def split: list.splits rx.splits if_splits)

text \<open>What is still to come on a socket, as a measure: every byte received makes it smaller.\<close>

fun rx_weight :: "rx list \<Rightarrow> nat" where
  "rx_weight [] = 0"
| "rx_weight (RxData bs # rs) = Suc (length bs) + rx_weight rs"
| "rx_weight (r # rs) = Suc (rx_weight rs)"

lemma recv_call_progress:
  "recv_call fd len k = (RecvBytes bs, k') \<Longrightarrow> bs \<noteq> [] \<Longrightarrow>
   rx_weight (k_rx k' fd) < rx_weight (k_rx k fd)"
  by (auto simp: recv_call_def split: list.splits rx.splits if_splits)

lemma send_call_cases:
  assumes "send_call fd bs k = (r, k')"
  obtains
    (sent) n where "r = Sent n" and "n \<le> length bs"
      and "k_out k' = (k_out k)(fd := k_out k fd @ take n bs)"
  | (failed) e where "r = SendErr e" and "TxErr e \<in> set (k_tx k fd)" and "k_out k' = k_out k"
proof (cases "k_tx k fd")
  case Nil
  with assms sent [of "length bs"] show ?thesis
    by (auto simp: send_call_def)
next
  case (Cons t ts)
  show ?thesis
  proof (cases t)
    case (TxOk n)
    with Cons assms sent [of "min n (length bs)"] show ?thesis
      by (auto simp: send_call_def min_def split: if_splits)
  next
    case (TxErr e)
    with Cons assms failed [of e] show ?thesis
      by (auto simp: send_call_def)
  qed
qed

end
