(* ===== verification/Sockets.thy ===== *)
theory Sockets
  imports Kernel
begin

text \<open>
  \<open>utils/sockets.c\<close>: \<open>sendall\<close>, with its trace of the message and its loop over \<open>send\<close>, and
  \<open>create_server\<close>, with the outcomes of \<open>getaddrinfo\<close>, \<open>socket\<close>, \<open>bind\<close> and \<open>listen\<close> as arguments.
\<close>

section \<open>sendall\<close>

text \<open>
  \<open>sendall\<close> passes the message to \<open>log_trace\<close> as the format string, and every server registers a
  log file at level \<open>TRACE\<close>: a conversion specification in the message reads arguments that
  are not there. \<open>fmt_ok\<close> holds of the strings that print without arguments.
\<close>

fun fmt_ok :: "char list \<Rightarrow> bool" where
  "fmt_ok [] = True"
| "fmt_ok (c # cs) =
     (if c = NUL then True
      else if c \<noteq> CHR ''%'' then fmt_ok cs
      else (case cs of [] \<Rightarrow> False | d # ds \<Rightarrow> d = CHR ''%'' \<and> fmt_ok ds))"

text \<open>
  The loop \<open>for (; nbytes_sent < total_to_send;)\<close>: \<open>rest\<close> is what \<open>buf\<close> and \<open>total_to_send\<close> describe,
  \<open>prev\<close> is \<open>nbytes_sent\<close>, the count of the latest call, \<open>done_n\<close> is \<open>total_sent\<close>. The guard
  compares the latest count with what remains, as the code does. The result is the return
  value and the final \<open>*len\<close>.
\<close>

function send_loop :: "int \<Rightarrow> char list \<Rightarrow> nat \<Rightarrow> nat \<Rightarrow> kernel \<Rightarrow> int \<times> nat \<times> kernel" where
  "send_loop fd rest prev done_n k =
     (if prev < length rest then
        (case send_call fd rest k of
           (SendErr e, k') \<Rightarrow> (e, done_n, k')
         | (Sent n, k') \<Rightarrow> send_loop fd (drop n rest) n (done_n + n) k')
      else (0, done_n, k))"
  by pat_completeness auto

lemma send_call_progress:
  assumes "send_call fd rest k = (Sent n, k')" and "rest \<noteq> []"
  shows "length (k_tx k' fd) + of_bool (drop n rest \<noteq> []) < length (k_tx k fd) + of_bool (rest \<noteq> [])"
  using assms by (auto simp: send_call_def of_bool_def split: list.splits tx.splits)

termination send_loop
  by (relation "measure (\<lambda>(fd, rest, prev, done_n, k). length (k_tx k fd) + of_bool (rest \<noteq> []))")
     (use send_call_progress in \<open>force+\<close>)

declare send_loop.simps [simp del]

text \<open>
  \<open>sendall(sfd, buf, &len)\<close>: \<open>mem\<close> is the object \<open>buf\<close> points into, from \<open>buf\<close> to its end. The copy
  for the trace reads \<open>len + 2\<close> bytes. The result is the return value, the final \<open>*len\<close>, and
  the kernel.
\<close>

definition sendall :: "int \<Rightarrow> char list \<Rightarrow> int \<Rightarrow> kernel \<Rightarrow> (int \<times> int \<times> kernel) res" where
  "sendall sfd mem len k =
     (if sfd = 0 then Inl Assert_failed
      else if \<not> len > 0 then Inl Assert_failed
      else rbind (peek mem 0 (nat (len + 2)))
        (\<lambda>msg. if \<not> fmt_ok (msg[nat (len + 1) := NUL]) then Inl Format_string
               else (case send_loop sfd (take (nat len) mem) 0 0 k of
                       (r, sent, k') \<Rightarrow> Inr (r, int sent, k'))))"

section \<open>create\_server\<close>

text \<open>
  The loop over the addresses: each with the descriptor \<open>socket\<close> returns and whether
  \<open>bind\<close> succeeds. The result is the bound descriptor (\<open>None\<close> is \<open>rp == NULL\<close>) and the descriptors
  closed on the way.
\<close>

fun bind_first :: "(int \<times> bool) list \<Rightarrow> int option \<times> int list" where
  "bind_first [] = (None, [])"
| "bind_first ((fd, bound) # rest) =
     (if fd = -1 then bind_first rest
      else if bound then (Some fd, [])
      else (case bind_first rest of (r, closed) \<Rightarrow> (r, fd # closed)))"

text \<open>
  \<open>gai\<close> is the status of \<open>getaddrinfo\<close>, \<open>addrs\<close> its result list, \<open>listen_ret fd\<close> what \<open>listen\<close>
  returns; the result is the return value, \<open>*listen_fd\<close> when written, and the closed descriptors.
\<close>

definition create_server ::
  "int \<Rightarrow> (int \<times> bool) list \<Rightarrow> (int \<Rightarrow> int) \<Rightarrow> int \<times> int option \<times> int list" where
  "create_server gai addrs listen_ret =
     (if gai \<noteq> 0 then (-1, None, [])
      else (case bind_first addrs of
              (None, closed) \<Rightarrow> (-1, None, closed)
            | (Some fd, closed) \<Rightarrow>
                if listen_ret fd = -1 then (-2, None, closed) else (0, Some fd, closed)))"

section \<open>The loop of sendall\<close>

text \<open>
  Whatever the kernel answers, the bytes on the wire are the first \<open>n\<close> of the message. A
  return of 0 means the loop guard failed: either all is sent or the last call sent at
  least as much as remains.
\<close>

lemma send_loop_prefix:
  "send_loop fd rest prev done_n k = (r, n, k') \<Longrightarrow>
   done_n \<le> n \<and> n - done_n \<le> length rest \<and>
   k_out k' = (k_out k)(fd := k_out k fd @ take (n - done_n) rest)"
proof (induction fd rest prev done_n k arbitrary: r n k' rule: send_loop.induct)
  case (1 fd rest prev done_n k)
  show ?case
  proof (cases "prev < length rest")
    case False
    with "1.prems" show ?thesis by (auto simp: send_loop.simps [of fd rest])
  next
    case True
    obtain s k1 where call: "send_call fd rest k = (s, k1)" by fastforce
    show ?thesis
    proof (cases s)
      case (SendErr e)
      with call have "k_out k1 = k_out k" by (auto elim: send_call_cases)
      with "1.prems" True call SendErr show ?thesis by (auto simp: send_loop.simps [of fd rest])
    next
      case (Sent m)
      with call have m: "m \<le> length rest" "k_out k1 = (k_out k)(fd := k_out k fd @ take m rest)"
        by (auto elim: send_call_cases)
      have "send_loop fd (drop m rest) m (done_n + m) k1 = (r, n, k')"
        using "1.prems" True call Sent by (simp add: send_loop.simps [of fd rest])
      from "1.IH" [OF True call [symmetric] Sent this]
      have ih: "done_n + m \<le> n" "n - (done_n + m) \<le> length (drop m rest)"
        "k_out k' = (k_out k1)(fd := k_out k1 fd @ take (n - (done_n + m)) (drop m rest))"
        by blast+
      have eq: "n - done_n = m + (n - (done_n + m))"
        using ih(1) by simp
      have "take (n - done_n) rest = take m rest @ take (n - (done_n + m)) (drop m rest)"
        by (subst eq) (simp add: take_add)
      moreover have "n - done_n \<le> length rest"
        using ih(2) m(1) by (subst eq) simp
      ultimately show ?thesis
        using ih m(2) by simp
    qed
  qed
qed

lemma send_loop_returned_0:
  "send_loop fd rest prev done_n k = (0, n, k') \<Longrightarrow> TxErr 0 \<notin> set (k_tx k fd) \<Longrightarrow>
   length rest \<le> n - done_n + max prev (n - done_n)"
proof (induction fd rest prev done_n k arbitrary: n k' rule: send_loop.induct)
  case (1 fd rest prev done_n k)
  show ?case
  proof (cases "prev < length rest")
    case False
    with "1.prems" show ?thesis by (auto simp: send_loop.simps [of fd rest])
  next
    case True
    obtain s k1 where call: "send_call fd rest k = (s, k1)" by fastforce
    show ?thesis
    proof (cases s)
      case (SendErr e)
      with "1.prems" True call show ?thesis
        by (auto simp: send_loop.simps [of fd rest] elim: send_call_cases)
    next
      case (Sent m)
      have m: "m \<le> length rest"
        using call Sent by (auto elim: send_call_cases)
      have loop: "send_loop fd (drop m rest) m (done_n + m) k1 = (0, n, k')"
        using "1.prems" True call Sent by (simp add: send_loop.simps [of fd rest])
      have "set (k_tx k1 fd) \<subseteq> set (k_tx k fd)"
        using call by (auto simp: send_call_def split: list.splits tx.splits)
      then have "TxErr 0 \<notin> set (k_tx k1 fd)"
        using "1.prems"(2) by blast
      from "1.IH" [OF True call [symmetric] Sent loop this]
      have "length rest - m \<le> n - (done_n + m) + max m (n - (done_n + m))"
        by simp
      moreover have "done_n + m \<le> n"
        using send_loop_prefix [OF loop] by simp
      ultimately show ?thesis
        using m by simp
    qed
  qed
qed

text \<open>A kernel that takes everything at once gets everything in one call.\<close>

lemma send_loop_whole:
  assumes "k_tx k fd = []" and "rest \<noteq> []"
  shows "send_loop fd rest 0 done_n k
    = (0, done_n + length rest, put_out fd rest k)"
  using assms
  by (simp add: send_loop.simps [of fd rest] send_loop.simps [of fd "[]"] send_call_def)

text \<open>A whole send from well-formed memory: the form the servers use.\<close>

lemma sendall_whole:
  assumes "sfd \<noteq> 0" and "0 < n" and "n + 2 \<le> length mem" and "k_tx k sfd = []"
    and "fmt_ok ((take (n + 2) mem)[n + 1 := NUL])"
  shows "sendall sfd mem (int n) k
    = Inr (0, int n, put_out sfd (take n mem) k)"
proof -
  have "nat (int n + 2) = n + 2" "nat (int n + 1) = n + 1"
    by (simp_all add: nat_add_distrib)
  moreover have "take n mem \<noteq> []"
    using assms(2,3) by auto
  ultimately show ?thesis
    using assms by (simp add: sendall_def peek_in send_loop_whole)
qed

lemma bind_first_Some:
  "bind_first addrs = (Some fd, closed) \<Longrightarrow>
   \<exists>pre post. addrs = pre @ (fd, True) # post \<and> fd \<noteq> -1 \<and>
     closed = filter (\<lambda>f. f \<noteq> -1) (map fst pre) \<and> (\<forall>(f, bound) \<in> set pre. f = -1 \<or> \<not> bound)"
proof (induction addrs arbitrary: closed)
  case Nil
  then show ?case by simp
next
  case (Cons a addrs)
  obtain f bound where a: "a = (f, bound)" by fastforce
  show ?case
  proof (cases "f \<noteq> -1 \<and> bound")
    case True
    with Cons.prems a have "f = fd" "bound" "closed = []" "fd \<noteq> -1"
      by simp_all
    then show ?thesis
      using a by (auto intro: exI [of _ "[]"])
  next
    case False
    then obtain closed' where rest: "bind_first addrs = (Some fd, closed')"
      and closed: "closed = (if f = -1 then closed' else f # closed')"
      using Cons.prems a by (auto split: if_splits prod.splits)
    from Cons.IH [OF rest] obtain pre post where
      "addrs = pre @ (fd, True) # post \<and> fd \<noteq> -1 \<and>
       closed' = filter (\<lambda>f. f \<noteq> -1) (map fst pre) \<and> (\<forall>(f, bound) \<in> set pre. f = -1 \<or> \<not> bound)"
      by blast
    then have "a # addrs = (a # pre) @ (fd, True) # post \<and> fd \<noteq> -1 \<and>
       closed = filter (\<lambda>f. f \<noteq> -1) (map fst (a # pre)) \<and>
       (\<forall>(f, bound) \<in> set (a # pre). f = -1 \<or> \<not> bound)"
      using False a closed by auto
    then show ?thesis by blast
  qed
qed

lemma bind_first_None:
  "bind_first addrs = (None, closed) \<Longrightarrow>
   closed = filter (\<lambda>f. f \<noteq> -1) (map fst addrs) \<and> (\<forall>(f, bound) \<in> set addrs. f = -1 \<or> \<not> bound)"
  by (induction addrs arbitrary: closed rule: bind_first.induct)
     (auto split: if_splits prod.splits)

section \<open>Properties\<close>

text \<open>C20: however the kernel answers, \<open>sendall\<close> puts on the wire a prefix of the message, of
  the length it reports, and touches no other socket; when it reports success at least half
  of the message has been sent.\<close>

theorem sendall_sends_prefix:
  assumes "sendall sfd mem len k = Inr (r, n, k')" and "TxErr 0 \<notin> set (k_tx k sfd)"
  shows "0 \<le> n \<and> n \<le> len \<and> k_out k' = (k_out k)(sfd := k_out k sfd @ take (nat n) mem) \<and>
    (r = 0 \<longrightarrow> len \<le> 2 * n)"
proof -
  from assms(1) obtain m where len: "0 < len" "nat (len + 2) \<le> length mem" and n: "n = int m"
    and loop: "send_loop sfd (take (nat len) mem) 0 0 k = (r, m, k')"
    by (auto simp: sendall_def peek_def res_simps split: if_splits prod.splits)
  have whole: "length (take (nat len) mem) = nat len"
    using len by simp
  note prefix = send_loop_prefix [OF loop, unfolded whole]
  have "len \<le> 2 * n" if "r = 0"
    using send_loop_returned_0 [OF loop [unfolded that] assms(2)] len n by (simp add: whole)
  then show ?thesis
    using prefix n len by (simp add: min_def) (auto simp: min_def)
qed

definition quiet_kernel :: kernel where
  "quiet_kernel = \<lparr>k_rx = (\<lambda>_. []), k_tx = (\<lambda>_. []), k_out = (\<lambda>_. []), k_accept = [],
     k_ctl_fails = [], k_interest = [], k_nonblock = [], k_closed = []\<rparr>"

definition slow_kernel :: kernel where
  "slow_kernel = quiet_kernel\<lparr>k_tx := (\<lambda>_. [TxOk 2, TxOk 4])\<rparr>"

theorem sendall_sends_prefix_witness:
  "\<exists>k'. sendall 7 ''welcome!....'' 8 slow_kernel = Inr (0, 6, k') \<and>
     k_out k' 7 = ''welcom'' \<and> (8 :: int) \<le> 2 * 6"
proof -
  have run: "sendall 7 ''welcome!....'' 8 slow_kernel
    = Inr (0, 6, put_out 7 ''lcom'' (set_tx 7 [] (put_out 7 ''we'' (set_tx 7 [TxOk 4] slow_kernel))))"
    by (simp add: sendall_def peek_def send_loop.simps send_call_def slow_kernel_def
        quiet_kernel_def NUL_def)
  show ?thesis
    using sendall_sends_prefix [OF run] run by (simp add: slow_kernel_def quiet_kernel_def)
qed

text \<open>C39: the loop guard of \<open>sendall\<close> compares the latest count with what remains, so when the
  kernel accepts at least half but not all of a message in the first call, \<open>sendall\<close> returns 0
  and the rest of the message is never sent.\<close>

theorem sendall_stops_short:
  assumes "sfd \<noteq> 0" and "n + 2 \<le> length mem" and "fmt_ok ((take (n + 2) mem)[n + 1 := NUL])"
    and "k_tx k sfd = TxOk m # ts" and "m < n" and "n \<le> 2 * m"
  shows "sendall sfd mem (int n) k = Inr (0, int m,
    put_out sfd (take m mem) (set_tx sfd ts k))"
proof -
  have "nat (int n + 2) = n + 2" "nat (int n + 1) = n + 1" "0 < n"
    using assms(5) by (simp_all add: nat_add_distrib)
  moreover have call: "send_call sfd (take n mem) k = (Sent m,
    put_out sfd (take m mem) (set_tx sfd ts k))"
    using assms by (simp add: send_call_def min_def)
  moreover have "\<not> m < length (drop m (take n mem))" and "0 < length (take n mem)"
    using assms by simp_all
  then have "send_loop sfd (take n mem) 0 0 k = (0, m,
    put_out sfd (take m mem) (set_tx sfd ts k))"
    using call
    by (simp add: send_loop.simps [of sfd "take n mem"] send_loop.simps [of sfd "drop m (take n mem)"])
  ultimately show ?thesis
    using assms by (simp add: sendall_def peek_in)
qed

theorem sendall_stops_short_witness:
  "\<exists>k'. sendall 7 ''0123456789..'' 10 (quiet_kernel\<lparr>k_tx := (\<lambda>_. [TxOk 6])\<rparr>) = Inr (0, 6, k')"
  using sendall_stops_short [of 7 10 "''0123456789..''" "quiet_kernel\<lparr>k_tx := (\<lambda>_. [TxOk 6])\<rparr>" 6 "[]"]
  by (simp add: NUL_def quiet_kernel_def)

text \<open>\<open>create_server\<close> returns 0 exactly when it hands out a descriptor; that descriptor is the
  first that could be bound, and of the sockets opened before it each one has been closed.
  When nothing could be bound every opened socket has been closed.\<close>

lemma create_server_descriptors:
  "case create_server gai addrs listen_ret of (r, fdo, closed) \<Rightarrow>
     (r = 0 \<longleftrightarrow> fdo \<noteq> None) \<and>
     (case fdo of
        Some fd \<Rightarrow> listen_ret fd \<noteq> -1 \<and> (\<exists>pre post. addrs = pre @ (fd, True) # post \<and>
          closed = filter (\<lambda>f. f \<noteq> -1) (map fst pre) \<and> list_all (\<lambda>(f, bound). f = -1 \<or> \<not> bound) pre)
      | None \<Rightarrow> r = -1 \<and> gai = 0 \<longrightarrow> closed = filter (\<lambda>f. f \<noteq> -1) (map fst addrs))"
proof (cases "bind_first addrs")
  case (Pair fdo closed)
  show ?thesis
  proof (cases fdo)
    case None
    with Pair bind_first_None [of addrs closed] show ?thesis
      by (simp add: create_server_def)
  next
    case (Some fd)
    with Pair bind_first_Some [of addrs fd closed] show ?thesis
      by (auto simp: create_server_def list_all_iff)
  qed
qed

end
