(* ===== verification/Epoll.thy ===== *)
theory Epoll
  imports Kernel
begin

text \<open>
  \<open>utils/epoll.c\<close>: registering a new connection and dropping one. The context is
  \<open>struct epoll_ctl_info\<close>; the event pointer is \<open>None\<close> for \<open>NULL\<close> and otherwise the descriptor its event names.
\<close>

record epoll_ctl_info =
  ci_efd :: int
  ci_new_fd :: int
  ci_event :: "int option"

definition fd_poll_del_and_close :: "epoll_ctl_info \<Rightarrow> kernel \<Rightarrow> (int \<times> kernel) res" where
  "fd_poll_del_and_close info k =
     (if ci_event info = None then Inl Assert_failed
      else (case epoll_ctl_del (ci_new_fd info) k of
              (r, k') \<Rightarrow> if r = -1 then Inr (-1, k') else Inr (0, close_call (ci_new_fd info) k')))"

definition fd_accept_and_epoll_add :: "epoll_ctl_info \<Rightarrow> kernel \<Rightarrow> (int \<times> kernel) res" where
  "fd_accept_and_epoll_add info k =
     (case accept_call k of
        (conn_sock, k') \<Rightarrow>
          if conn_sock = -1 then Inl Exit_failure
          else (case epoll_ctl_add conn_sock [EPOLLIN, EPOLLET] (fcntl_nonblock conn_sock k') of
                  (r, k'') \<Rightarrow> if r = -1 then Inl Exit_failure else Inr (conn_sock, k'')))"

section \<open>Registration\<close>

text \<open>A descriptor is registered at most once, and a closed one not at all.\<close>

definition registered :: "kernel \<Rightarrow> int set" where
  "registered k = fst ` set (k_interest k)"

definition k_inv :: "kernel \<Rightarrow> bool" where
  "k_inv k \<longleftrightarrow> distinct (map fst (k_interest k))"

lemma registered_put_out [simp]:
  "registered (put_out fd bs k) = registered k" "registered (set_rx fd rs k) = registered k"
  "registered (set_tx fd ts k) = registered k"
  by (simp_all add: registered_def)

lemma k_inv_frame [simp]:
  "k_inv (put_out fd bs k) = k_inv k" "k_inv (set_rx fd rs k) = k_inv k"
  "k_inv (set_tx fd ts k) = k_inv k"
  by (simp_all add: k_inv_def)

lemma fst_filter_registered:
  "fst ` set (filter (\<lambda>(fd', _). fd' \<noteq> fd) xs) = fst ` set xs - {fd}"
  by force

lemma distinct_fst_filter: "distinct (map fst xs) \<Longrightarrow> distinct (map fst (filter P xs))"
  by (induction xs) auto

lemma poll_del_and_close_ok:
  assumes "ci_event info \<noteq> None" and "ci_new_fd info \<in> registered k" and "k_ctl_fails k = []"
  shows "returns (fd_poll_del_and_close info k)
    (\<lambda>(r, k'). r = 0 \<and> registered k' = registered k - {ci_new_fd info} \<and>
       k_closed k' = ci_new_fd info # k_closed k \<and> k_out k' = k_out k \<and> k_rx k' = k_rx k \<and>
       k_tx k' = k_tx k \<and> k_ctl_fails k' = [] \<and> k_accept k' = k_accept k \<and> (k_inv k \<longrightarrow> k_inv k'))"
  using assms
  by (auto simp: fd_poll_del_and_close_def epoll_ctl_del_def ctl_resource_def close_call_def
      registered_def k_inv_def Let_def fst_filter_registered distinct_fst_filter)

lemma accept_and_add_ok:
  assumes "k_accept k = fd # fds" and "fd \<noteq> -1" and "fd \<notin> registered k" and "k_ctl_fails k = []"
  shows "returns (fd_accept_and_epoll_add info k)
    (\<lambda>(r, k'). r = fd \<and> registered k' = insert fd (registered k) \<and> k_accept k' = fds \<and>
       fd \<in> set (k_nonblock k') \<and> (fd, [EPOLLIN, EPOLLET]) \<in> set (k_interest k') \<and>
       k_out k' = k_out k \<and> k_rx k' = k_rx k \<and> k_tx k' = k_tx k \<and> k_ctl_fails k' = [] \<and>
       k_closed k' = k_closed k \<and> (k_inv k \<longrightarrow> k_inv k'))"
  using assms
  by (auto simp: fd_accept_and_epoll_add_def accept_call_def epoll_ctl_add_def ctl_resource_def
      fcntl_nonblock_def registered_def k_inv_def Let_def)

section \<open>Properties\<close>

lemma registered_cong: "k_interest k = k_interest k' \<Longrightarrow> registered k = registered k'"
  by (simp add: registered_def)

lemma ctl_resource_frame:
  "ctl_resource k = (f, k') \<Longrightarrow> k_interest k' = k_interest k \<and> k_closed k' = k_closed k \<and> k_nonblock k' = k_nonblock k"
  by (auto simp: ctl_resource_def split: list.splits)

text \<open>C31: in every state and however \<open>epoll_ctl\<close> and \<open>accept\<close> answer, the interest list never holds a
  descriptor twice; an accepted connection is new, non-blocking and registered; closing reports 0
  exactly when the descriptor was deregistered and closed, and -1 with nothing closed.\<close>

theorem epoll_registration_safe:
  assumes "k_inv k"
  shows "(\<forall>fd k'. fd_accept_and_epoll_add info k = Inr (fd, k') \<longrightarrow>
      k_inv k' \<and> fd \<notin> registered k \<and> registered k' = insert fd (registered k) \<and>
      fd \<in> set (k_nonblock k') \<and> k_closed k' = k_closed k) \<and>
    (\<forall>r k'. fd_poll_del_and_close info k = Inr (r, k') \<longrightarrow>
      k_inv k' \<and>
      (if r = 0 then ci_new_fd info \<in> registered k \<and> registered k' = registered k - {ci_new_fd info} \<and>
         k_closed k' = ci_new_fd info # k_closed k
       else r = -1 \<and> registered k' = registered k \<and> k_closed k' = k_closed k))"
proof (intro conjI allI impI)
  fix fd k' assume run: "fd_accept_and_epoll_add info k = Inr (fd, k')"
  obtain c k1 where acc: "accept_call k = (c, k1)" by fastforce
  have k1: "k_interest k1 = k_interest k" "k_closed k1 = k_closed k"
    using acc by (auto simp: accept_call_def split: list.splits)
  obtain f k2 where ctl: "ctl_resource (fcntl_nonblock c k1) = (f, k2)" by fastforce
  note k2 = ctl_resource_frame [OF ctl]
  have "k' = k2\<lparr>k_interest := (c, [EPOLLIN, EPOLLET]) # k_interest k2\<rparr>" "fd = c"
    "c \<notin> fst ` set (k_interest k2)"
    using run acc ctl by (auto simp: fd_accept_and_epoll_add_def epoll_ctl_add_def split: if_splits)
  then show "k_inv k'" "fd \<notin> registered k" "registered k' = insert fd (registered k)"
    "fd \<in> set (k_nonblock k')" "k_closed k' = k_closed k"
    using assms k1 k2 by (auto simp: k_inv_def registered_def fcntl_nonblock_def)
next
  fix r k' assume run: "fd_poll_del_and_close info k = Inr (r, k')"
  obtain f k2 where ctl: "ctl_resource k = (f, k2)" by fastforce
  note k2 = ctl_resource_frame [OF ctl]
  show "k_inv k'"
    "if r = 0 then ci_new_fd info \<in> registered k \<and> registered k' = registered k - {ci_new_fd info} \<and>
         k_closed k' = ci_new_fd info # k_closed k
       else r = -1 \<and> registered k' = registered k \<and> k_closed k' = k_closed k"
    using run assms k2
    by (auto simp: fd_poll_del_and_close_def epoll_ctl_del_def ctl k_inv_def registered_def close_call_def
        fst_filter_registered distinct_fst_filter split: if_splits)
qed

definition two_conns :: kernel where
  "two_conns = \<lparr>k_rx = (\<lambda>_. []), k_tx = (\<lambda>_. []), k_out = (\<lambda>_. []), k_accept = [9], k_ctl_fails = [False, True],
     k_interest = [(7, [EPOLLIN, EPOLLET]), (4, [EPOLLIN])], k_nonblock = [7], k_closed = []\<rparr>"

theorem epoll_registration_safe_witness:
  "(\<exists>k'. fd_accept_and_epoll_add \<lparr>ci_efd = 5, ci_new_fd = 4, ci_event = Some 4\<rparr> two_conns = Inr (9, k') \<and>
      k_inv k' \<and> registered k' = {9, 7, 4})"
proof -
  let ?i = "\<lparr>ci_efd = 5, ci_new_fd = 4, ci_event = Some 4\<rparr>"
  obtain k' where run: "fd_accept_and_epoll_add ?i two_conns = Inr (9, k')"
    by (simp add: fd_accept_and_epoll_add_def two_conns_def accept_call_def epoll_ctl_add_def
        ctl_resource_def fcntl_nonblock_def)
  have "k_inv two_conns" and reg: "registered two_conns = {7, 4}"
    by (simp_all add: k_inv_def registered_def two_conns_def)
  from epoll_registration_safe [OF this(1), of ?i, THEN conjunct1, rule_format, OF run] reg
  have "k_inv k'" and "registered k' = {9, 7, 4}" by simp_all
  with run show ?thesis by blast
qed

text \<open>Accepting a connection and dropping it again leaves the set of registered descriptors as it was, with
  the connection's descriptor closed, so that descriptors do not leak.\<close>

lemma accept_drop_roundtrip:
  assumes "k_accept k = fd # fds" and "fd \<noteq> -1" and "fd \<notin> registered k" and "k_ctl_fails k = []"
  shows "returns (rbind (fd_accept_and_epoll_add info k)
      (\<lambda>(fd', k1). fd_poll_del_and_close (info\<lparr>ci_new_fd := fd', ci_event := Some fd'\<rparr>) k1))
    (\<lambda>(r, k2). r = 0 \<and> registered k2 = registered k \<and> k_closed k2 = fd # k_closed k \<and> k_accept k2 = fds)"
proof (rule returns_bindI [OF accept_and_add_ok [OF assms]])
  fix x
  assume post: "case x of (r, k') \<Rightarrow> r = fd \<and> registered k' = insert fd (registered k) \<and> k_accept k' = fds \<and>
       fd \<in> set (k_nonblock k') \<and> (fd, [EPOLLIN, EPOLLET]) \<in> set (k_interest k') \<and>
       k_out k' = k_out k \<and> k_rx k' = k_rx k \<and> k_tx k' = k_tx k \<and> k_ctl_fails k' = [] \<and>
       k_closed k' = k_closed k \<and> (k_inv k \<longrightarrow> k_inv k')"
  obtain k1 where x: "x = (fd, k1)"
    using post by (cases x) auto
  show "returns (case x of (fd', k1) \<Rightarrow> fd_poll_del_and_close (info\<lparr>ci_new_fd := fd', ci_event := Some fd'\<rparr>) k1)
    (\<lambda>(r, k2). r = 0 \<and> registered k2 = registered k \<and> k_closed k2 = fd # k_closed k \<and> k_accept k2 = fds)"
    using poll_del_and_close_ok [of "info\<lparr>ci_new_fd := fd, ci_event := Some fd\<rparr>" k1] post assms(3)
    by (auto simp: x returns_iff)
qed

end
