(* ===== verification/Queue.thy ===== *)
theory Queue
  imports Prelude
begin

text \<open>
  The byte queue of \<open>utils/queue.c\<close>: a growing buffer with a write pointer. The buffer is
  the byte list \<open>q_data\<close> (its length is what the allocator returned), the pointer
  \<open>head\<close> its offset \<open>q_head\<close> from \<open>data\<close>. Sizes are \<open>size_t\<close> words. A null \<open>data\<close> is the empty list.

  The growth test \<open>(size_t)((double)x * 0.8)\<close> is modelled as IEEE-754 binary64 arithmetic and
  proved to be \<open>4 * x div 5\<close> below \<open>2 ^ 50\<close>. The growth loop has fuel 65: after 64 doublings
  \<open>new_cap\<close> has wrapped to 0 and never changes again, so a loop that has not
  stopped by then never stops.
\<close>

section \<open>The 80 percent test\<close>

text \<open>
  Round a natural number to 53 significant bits, to nearest, ties to even: the
  significand rounding of binary64 (no product here under- or overflows its exponent).
\<close>

definition bit_length :: "nat \<Rightarrow> nat" where
  "bit_length n = length (takeWhile (\<lambda>k. 2 ^ k \<le> n) [0..<128])"

definition round_half_even :: "nat \<Rightarrow> nat \<Rightarrow> nat" where
  "round_half_even n k =
     (let q = n div 2 ^ k; r = n mod 2 ^ k in
      if 2 * r < 2 ^ k then q else if 2 ^ k < 2 * r then q + 1 else if even q then q else q + 1)"

definition round53 :: "nat \<Rightarrow> nat" where
  "round53 n =
     (let k = bit_length n - 53 in if k = 0 then n else round_half_even n k * 2 ^ k)"

text \<open>
  The double nearest to 0.8 is \<open>7205759403792794 / 2 ^ 53\<close>. Conversion to \<open>double\<close>,
  product and truncation to \<open>size_t\<close>:
\<close>

definition fraction_0_8 :: nat where
  "fraction_0_8 = 7205759403792794"

definition cap_buffer :: "size_t \<Rightarrow> size_t" where
  "cap_buffer x = of_nat (round53 (round53 (unat x) * fraction_0_8) div 2 ^ 53)"

section \<open>State and operations\<close>

record queue =
  q_data :: "char list"
  q_capacity :: size_t
  q_size :: size_t
  q_free :: size_t
  q_head :: nat

definition queue_init_data :: "allocator \<Rightarrow> queue \<Rightarrow> size_t \<Rightarrow> queue res" where
  "queue_init_data al q capacity =
     (if capacity = 0 then Inr q
      else if q_capacity q > capacity then Inr q
      else (case al (unat capacity) of
        None \<Rightarrow> Inl Assert_failed
      | Some junk \<Rightarrow>
          Inr (q\<lparr>q_data := realloc_bytes junk (q_data q) (unat capacity),
                 q_capacity := capacity,
                 q_free := capacity - q_size q,
                 q_head := unat (q_size q)\<rparr>)))"

text \<open>The loop of \<open>queue_expand_capacity\<close>: double until the data fits below 80 percent.\<close>

fun grow_loop :: "nat \<Rightarrow> size_t \<Rightarrow> size_t \<Rightarrow> size_t \<Rightarrow> size_t res" where
  "grow_loop 0 need sz new_cap = Inl Diverges"
| "grow_loop (Suc fuel) need sz new_cap =
     (if need \<ge> cap_buffer (new_cap - sz)
      then grow_loop fuel need sz (new_cap * 2)
      else Inr new_cap)"

definition queue_expand_capacity :: "allocator \<Rightarrow> queue \<Rightarrow> size_t \<Rightarrow> queue res" where
  "queue_expand_capacity al q sz =
     (if sz = 0 then Inr q
      else if q_size q + sz < cap_buffer (q_free q) then Inr q
      else rbind (grow_loop 65 (q_size q + sz) (q_size q) (q_capacity q * 2))
             (\<lambda>new_cap. queue_init_data al q new_cap))"

text \<open>
  \<open>queue_init\<close> on \<open>*qu\<close>: an allocated queue is kept (an error is logged). The
  assertion after \<open>malloc\<close> tests \<open>qu\<close>, not \<open>*qu\<close>, so a failed \<open>malloc\<close> is
  dereferenced. \<open>sizeof (struct queue)\<close> is 40.
\<close>

definition queue_init :: "allocator \<Rightarrow> queue option \<Rightarrow> size_t \<Rightarrow> queue option res" where
  "queue_init al qu capacity =
     (case qu of
        Some q \<Rightarrow> Inr (Some q)
      | None \<Rightarrow>
          if \<not> capacity > 0 then Inl Assert_failed
          else (case al 40 of
            None \<Rightarrow> Inl Null_deref
          | Some _ \<Rightarrow>
              rbind (queue_init_data al
                       \<lparr>q_data = [], q_capacity = 0, q_size = 0, q_free = 0, q_head = 0\<rparr> capacity)
                (\<lambda>q. Inr (Some q))))"

definition queue_free :: "queue option \<Rightarrow> queue option" where
  "queue_free qu = (case qu of None \<Rightarrow> None | Some _ \<Rightarrow> None)"

text \<open>
  \<open>queue_push q data size\<close>; \<open>data\<close> is the memory the source pointer points into.
\<close>

definition queue_push :: "allocator \<Rightarrow> queue \<Rightarrow> char list \<Rightarrow> size_t \<Rightarrow> queue res" where
  "queue_push al q data sz =
     (if sz = 0 then Inr q
      else rbind (if q_size q + sz \<ge> cap_buffer (q_free q)
                  then queue_expand_capacity al q sz else Inr q)
        (\<lambda>q. rbind (peek data 0 (unat sz))
        (\<lambda>bs. rbind (poke (q_data q) (q_head q) bs)
        (\<lambda>d. Inr (q\<lparr>q_data := d, q_head := q_head q + unat sz,
                    q_size := q_size q + sz,
                    q_free := q_capacity q - (q_size q + sz)\<rparr>)))))"

definition queue_push_ex :: "allocator \<Rightarrow> queue \<Rightarrow> size_t \<Rightarrow> queue res" where
  "queue_push_ex al q sz =
     (if sz = 0 then Inr q
      else rbind (if q_size q + sz \<ge> cap_buffer (q_free q)
                  then queue_expand_capacity al q sz else Inr q)
        (\<lambda>q. Inr (q\<lparr>q_head := q_head q + unat sz,
                    q_size := q_size q + sz,
                    q_free := q_capacity q - (q_size q + sz)\<rparr>)))"

definition queue_reset :: "queue \<Rightarrow> queue" where
  "queue_reset q = q\<lparr>q_size := 0, q_head := 0, q_free := q_capacity q\<rparr>"

text \<open>
  \<open>queue_pop q data size\<close>: the storage and its size, updated when the pop takes place.
\<close>

definition queue_pop :: "queue \<Rightarrow> char list \<Rightarrow> size_t \<Rightarrow> (queue \<times> char list \<times> size_t) res" where
  "queue_pop q data sz =
     (if q_size q = 0 then Inr (q, data, sz)
      else if q_size q > sz then Inr (q, data, sz)
      else rbind (peek (q_data q) 0 (unat (q_size q)))
        (\<lambda>bs. rbind (poke data 0 bs)
        (\<lambda>data'. Inr (q\<lparr>q_size := 0, q_head := 0, q_free := q_capacity q\<rparr>, data', q_size q))))"

text \<open>
  \<open>queue_pop_no_copy\<close> and \<open>queue_peek\<close> hand out the pointer \<open>qu->data\<close>, modelled as the
  memory it points into (the whole buffer), or \<open>None\<close> where \<open>*data\<close> is not written.
\<close>

definition queue_pop_no_copy :: "queue \<Rightarrow> int \<times> char list option \<times> queue" where
  "queue_pop_no_copy q =
     (if q_size q = 0 then (0, None, q)
      else (int_of_size (q_size q), Some (q_data q),
            q\<lparr>q_size := 0, q_head := 0, q_free := q_capacity q\<rparr>))"

definition queue_peek :: "queue \<Rightarrow> int \<times> char list option" where
  "queue_peek q =
     (if q_size q = 0 then (0, None) else (int_of_size (q_size q), Some (q_data q)))"

definition queue_empty :: "queue \<Rightarrow> bool" where
  "queue_empty q \<longleftrightarrow> q_size q > 0"

section \<open>The 80 percent test is exact below 2 ^ 50\<close>

lemma bit_length_lower: "bit_length n = Suc m \<Longrightarrow> 2 ^ m \<le> n"
proof -
  assume bl: "bit_length n = Suc m"
  let ?xs = "takeWhile (\<lambda>k. 2 ^ k \<le> n) [0..<128]"
  have len: "m < length ?xs"
    using bl by (simp add: bit_length_def)
  then have "?xs ! m \<in> set ?xs" by (rule nth_mem)
  then have "2 ^ (?xs ! m) \<le> n" by (rule set_takeWhileD [THEN conjunct2])
  moreover have "m < 128"
    using len length_takeWhile_le [of "\<lambda>k. 2 ^ k \<le> n" "[0..<128]"] by simp
  then have "?xs ! m = m"
    using len by (simp add: takeWhile_nth)
  ultimately show ?thesis by simp
qed

lemma bit_length_le: "n < 2 ^ b \<Longrightarrow> bit_length n \<le> b"
proof (rule ccontr)
  assume small: "n < 2 ^ b" and "\<not> bit_length n \<le> b"
  then obtain m where m: "bit_length n = Suc m" "b \<le> m"
    by (cases "bit_length n") auto
  have "(2::nat) ^ b \<le> 2 ^ m" using m(2) by (simp add: power_increasing)
  with bit_length_lower [OF m(1)] small show False by linarith
qed

lemma round_half_even_upper: "2 * (round_half_even n k * 2 ^ k) \<le> 2 * n + 2 ^ k"
proof -
  let ?d = "2 ^ k :: nat"
  have n: "n = n div ?d * ?d + n mod ?d"
    by (rule div_mult_mod_eq [symmetric])
  show ?thesis
  proof (cases "round_half_even n k = n div ?d")
    case True
    show ?thesis unfolding True using div_times_less_eq_dividend [of n ?d] by linarith
  next
    case False
    then have "round_half_even n k = n div ?d + 1" and "?d \<le> 2 * (n mod ?d)"
      by (auto simp: round_half_even_def Let_def split: if_splits)
    then have "2 * (round_half_even n k * ?d) = 2 * (n div ?d * ?d) + 2 * ?d"
      by (simp add: algebra_simps)
    also have "\<dots> \<le> 2 * (n div ?d * ?d) + 2 * (n mod ?d) + ?d"
      using \<open>?d \<le> 2 * (n mod ?d)\<close> by linarith
    finally show ?thesis using n by linarith
  qed
qed

lemma round_half_even_lower: "c * 2 ^ k \<le> n \<Longrightarrow> c * 2 ^ k \<le> round_half_even n k * 2 ^ k"
proof -
  assume "c * 2 ^ k \<le> n"
  then have "c \<le> n div 2 ^ k" by (simp add: less_eq_div_iff_mult_less_eq)
  also have "\<dots> \<le> round_half_even n k"
    by (simp add: round_half_even_def Let_def)
  finally show ?thesis by simp
qed

lemma round53_exact: "n < 2 ^ 53 \<Longrightarrow> round53 n = n"
  using bit_length_le [of n 53] by (simp add: round53_def)

lemma round53_bounds:
  assumes "n < 2 ^ 103"
  shows "2 * round53 n \<le> 2 * n + 2 ^ 50" and "c * 2 ^ 53 \<le> n \<Longrightarrow> c * 2 ^ 53 \<le> round53 n"
proof -
  define k where "k = bit_length n - 53"
  have k: "k \<le> 50" using bit_length_le [OF assms] by (simp add: k_def)
  have pow: "(2::nat) ^ k \<le> 2 ^ 50" using k by (intro power_increasing) auto
  show "2 * round53 n \<le> 2 * n + 2 ^ 50"
    using round_half_even_upper [of n k] pow by (simp add: round53_def Let_def k_def)
  assume c: "c * 2 ^ 53 \<le> n"
  have eq: "c * 2 ^ 53 = (c * 2 ^ (53 - k)) * 2 ^ k"
    using k by (simp add: mult.assoc flip: power_add)
  have r: "round53 n = (if k = 0 then n else round_half_even n k * 2 ^ k)"
    by (simp add: round53_def Let_def k_def)
  show "c * 2 ^ 53 \<le> round53 n"
  proof (cases "k = 0")
    case True
    with c show ?thesis by (simp add: r)
  next
    case False
    from c have "c * 2 ^ (53 - k) * 2 ^ k \<le> round_half_even n k * 2 ^ k"
      unfolding eq by (rule round_half_even_lower)
    with False show ?thesis unfolding eq r by simp
  qed
qed

lemma unat_cap_buffer:
  assumes "unat x < 2 ^ 50"
  shows "unat (cap_buffer x) = 4 * unat x div 5"
proof -
  define n where "n = unat x * fraction_0_8"
  have x: "round53 (unat x) = unat x"
    using assms by (intro round53_exact) simp
  have five: "5 * n = 4 * (unat x * 2 ^ 53) + 2 * unat x"
    by (simp add: n_def fraction_0_8_def)
  have "n < 2 ^ 103"
    using assms five by simp
  note b = round53_bounds [OF this]
  have lo: "4 * unat x div 5 * 2 ^ 53 \<le> round53 n"
    using five by (intro b(2)) simp
  have hi: "round53 n < (4 * unat x div 5 + 1) * 2 ^ 53"
    using b(1) five assms by simp
  have "round53 n div 2 ^ 53 = 4 * unat x div 5"
    using lo hi by simp
  moreover have "4 * unat x div 5 < 2 ^ 64"
    using assms by simp
  ultimately show ?thesis
    by (simp add: cap_buffer_def x unat_of_nat flip: n_def)
qed

section \<open>Invariant and contents\<close>

text \<open>
  \<open>free_capacity\<close> and \<open>head\<close> are determined by the size, and a queue is never full: two
  bytes are always spare, which is what \<open>sendall\<close> reads past the end of a message. \<open>q_bytes\<close> is what the queue holds.
\<close>

definition q_inv :: "queue \<Rightarrow> bool" where
  "q_inv q \<longleftrightarrow>
     length (q_data q) = unat (q_capacity q) \<and>
     unat (q_size q) + 2 \<le> unat (q_capacity q) \<and>
     q_free q = q_capacity q - q_size q \<and>
     q_head q = unat (q_size q) \<and>
     unat (q_capacity q) \<le> 2 ^ 48"

definition q_bytes :: "queue \<Rightarrow> char list" where
  "q_bytes q = take (unat (q_size q)) (q_data q)"

lemma q_inv_length: "q_inv q \<Longrightarrow> length (q_bytes q) = unat (q_size q)"
  by (simp add: q_inv_def q_bytes_def)

lemma q_inv_free: "q_inv q \<Longrightarrow> unat (q_free q) = unat (q_capacity q) - unat (q_size q)"
  by (simp add: q_inv_def unat_diff_small)

lemma q_inv_free_pos: "q_inv q \<Longrightarrow> 0 < unat (q_free q)"
  by (simp add: q_inv_free) (simp add: q_inv_def)

text \<open>
  The growth loop stops. Its result is the least doubling of the start of which 80 percent of the free part is above
  the need, at most \<open>6 * need + 6\<close> or the start itself.
\<close>

definition fits :: "nat \<Rightarrow> nat \<Rightarrow> nat \<Rightarrow> bool" where
  "fits need sz cap \<longleftrightarrow> need < 4 * (cap - sz) div 5"

definition least_doubling :: "nat \<Rightarrow> nat \<Rightarrow> nat \<Rightarrow> nat \<Rightarrow> bool" where
  "least_doubling need sz cap cap' \<longleftrightarrow>
     (\<exists>k. cap' = cap * 2 ^ k \<and> fits need sz cap' \<and> (\<forall>i < k. \<not> fits need sz (cap * 2 ^ i)))"

lemma least_doubling_stop: "fits need sz cap \<Longrightarrow> least_doubling need sz cap cap"
  unfolding least_doubling_def by (intro exI [of _ 0]) simp

lemma least_doubling_next:
  assumes "\<not> fits need sz cap" and "least_doubling need sz (2 * cap) cap'"
  shows "least_doubling need sz cap cap'"
proof -
  obtain k where k: "cap' = 2 * cap * 2 ^ k" "fits need sz cap'" "\<forall>i < k. \<not> fits need sz (2 * cap * 2 ^ i)"
    using assms(2) unfolding least_doubling_def by blast
  have "\<not> fits need sz (cap * 2 ^ i)" if "i < Suc k" for i
    using that assms(1) k(3) by (cases i) (simp_all add: mult.assoc mult.left_commute)
  with k(1,2) show ?thesis unfolding least_doubling_def by (intro exI [of _ "Suc k"]) simp
qed

lemma growth_test:
  assumes "unat sz < unat nc" and "unat nc \<le> 2 ^ 49"
  shows "need \<ge> cap_buffer (nc - sz) \<longleftrightarrow> \<not> fits (unat need) (unat sz) (unat nc)"
proof -
  have "unat (nc - sz) = unat nc - unat sz"
    using assms(1) by (simp add: unat_diff_small)
  then have "unat (cap_buffer (nc - sz)) = 4 * (unat nc - unat sz) div 5"
    using assms(2) by (subst unat_cap_buffer) simp_all
  then show ?thesis by (simp add: fits_def word_le_nat_alt not_less)
qed

lemma grow_loop_returns:
  assumes "unat sz \<le> unat need" and "unat need \<le> 2 ^ 40"
    and "unat sz < unat nc" and "unat nc \<le> 2 ^ 49"
    and "3 * unat need + 3 \<le> unat nc * 2 ^ fuel"
  shows "returns (grow_loop (Suc fuel) need sz nc)
    (\<lambda>nc'. least_doubling (unat need) (unat sz) (unat nc) (unat nc') \<and> unat nc \<le> unat nc' \<and>
           unat nc' \<le> max (unat nc) (6 * unat need + 6))"
  using assms(3-5)
proof (induction fuel arbitrary: nc)
  case (0 nc)
  then have "fits (unat need) (unat sz) (unat nc)"
    using assms(1) by (simp add: fits_def)
  then show ?case
    using growth_test [OF "0.prems"(1,2), of need] by (simp add: least_doubling_stop)
next
  case (Suc fuel nc)
  note test = growth_test [OF Suc.prems(1,2), of need]
  show ?case
  proof (cases "fits (unat need) (unat sz) (unat nc)")
    case True
    with test show ?thesis by (simp add: least_doubling_stop)
  next
    case False
    then have small: "unat nc < 3 * unat need + 3"
      using assms(1) unfolding fits_def by linarith
    have dbl: "unat (nc * 2) = 2 * unat nc"
      using Suc.prems(2) by (intro unat_double_small) simp
    have "returns (grow_loop (Suc fuel) need sz (nc * 2))
      (\<lambda>nc'. least_doubling (unat need) (unat sz) (unat (nc * 2)) (unat nc') \<and> unat (nc * 2) \<le> unat nc' \<and>
             unat nc' \<le> max (unat (nc * 2)) (6 * unat need + 6))"
    proof (rule Suc.IH)
      show "unat sz < unat (nc * 2)" using Suc.prems(1) dbl by simp
      show "unat (nc * 2) \<le> 2 ^ 49" using small assms(2) dbl by simp
      show "3 * unat need + 3 \<le> unat (nc * 2) * 2 ^ fuel" using Suc.prems(3) dbl by simp
    qed
    then have "returns (grow_loop (Suc fuel) need sz (nc * 2))
      (\<lambda>nc'. least_doubling (unat need) (unat sz) (unat nc) (unat nc') \<and> unat nc \<le> unat nc' \<and>
             unat nc' \<le> max (unat nc) (6 * unat need + 6))"
      by (rule returns_mono) (use False small dbl least_doubling_next in auto)
    then show ?thesis using False test by simp
  qed
qed

lemma queue_init_data_grows:
  assumes "alloc_ok al" and "unat (q_capacity q) \<le> unat cap" and "0 < unat cap"
    and "unat (q_size q) + 2 \<le> unat cap" and "unat cap \<le> 2 ^ 48"
    and "length (q_data q) = unat (q_capacity q)"
  shows "returns (queue_init_data al q cap)
    (\<lambda>q'. q_inv q' \<and> q_size q' = q_size q \<and> q_capacity q' = cap \<and>
          take (unat (q_capacity q)) (q_data q') = q_data q)"
proof -
  obtain junk where "al (unat cap) = Some junk"
    using assms(1) by (rule alloc_okE)
  moreover have "cap \<noteq> 0" "\<not> q_capacity q > cap"
    using assms(2,3) by (auto simp: word_less_nat_alt)
  ultimately show ?thesis
    using assms by (simp add: queue_init_data_def q_inv_def take_realloc_bytes)
qed

text \<open>What the growth step of a push guarantees before the bytes are written.\<close>

definition has_room :: "queue \<Rightarrow> size_t \<Rightarrow> queue \<Rightarrow> bool" where
  "has_room q sz q' \<longleftrightarrow>
     q_inv q' \<and> q_size q' = q_size q \<and>
     take (unat (q_capacity q)) (q_data q') = q_data q \<and>
     unat (q_size q) + unat sz < 4 * (unat (q_capacity q') - unat (q_size q)) div 5 \<and>
     unat (q_capacity q) \<le> unat (q_capacity q') \<and>
     unat (q_capacity q') \<le> max (unat (q_capacity q)) (6 * (unat (q_size q) + unat sz) + 6)"

lemma unat_cap_buffer_free:
  assumes "q_inv q"
  shows "unat (cap_buffer (q_free q)) = 4 * (unat (q_capacity q) - unat (q_size q)) div 5"
proof -
  have "unat (q_capacity q) \<le> 2 ^ 48"
    using assms by (simp add: q_inv_def)
  then have "unat (q_free q) < 2 ^ 50"
    using q_inv_free [OF assms] by simp
  then show ?thesis
    using q_inv_free [OF assms] by (simp add: unat_cap_buffer)
qed

lemma full_capacity_bound:
  fixes c s n :: nat
  assumes "4 * (c - s) div 5 \<le> n" and "s < c" and "s \<le> n"
  shows "2 * c \<le> 6 * n + 6"
proof -
  obtain d where c: "c = s + d"
    using assms(2) less_imp_add_positive by blast
  have "4 * d div 5 \<le> n"
    using assms(1) by (simp add: c)
  then have "4 * d < 5 * n + 5"
    by linarith
  then show ?thesis
    using assms(3) c by simp
qed

lemma queue_expand_capacity_least:
  assumes "q_inv q" and "alloc_ok al" and "sz \<noteq> 0" and "unat (q_size q) + unat sz \<le> 2 ^ 40"
  shows "returns (queue_expand_capacity al q sz) (\<lambda>q'. has_room q sz q' \<and>
    least_doubling (unat (q_size q) + unat sz) (unat (q_size q)) (unat (q_capacity q)) (unat (q_capacity q')))"
proof -
  let ?S = "unat (q_size q)" and ?C = "unat (q_capacity q)" and ?N = "unat (q_size q) + unat sz"
  have need: "unat (q_size q + sz) = ?N"
    using assms(4) by (intro unat_add_small) simp
  have inv: "length (q_data q) = ?C" "?S < ?C" "?C \<le> 2 ^ 48"
    using assms(1) by (simp_all add: q_inv_def)
  have test: "q_size q + sz < cap_buffer (q_free q) \<longleftrightarrow> fits ?N ?S ?C"
    using need assms(1) by (simp add: fits_def word_less_nat_alt unat_cap_buffer_free)
  show ?thesis
  proof (cases "fits ?N ?S ?C")
    case True
    then show ?thesis
      using assms inv test
      by (simp add: queue_expand_capacity_def has_room_def least_doubling_stop) (simp add: fits_def)
  next
    case False
    have dbl: "unat (q_capacity q * 2) = 2 * ?C"
      using inv(3) by (intro unat_double_small) simp
    have "returns (grow_loop (Suc 64) (q_size q + sz) (q_size q) (q_capacity q * 2))
      (\<lambda>nc'. least_doubling (unat (q_size q + sz)) ?S (unat (q_capacity q * 2)) (unat nc') \<and>
             unat (q_capacity q * 2) \<le> unat nc' \<and>
             unat nc' \<le> max (unat (q_capacity q * 2)) (6 * unat (q_size q + sz) + 6))"
      using inv assms(4) by (intro grow_loop_returns) (simp_all add: need dbl)
    then obtain nc where
      "grow_loop (Suc 64) (q_size q + sz) (q_size q) (q_capacity q * 2) = Inr nc"
      and least: "least_doubling ?N ?S (2 * ?C) (unat nc)" and ge: "2 * ?C \<le> unat nc"
      and le: "unat nc \<le> max (2 * ?C) (6 * ?N + 6)"
      unfolding returns_iff need dbl by blast
    then have nc: "grow_loop 65 (q_size q + sz) (q_size q) (q_capacity q * 2) = Inr nc"
      by (simp only: Suc_numeral semiring_norm)
    have "2 * ?C \<le> 6 * ?N + 6"
      using False inv(2) unfolding fits_def not_less by (rule full_capacity_bound) simp
    then have le': "unat nc \<le> 6 * ?N + 6" using le by simp
    have room: "fits ?N ?S (unat nc)" using least by (auto simp: least_doubling_def)
    have "returns (queue_init_data al q nc)
      (\<lambda>q'. q_inv q' \<and> q_size q' = q_size q \<and> q_capacity q' = nc \<and> take ?C (q_data q') = q_data q)"
      using ge inv le' assms(2,4) by (intro queue_init_data_grows) simp_all
    then have "returns (queue_init_data al q nc)
      (\<lambda>q'. has_room q sz q' \<and> least_doubling ?N ?S ?C (unat (q_capacity q')))"
      by (rule returns_mono)
        (use room ge le' least_doubling_next [OF False least] in \<open>auto simp: has_room_def fits_def\<close>)
    then show ?thesis
      using False test assms(3) nc by (simp add: queue_expand_capacity_def)
  qed
qed

lemma queue_expand_capacity_room:
  assumes "q_inv q" and "alloc_ok al" and "sz \<noteq> 0" and "unat (q_size q) + unat sz \<le> 2 ^ 40"
  shows "returns (queue_expand_capacity al q sz) (has_room q sz)"
  using queue_expand_capacity_least [OF assms] by (rule returns_mono) simp

lemma push_makes_room:
  assumes "q_inv q" and "alloc_ok al" and "sz \<noteq> 0" and "unat (q_size q) + unat sz \<le> 2 ^ 40"
  shows "returns (if q_size q + sz \<ge> cap_buffer (q_free q)
                  then queue_expand_capacity al q sz else Inr q) (has_room q sz)"
proof (cases "q_size q + sz \<ge> cap_buffer (q_free q)")
  case True
  with queue_expand_capacity_room [OF assms] show ?thesis by simp
next
  case False
  have "unat (q_size q + sz) = unat (q_size q) + unat sz"
    using assms(4) by (intro unat_add_small) simp
  with False assms(1) show ?thesis
    by (simp add: has_room_def word_le_nat_alt unat_cap_buffer_free) (simp add: q_inv_def)
qed

section \<open>Operations on a well-formed queue\<close>

text \<open>After growing, \<open>n\<close> more bytes still leave two spare bytes in the buffer.\<close>

lemma has_room_fits:
  assumes "has_room q sz q'" and "sz \<noteq> 0"
  shows "unat (q_size q) + unat sz + 2 \<le> unat (q_capacity q')"
proof -
  have "0 < unat sz" using assms(2) by (simp add: unat_gt_0)
  moreover have "unat (q_size q) + unat sz < 4 * (unat (q_capacity q') - unat (q_size q)) div 5"
    using assms(1) by (simp add: has_room_def)
  ultimately show ?thesis by simp
qed

lemma q_bytes_record [queue_simps]:
  "q_bytes (q\<lparr>q_data := d, q_head := h, q_size := n, q_free := f\<rparr>) = take (unat n) d"
  by (simp add: q_bytes_def)

definition q_grown :: "queue \<Rightarrow> nat \<Rightarrow> queue \<Rightarrow> bool" where
  "q_grown q n q' \<longleftrightarrow>
     unat (q_size q') + 2 \<le> unat (q_capacity q') \<and>
     unat (q_capacity q) \<le> unat (q_capacity q') \<and>
     unat (q_capacity q') \<le> max (unat (q_capacity q)) (6 * n + 6)"

lemma queue_push_ok:
  assumes "q_inv q" and "alloc_ok al" and "unat (q_size q) + unat sz \<le> 2 ^ 40"
    and "unat sz \<le> length data" and "sz \<noteq> 0"
  shows "returns (queue_push al q data sz)
    (\<lambda>q'. q_inv q' \<and> q_bytes q' = q_bytes q @ take (unat sz) data \<and>
          q_grown q (unat (q_size q) + unat sz) q')"
proof -
  obtain r where r: "(if q_size q + sz \<ge> cap_buffer (q_free q)
                  then queue_expand_capacity al q sz else Inr q) = Inr r"
    and room: "has_room q sz r"
    using push_makes_room [OF assms(1,2,5,3)] by (auto simp: returns_iff)
  note fits = has_room_fits [OF room assms(5)]
  have ri: "length (q_data r) = unat (q_capacity r)" "q_head r = unat (q_size q)"
    "unat (q_capacity r) \<le> 2 ^ 48" "q_size r = q_size q"
    using room by (simp_all add: has_room_def q_inv_def)
  have need: "unat (q_size q + sz) = unat (q_size q) + unat sz"
    using assms(3) by (intro unat_add_small) simp
  have fit: "q_head r + length (take (unat sz) data) \<le> length (q_data r)"
    using fits ri assms(4) by simp
  have "take (unat (q_size q)) (q_data r)
      = take (unat (q_size q)) (take (unat (q_capacity q)) (q_data r))"
    using assms(1) by (simp add: q_inv_def min_def)
  also have "\<dots> = q_bytes q"
    using room by (simp add: has_room_def q_bytes_def)
  finally have keep: "take (unat (q_size q)) (q_data r) = q_bytes q" .
  let ?d = "take (unat (q_size q)) (q_data r) @ take (unat sz) data @
    drop (unat (q_size q) + unat sz) (q_data r)"
  let ?q = "r\<lparr>q_data := ?d, q_head := q_head r + unat sz, q_size := q_size r + sz,
    q_free := q_capacity r - (q_size r + sz)\<rparr>"
  have "queue_push al q data sz = Inr ?q"
    using assms(4,5) fit ri by (simp add: queue_push_def r peek_in poke_in)
  moreover have "q_inv ?q"
    using fits ri need assms(4) by (simp add: q_inv_def)
  moreover have "q_bytes ?q = q_bytes q @ take (unat sz) data"
    using fits ri need assms(4) keep q_inv_length [OF assms(1)] by (simp add: queue_simps)
  moreover have "q_grown q (unat (q_size q) + unat sz) ?q"
    using fits ri need room by (simp add: q_grown_def has_room_def)
  ultimately show ?thesis by simp
qed

lemma queue_push_zero: "queue_push al q data 0 = Inr q"
  by (simp add: queue_push_def)

lemma slack_after_push:
  fixes s n c :: nat
  assumes "s + n < 4 * (c - s) div 5" and "s + n + 2 \<le> c"
  shows "9 * (s + n) < 4 * c + 4 * n"
proof -
  obtain d where c: "c = s + d" using assms(2) by (metis add_leD1 le_add1 le_Suc_ex)
  have "s + n < 4 * d div 5" using assms(1) by (simp add: c)
  then have "5 * s + 5 * n < 4 * d" by linarith
  then show ?thesis by (simp add: c)
qed

text \<open>
  \<open>queue_push_ex\<close> claims bytes already written at \<open>head\<close>. Afterwards more than half of the
  buffer is free, up to the claimed bytes.
\<close>

lemma queue_push_ex_ok:
  assumes "q_inv q" and "alloc_ok al" and "unat (q_size q) + unat sz \<le> 2 ^ 40"
    and "unat sz \<le> unat (q_free q)" and "sz \<noteq> 0"
  shows "returns (queue_push_ex al q sz)
    (\<lambda>q'. q_inv q' \<and> unat (q_size q') = unat (q_size q) + unat sz \<and>
          take (unat (q_capacity q)) (q_data q') = q_data q \<and>
          q_bytes q' = take (unat (q_size q) + unat sz) (q_data q) \<and>
          q_grown q (unat (q_size q) + unat sz) q' \<and>
          9 * unat (q_size q') < 4 * unat (q_capacity q') + 4 * unat sz)"
proof -
  obtain r where r: "(if q_size q + sz \<ge> cap_buffer (q_free q)
                  then queue_expand_capacity al q sz else Inr q) = Inr r"
    and room: "has_room q sz r"
    using push_makes_room [OF assms(1,2,5,3)] by (auto simp: returns_iff)
  note fits = has_room_fits [OF room assms(5)]
  have need: "unat (q_size q + sz) = unat (q_size q) + unat sz"
    using assms(3) by (intro unat_add_small) simp
  have le: "unat (q_size q) + unat sz \<le> unat (q_capacity q)"
  proof -
    have "unat (q_size q) < unat (q_capacity q)"
      using assms(1) by (simp add: q_inv_def)
    then show ?thesis
      using assms(4) q_inv_free [OF assms(1)] by linarith
  qed
  have data: "take (unat (q_capacity q)) (q_data r) = q_data q"
    using room by (simp add: has_room_def)
  have "take (unat (q_size q) + unat sz) (q_data r)
      = take (unat (q_size q) + unat sz) (take (unat (q_capacity q)) (q_data r))"
    using le by (simp add: min_def)
  then have "take (unat (q_size q) + unat sz) (q_data r) = take (unat (q_size q) + unat sz) (q_data q)"
    unfolding data .
  moreover have "9 * (unat (q_size q) + unat sz) < 4 * unat (q_capacity r) + 4 * unat sz"
    using fits room by (intro slack_after_push) (simp_all add: has_room_def)
  ultimately show ?thesis
    using assms(5) fits need room data
    by (simp add: queue_push_ex_def r q_inv_def q_bytes_def q_grown_def has_room_def)
qed

lemma queue_reset_ok: "q_inv q \<Longrightarrow> q_inv (queue_reset q) \<and> q_bytes (queue_reset q) = []"
  by (simp add: queue_reset_def q_inv_def q_bytes_def)

text \<open>Popping hands out the buffer; its first bytes are what was pushed, the rest is slack.\<close>

lemma queue_pop_no_copy_ok:
  assumes "q_inv q" and "unat (q_size q) < 2 ^ 31" and "q_bytes q \<noteq> []"
  shows "queue_pop_no_copy q = (int (length (q_bytes q)), Some (q_data q), queue_reset q)"
proof -
  have "q_size q \<noteq> 0"
    using assms(3) by (auto simp: q_bytes_def)
  then show ?thesis
    using assms(1,2)
    by (simp add: queue_pop_no_copy_def queue_reset_def q_inv_length int_of_size_small)
qed

lemma queue_pop_no_copy_empty:
  "q_inv q \<Longrightarrow> q_bytes q = [] \<Longrightarrow> queue_pop_no_copy q = (0, None, q)"
  by (auto simp: queue_pop_no_copy_def q_bytes_def q_inv_def unat_eq_zero)

lemma queue_peek_ok:
  assumes "q_inv q" and "unat (q_size q) < 2 ^ 31"
  shows "queue_peek q =
    (int (length (q_bytes q)), if q_bytes q = [] then None else Some (q_data q))"
proof (cases "q_size q = 0")
  case True
  then show ?thesis by (simp add: queue_peek_def q_bytes_def)
next
  case False
  then have "q_bytes q \<noteq> []"
    using assms(1) by (auto simp: q_bytes_def q_inv_def unat_eq_zero)
  with False show ?thesis
    using assms by (simp add: queue_peek_def q_inv_length int_of_size_small)
qed

lemma queue_init_ok:
  assumes "alloc_ok al" and "2 \<le> unat cap" and "unat cap \<le> 2 ^ 48"
  shows "returns (queue_init al None cap)
    (\<lambda>qu. \<exists>q. qu = Some q \<and> q_inv q \<and> q_bytes q = [] \<and> q_capacity q = cap)"
proof -
  obtain junk junk' where "al 40 = Some junk'" "al (unat cap) = Some junk"
    using assms(1) by (metis alloc_okE)
  moreover have "cap > 0" "cap \<noteq> 0"
    using assms(2) by (auto simp: word_less_nat_alt)
  ultimately show ?thesis
    using assms(2,3) by (simp add: queue_init_def queue_init_data_def q_inv_def q_bytes_def)
qed

section \<open>What a buffer can hold besides its contents\<close>

text \<open>
  The slack of a buffer holds bytes of earlier contents or fresh memory. A property \<open>P\<close> of all
  of these is kept by every operation.
\<close>

definition fresh_all :: "(char \<Rightarrow> bool) \<Rightarrow> allocator \<Rightarrow> bool" where
  "fresh_all P al \<longleftrightarrow> (\<forall>n junk. al n = Some junk \<longrightarrow> (\<forall>i. P (junk i)))"

definition q_all :: "(char \<Rightarrow> bool) \<Rightarrow> queue \<Rightarrow> bool" where
  "q_all P q \<longleftrightarrow> (\<forall>c \<in> set (q_data q). P c)"

lemma realloc_bytes_all:
  "\<forall>c \<in> set old. P c \<Longrightarrow> \<forall>i. P (junk i) \<Longrightarrow> c \<in> set (realloc_bytes junk old n) \<Longrightarrow> P c"
  by (auto simp: realloc_bytes_def dest: in_set_takeD)

lemma poke_all:
  "poke buf off bs = Inr buf' \<Longrightarrow> \<forall>c \<in> set buf. P c \<Longrightarrow> \<forall>c \<in> set bs. P c \<Longrightarrow> \<forall>c \<in> set buf'. P c"
  unfolding poke_def by (auto split: if_splits) (meson in_set_takeD in_set_dropD)+

lemma queue_init_data_all:
  "queue_init_data al q cap = Inr q' \<Longrightarrow> fresh_all P al \<Longrightarrow> q_all P q \<Longrightarrow> q_all P q'"
  unfolding queue_init_data_def fresh_all_def q_all_def
  by (auto split: if_splits option.splits elim!: realloc_bytes_all)

lemma queue_expand_capacity_all:
  "queue_expand_capacity al q sz = Inr q' \<Longrightarrow> fresh_all P al \<Longrightarrow> q_all P q \<Longrightarrow> q_all P q'"
  unfolding queue_expand_capacity_def
  by (auto simp: res_simps split: if_splits intro: queue_init_data_all)

lemma queue_push_ex_all:
  "queue_push_ex al q sz = Inr q' \<Longrightarrow> fresh_all P al \<Longrightarrow> q_all P q \<Longrightarrow> q_all P q'"
  unfolding queue_push_ex_def
  by (auto simp: res_simps q_all_def [of P "_\<lparr>q_head := _\<rparr>"] split: if_splits
      dest!: queue_expand_capacity_all) (auto simp: q_all_def)

lemma queue_push_all:
  "queue_push al q data sz = Inr q' \<Longrightarrow> fresh_all P al \<Longrightarrow> q_all P q \<Longrightarrow>
   \<forall>c \<in> set (take (unat sz) data). P c \<Longrightarrow> q_all P q'"
  unfolding queue_push_def
  by (auto simp: res_simps peek_def q_all_def [of P "_\<lparr>q_data := _, q_head := _, q_size := _, q_free := _\<rparr>"]
      split: if_splits dest!: queue_expand_capacity_all)
    (auto simp: q_all_def dest: poke_all)

lemma queue_init_all: "queue_init al None cap = Inr (Some q) \<Longrightarrow> fresh_all P al \<Longrightarrow> q_all P q"
  unfolding queue_init_def
  by (auto simp: res_simps split: if_splits option.splits elim!: queue_init_data_all)
    (simp add: q_all_def)

lemma queue_reset_all [simp]: "q_all P (queue_reset q) = q_all P q"
  by (simp add: queue_reset_def q_all_def)

text \<open>Popping, whether or not there is something to pop.\<close>

lemma queue_pop_whole:
  assumes "q_inv qu" and "q_bytes qu = bs" and "length bs < 2 ^ 31"
  obtains qu' where "queue_pop_no_copy qu = (int (length bs), if bs = [] then None else Some (q_data qu), qu')"
    and "q_inv qu'" and "q_bytes qu' = []" and "q_all P qu' = q_all P qu"
proof (cases "bs = []")
  case True
  then show ?thesis
    using that [of qu] assms queue_pop_no_copy_empty [of qu] by simp
next
  case False
  then show ?thesis
    using that [of "queue_reset qu"] assms queue_pop_no_copy_ok [of qu] queue_reset_ok [of qu]
      q_inv_length [of qu]
    by simp
qed

text \<open>The queue a pop leaves behind.\<close>

definition flushed :: "queue \<Rightarrow> queue" where
  "flushed q = (if q_bytes q = [] then q else queue_reset q)"

lemma pop_flushed:
  assumes "q_inv q" and "length (q_bytes q) < 2 ^ 31"
  shows "queue_pop_no_copy q =
    (int (length (q_bytes q)), if q_bytes q = [] then None else Some (q_data q), flushed q)"
proof (cases "q_bytes q = []")
  case True
  then show ?thesis using assms queue_pop_no_copy_empty [of q] by (simp add: flushed_def)
next
  case False
  have "unat (q_size q) < 2 ^ 31" using assms by (simp add: q_inv_length)
  then show ?thesis using False assms queue_pop_no_copy_ok [of q] by (simp add: flushed_def)
qed

lemma flushed_queue [simp]:
  "q_inv q \<Longrightarrow> q_inv (flushed q)" "q_inv q \<Longrightarrow> q_bytes (flushed q) = []" "q_data (flushed q) = q_data q"
  by (auto simp: flushed_def queue_reset_ok) (simp add: queue_reset_def)

section \<open>The queue as a byte buffer\<close>

text \<open>
  What the servers rely on: pushing appends, clearing empties, both keep the invariant, as
  long as the contents stay within \<open>lim\<close> bytes.
\<close>

locale byte_buffer =
  fixes push :: "'q \<Rightarrow> char list \<Rightarrow> 'q res"
    and clear :: "'q \<Rightarrow> 'q"
    and bytes :: "'q \<Rightarrow> char list"
    and inv :: "'q \<Rightarrow> bool"
    and lim :: nat
  assumes push_law: "inv q \<Longrightarrow> length (bytes q) + length bs \<le> lim \<Longrightarrow>
      returns (push q bs) (\<lambda>q'. inv q' \<and> bytes q' = bytes q @ bs)"
    and clear_law: "inv q \<Longrightarrow> inv (clear q) \<and> bytes (clear q) = []"
begin

lemma push_all:
  "inv q \<Longrightarrow> length (bytes q) + length (concat bss) \<le> lim \<Longrightarrow>
   returns (run_res push q bss) (\<lambda>q'. inv q' \<and> bytes q' = bytes q @ concat bss)"
proof (induction bss arbitrary: q)
  case Nil
  then show ?case by simp
next
  case (Cons bs bss)
  then obtain q' where q': "push q bs = Inr q'" "inv q'" "bytes q' = bytes q @ bs"
    using push_law [of q bs] by (auto simp: returns_iff)
  with Cons.prems have "returns (run_res push q' bss) (\<lambda>q''. inv q'' \<and> bytes q'' = bytes q' @ concat bss)"
    by (intro Cons.IH) simp_all
  with q' show ?case by simp
qed

lemma push_all_cleared:
  "inv q \<Longrightarrow> length (concat bss) \<le> lim \<Longrightarrow>
   returns (run_res push (clear q) bss) (\<lambda>q'. inv q' \<and> bytes q' = concat bss)"
  using push_all [of "clear q" bss] clear_law [of q] by simp

end

text \<open>A push of a whole byte string, the way every caller uses \<open>queue_push\<close>.\<close>

definition push_bytes :: "allocator \<Rightarrow> queue \<Rightarrow> char list \<Rightarrow> queue res" where
  "push_bytes al q bs = queue_push al q bs (of_nat (length bs))"

lemma push_bytes_ok:
  assumes "q_inv q" and "alloc_ok al" and "length (q_bytes q) + length bs \<le> 2 ^ 40"
  shows "returns (push_bytes al q bs) (\<lambda>q'. q_inv q' \<and> q_bytes q' = q_bytes q @ bs)"
proof (cases "bs = []")
  case True
  with assms(1) show ?thesis by (simp add: push_bytes_def queue_push_zero)
next
  case False
  let ?n = "of_nat (length bs) :: size_t"
  have n: "unat ?n = length bs"
    using assms(3) by (intro unat_of_nat_small) simp
  have "?n \<noteq> 0"
    using n False by (metis length_0_conv unat_0)
  then have "returns (queue_push al q bs ?n)
    (\<lambda>q'. q_inv q' \<and> q_bytes q' = q_bytes q @ take (unat ?n) bs \<and>
          q_grown q (unat (q_size q) + unat ?n) q')"
    using assms n by (intro queue_push_ok) (simp_all add: q_inv_length)
  then show ?thesis
    unfolding push_bytes_def by (rule returns_mono) (simp add: n)
qed

interpretation lq: byte_buffer "push_bytes al" queue_reset q_bytes "\<lambda>q. q_inv q \<and> alloc_ok al" "2 ^ 40"
  for al
  by unfold_locales (use push_bytes_ok queue_reset_ok in \<open>auto simp: returns_iff\<close>)

text \<open>Evaluation of the operations on closed queues.\<close>

lemma cap_buffer_eval:
  "unat x < 2 ^ 50 \<Longrightarrow> cap_buffer x = of_nat (4 * unat x div 5)"
  by (simp add: word_unat_eq_iff unat_cap_buffer unat_of_nat)

lemma grow_loop_numeral:
  "grow_loop (numeral k) need sz nc =
    (if need \<ge> cap_buffer (nc - sz) then grow_loop (pred_numeral k) need sz (nc * 2) else Inr nc)"
  by (simp add: numeral_eq_Suc)

lemmas queue_eval = queue_push_def queue_expand_capacity_def queue_init_data_def
  cap_buffer_eval grow_loop_numeral peek_def poke_def realloc_bytes_def

section \<open>The fuel of the growth loop\<close>

text \<open>After 64 doublings the capacity is 0 and stays so.\<close>

lemma grow_loop_zero: "grow_loop (Suc 0) need sz 0 = Inl Diverges \<Longrightarrow> grow_loop fuel need sz 0 = Inl Diverges"
  by (induction fuel) (simp_all split: if_splits)

lemma grow_loop_doubled:
  "grow_loop (k + Suc 0) need sz c = Inl Diverges \<Longrightarrow> c * 2 ^ k = 0 \<Longrightarrow>
   grow_loop (k + fuel) need sz c = Inl Diverges"
proof (induction k arbitrary: c)
  case 0
  then have "c = 0" and "grow_loop (Suc 0) need sz c = Inl Diverges" by (simp_all only: add_0 power_0 mult_1_right)
  then show ?case by (simp only: add_0 grow_loop_zero)
next
  case (Suc k)
  have "c * 2 * 2 ^ k = 0" using Suc.prems(2) by (simp add: mult.assoc)
  with Suc show ?case by (auto split: if_splits)
qed

lemma grow_loop_more: "grow_loop fuel need sz c = Inr c' \<Longrightarrow> grow_loop (fuel + k) need sz c = Inr c'"
  by (induction fuel arbitrary: c) (auto split: if_splits)

section \<open>Properties\<close>

text \<open>C37: the floating-point growth test is integer arithmetic: below \<open>2 ^ 50\<close> bytes
  \<open>(size_t)((double)x * 0.8)\<close> is exactly \<open>4 * x div 5\<close>, rounding included.\<close>

theorem growth_test_exact:
  assumes "unat x < 2 ^ 50"
  shows "unat (cap_buffer x) = 4 * unat x div 5"
  using assms by (rule unat_cap_buffer)

theorem growth_test_exact_witness:
  "unat (2048 :: size_t) < 2 ^ 50 \<and> unat (cap_buffer 2048) = 1638"
  using growth_test_exact [of 2048] by simp

text \<open>C14: pushing on a well-formed queue returns (the growth loop stops, the copy stays inside
  the buffer), appends exactly the bytes pushed, keeps the invariant, leaves two spare
  bytes, and grows the buffer to at most six times what is stored.\<close>

theorem queue_push_appends:
  assumes "q_inv q" and "alloc_ok al" and "sz \<noteq> 0" and "unat sz \<le> length data"
    and "unat (q_size q) + unat sz \<le> 2 ^ 40"
  shows "returns (queue_push al q data sz)
    (\<lambda>q'. q_inv q' \<and> q_bytes q' = q_bytes q @ take (unat sz) data \<and>
          unat (q_size q') + 2 \<le> unat (q_capacity q') \<and>
          unat (q_capacity q') \<le> max (unat (q_capacity q)) (6 * (unat (q_size q) + unat sz) + 6))"
  using queue_push_ok [OF assms(1,2,5,4,3)] by (rule returns_mono) (simp add: q_grown_def)

definition small_queue :: queue where
  "small_queue = \<lparr>q_data = ''abcdefghij'', q_capacity = 10, q_size = 4, q_free = 6, q_head = 4\<rparr>"

lemma small_queue_inv: "q_inv small_queue"
  by (simp add: small_queue_def q_inv_def)

theorem queue_push_appends_witness:
  "returns (queue_push zero_alloc small_queue ''world'' 5)
    (\<lambda>q'. q_inv q' \<and> q_bytes q' = ''abcdworld'' \<and>
          unat (q_size q') + 2 \<le> unat (q_capacity q') \<and> unat (q_capacity q') \<le> 60)"
proof -
  have "returns (queue_push zero_alloc small_queue ''world'' 5)
    (\<lambda>q'. q_inv q' \<and> q_bytes q' = q_bytes small_queue @ take (unat (5 :: size_t)) ''world'' \<and>
          unat (q_size q') + 2 \<le> unat (q_capacity q') \<and>
          unat (q_capacity q') \<le> max (unat (q_capacity small_queue))
            (6 * (unat (q_size small_queue) + unat (5 :: size_t)) + 6))"
    by (rule queue_push_appends [OF small_queue_inv zero_alloc_ok]) (simp_all add: small_queue_def)
  then show ?thesis
    by (rule returns_mono) (simp add: small_queue_def q_bytes_def)
qed

text \<open>C32: what is pushed comes out: after any sequence of pushes on a cleared queue,
  \<open>queue_pop_no_copy\<close> reports the total length, hands out a buffer that starts with the
  concatenation of the pushed bytes, and leaves an empty well-formed queue.\<close>

theorem queue_push_pop_roundtrip:
  assumes "q_inv q" and "alloc_ok al" and "length (concat bss) < 2 ^ 31" and "concat bss \<noteq> []"
  shows "returns (run_res (push_bytes al) (queue_reset q) bss)
    (\<lambda>q'. \<exists>mem q''. queue_pop_no_copy q' = (int (length (concat bss)), Some mem, q'') \<and>
          take (length (concat bss)) mem = concat bss \<and> q_inv q'' \<and> q_bytes q'' = [])"
proof -
  have "returns (run_res (push_bytes al) (queue_reset q) bss)
    (\<lambda>q'. (q_inv q' \<and> alloc_ok al) \<and> q_bytes q' = concat bss)"
    using assms by (intro lq.push_all_cleared) simp_all
  then show ?thesis
  proof (rule returns_mono)
    fix q' assume q': "(q_inv q' \<and> alloc_ok al) \<and> q_bytes q' = concat bss"
    then have len: "unat (q_size q') = length (concat bss)"
      using q_inv_length [of q'] by simp
    then have "queue_pop_no_copy q' = (int (length (concat bss)), Some (q_data q'), queue_reset q')"
      using q' assms(3,4) queue_pop_no_copy_ok [of q'] by simp
    moreover have "take (length (concat bss)) (q_data q') = concat bss"
      using q' len by (simp add: q_bytes_def)
    ultimately show "\<exists>mem q''. queue_pop_no_copy q' = (int (length (concat bss)), Some mem, q'') \<and>
          take (length (concat bss)) mem = concat bss \<and> q_inv q'' \<and> q_bytes q'' = []"
      using q' queue_reset_ok [of q'] by simp
  qed
qed

theorem queue_push_pop_roundtrip_witness:
  "returns (run_res (push_bytes zero_alloc) (queue_reset small_queue) [''hello'', [], ''world''])
    (\<lambda>q'. \<exists>mem q''. queue_pop_no_copy q' = (10, Some mem, q'') \<and>
          take 10 mem = ''helloworld'' \<and> q_inv q'' \<and> q_bytes q'' = [])"
proof -
  let ?bss = "[''hello'', [], ''world'']"
  have len: "length (concat ?bss) = 10" and cat: "concat ?bss = ''helloworld''"
    by simp_all
  have "returns (run_res (push_bytes zero_alloc) (queue_reset small_queue) ?bss)
    (\<lambda>q'. \<exists>mem q''. queue_pop_no_copy q' = (int (length (concat ?bss)), Some mem, q'') \<and>
          take (length (concat ?bss)) mem = concat ?bss \<and> q_inv q'' \<and> q_bytes q'' = [])"
    by (rule queue_push_pop_roundtrip [OF small_queue_inv zero_alloc_ok]) simp_all
  then show ?thesis
    unfolding len unfolding cat by (simp only: of_nat_numeral)
qed

text \<open>\<open>queue_pop\<close> on every branch: an empty queue and a too small storage change nothing;
  otherwise the stored bytes are copied to the front of the storage, its size is set and
  the queue is emptied; a storage shorter than its announced size is written past its end.\<close>

lemma queue_pop_branches:
  assumes "q_inv q"
  shows "queue_pop q data sz =
    (if q_bytes q = [] \<or> unat sz < length (q_bytes q) then Inr (q, data, sz)
     else if length (q_bytes q) \<le> length data
     then Inr (queue_reset q, q_bytes q @ drop (length (q_bytes q)) data, q_size q)
     else Inl Out_of_bounds)"
proof -
  have len: "length (q_bytes q) = unat (q_size q)"
    using assms by (rule q_inv_length)
  have "unat (q_size q) \<le> length (q_data q)"
    using assms by (simp add: q_inv_def)
  then have "peek (q_data q) 0 (unat (q_size q)) = Inr (q_bytes q)"
    by (simp add: peek_in q_bytes_def)
  moreover have "q_size q = 0 \<longleftrightarrow> q_bytes q = []"
    using len by (auto simp: unat_eq_zero)
  ultimately show ?thesis
    using len by (simp add: queue_pop_def queue_reset_def word_less_nat_alt poke_def)
qed

text \<open>The fuel of the growth loop loses nothing: a run that has not stopped within 65 rounds never stops, and
  one that has stopped is the run of the C loop, for all words, also where sums and products wrap around.\<close>

lemma grow_loop_fuel: "grow_loop (65 + k) need sz c = grow_loop 65 need sz c"
proof (cases "grow_loop 65 need sz c")
  case (Inr c')
  then show ?thesis by (simp only: grow_loop_more)
next
  case (Inl e)
  have "e = Diverges" if "grow_loop n need sz c = Inl e" for n e
    using that by (induction n arbitrary: c) (auto split: if_splits)
  then have "grow_loop (64 + Suc 0) need sz c = Inl Diverges" using Inl by simp
  moreover have "c * 2 ^ 64 = 0"
  proof -
    have "(2 :: size_t) ^ 64 = 0" by (simp only: exp_eq_zero_iff) simp
    then show ?thesis by (simp only: mult_zero_right)
  qed
  ultimately have "grow_loop (64 + Suc k) need sz c = Inl Diverges"
    by (rule grow_loop_doubled)
  then show ?thesis using \<open>grow_loop (64 + Suc 0) need sz c = Inl Diverges\<close> by simp
qed

text \<open>C34: making room ends, and with the right capacity: for a well-formed queue, memory that does not run out and up to
  \<open>2 ^ 40\<close> bytes in total, \<open>queue_expand_capacity\<close> returns, the new capacity is the old one doubled as often as it takes, and
  not once more, until the total is below 80 percent of what is then free (not at all where it already is), and the contents stay.\<close>

theorem queue_grows_to_least_doubling:
  assumes "q_inv q" and "alloc_ok al" and "sz \<noteq> 0" and "unat (q_size q) + unat sz \<le> 2 ^ 40"
  shows "returns (queue_expand_capacity al q sz) (\<lambda>q'. q_inv q' \<and> q_bytes q' = q_bytes q \<and>
    (\<exists>k. unat (q_capacity q') = unat (q_capacity q) * 2 ^ k \<and>
       unat (q_size q) + unat sz < 4 * (unat (q_capacity q) * 2 ^ k - unat (q_size q)) div 5 \<and>
       (\<forall>i < k. 4 * (unat (q_capacity q) * 2 ^ i - unat (q_size q)) div 5 \<le> unat (q_size q) + unat sz)))"
  using queue_expand_capacity_least [OF assms]
proof (rule returns_mono)
  fix q' assume q': "has_room q sz q' \<and>
    least_doubling (unat (q_size q) + unat sz) (unat (q_size q)) (unat (q_capacity q)) (unat (q_capacity q'))"
  have "take (unat (q_size q)) (take (unat (q_capacity q)) (q_data q')) = take (unat (q_size q)) (q_data q)"
    using q' by (simp only: has_room_def)
  then have "q_bytes q' = q_bytes q"
    using q' assms(1) by (simp add: has_room_def q_bytes_def q_inv_def)
  with q' show "q_inv q' \<and> q_bytes q' = q_bytes q \<and>
    (\<exists>k. unat (q_capacity q') = unat (q_capacity q) * 2 ^ k \<and>
       unat (q_size q) + unat sz < 4 * (unat (q_capacity q) * 2 ^ k - unat (q_size q)) div 5 \<and>
       (\<forall>i < k. 4 * (unat (q_capacity q) * 2 ^ i - unat (q_size q)) div 5 \<le> unat (q_size q) + unat sz))"
    by (auto simp: has_room_def least_doubling_def fits_def not_less)
qed

theorem queue_grows_to_least_doubling_witness:
  "returns (queue_expand_capacity zero_alloc small_queue 20) (\<lambda>q'. q_capacity q' = 40 \<and> q_bytes q' = ''abcd'')"
proof -
  have "returns (queue_expand_capacity zero_alloc small_queue 20) (\<lambda>q'. q_inv q' \<and> q_bytes q' = q_bytes small_queue \<and>
    (\<exists>k. unat (q_capacity q') = unat (q_capacity small_queue) * 2 ^ k \<and>
       unat (q_size small_queue) + unat (20 :: size_t) < 4 * (unat (q_capacity small_queue) * 2 ^ k - unat (q_size small_queue)) div 5 \<and>
       (\<forall>i < k. 4 * (unat (q_capacity small_queue) * 2 ^ i - unat (q_size small_queue)) div 5
          \<le> unat (q_size small_queue) + unat (20 :: size_t))))"
    by (rule queue_grows_to_least_doubling [OF small_queue_inv zero_alloc_ok]) (simp_all add: small_queue_def)
  then show ?thesis
  proof (rule returns_mono, elim conjE exE)
    fix q' k
    assume bytes: "q_bytes q' = q_bytes small_queue" and cap: "unat (q_capacity q') = unat (q_capacity small_queue) * 2 ^ k"
      and room: "unat (q_size small_queue) + unat (20 :: size_t)
        < 4 * (unat (q_capacity small_queue) * 2 ^ k - unat (q_size small_queue)) div 5"
      and least: "\<forall>i < k. 4 * (unat (q_capacity small_queue) * 2 ^ i - unat (q_size small_queue)) div 5
          \<le> unat (q_size small_queue) + unat (20 :: size_t)"
    have "k \<noteq> 0" using room by (cases "k = 0") (simp_all add: small_queue_def)
    moreover have "k \<noteq> 1" using room by (cases "k = 1") (simp_all add: small_queue_def)
    moreover have "\<not> 2 < k" using least by (auto simp: small_queue_def dest!: spec [of _ 2])
    ultimately have "k = 2" by linarith
    then show "q_capacity q' = 40 \<and> q_bytes q' = ''abcd''"
      using bytes cap by (simp add: small_queue_def q_bytes_def word_unat_eq_iff)
  qed
qed

end
