(* ===== verification/Receive.thy ===== *)
theory Receive
  imports Kernel Queue
begin

text \<open>
  \<open>recv_request\<close> of \<open>utils/utils.c\<close>: read from a socket into a queue until the kernel reports an
  error or the end of the stream. The bytes are received at \<open>head\<close>, in the free part of the
  buffer, and claimed afterwards with \<open>queue_push_ex\<close>.
\<close>

section \<open>The loop\<close>

function recv_loop :: "allocator \<Rightarrow> int \<Rightarrow> queue \<Rightarrow> kernel \<Rightarrow> (int \<times> queue \<times> kernel) res" where
  "recv_loop al fd qu k =
     (case recv_call fd (unat (q_free qu)) k of
        (RecvErr e, k') \<Rightarrow>
          if e = EAGAIN \<or> e = EWOULDBLOCK then Inr (-1, qu, k') else Inr (-2, qu, k')
      | (RecvBytes bs, k') \<Rightarrow>
          if bs = [] then Inr (0, qu, k')
          else rbind (poke (q_data qu) (q_head qu) bs)
                 (\<lambda>d. rbind (queue_push_ex al (qu\<lparr>q_data := d\<rparr>) (of_nat (length bs)))
                 (\<lambda>qu'. recv_loop al fd qu' k')))"
  by pat_completeness auto

termination recv_loop
  by (relation "measure (\<lambda>(al, fd, qu, k). rx_weight (k_rx k fd))")
     (use recv_call_progress in \<open>force+\<close>)

declare recv_loop.simps [simp del]

definition recv_request :: "allocator \<Rightarrow> int \<Rightarrow> queue \<Rightarrow> kernel \<Rightarrow> (int \<times> queue \<times> kernel) res" where
  "recv_request al fd qu k = (if \<not> fd > 0 then Inl Assert_failed else recv_loop al fd qu k)"

section \<open>What a socket delivers\<close>

text \<open>
  Independently of any buffer: the bytes up to the next stop, the return value the stop means
  and what remains afterwards.
\<close>

fun drained :: "rx list \<Rightarrow> char list" where
  "drained (RxData bs # rs) = (if bs = [] then [] else bs @ drained rs)"
| "drained _ = []"

fun stop_code :: "rx list \<Rightarrow> int" where
  "stop_code [] = -1"
| "stop_code (RxEof # rs) = 0"
| "stop_code (RxErr e # rs) = (if e = EAGAIN \<or> e = EWOULDBLOCK then -1 else -2)"
| "stop_code (RxData bs # rs) = (if bs = [] then 0 else stop_code rs)"

fun remaining :: "rx list \<Rightarrow> rx list" where
  "remaining [] = []"
| "remaining (RxEof # rs) = RxEof # rs"
| "remaining (RxErr e # rs) = rs"
| "remaining (RxData bs # rs) = (if bs = [] then rs else remaining rs)"

lemma stop_code_cases: "stop_code rs \<in> {0, -1, -2}"
  by (induction rs rule: stop_code.induct) auto

text \<open>
  One call of \<open>recv\<close> with a non-empty buffer either stops as \<open>stop_code\<close> says or takes a non-empty
  front part of what is to come.
\<close>

lemma recv_call_stream:
  assumes "recv_call fd len k = (r, k')" and "0 < len"
  shows "case r of
      RecvErr e \<Rightarrow> drained (k_rx k fd) = [] \<and> k_rx k' fd = remaining (k_rx k fd) \<and>
        stop_code (k_rx k fd) = (if e = EAGAIN \<or> e = EWOULDBLOCK then -1 else -2)
    | RecvBytes bs \<Rightarrow>
        (if bs = [] then drained (k_rx k fd) = [] \<and> stop_code (k_rx k fd) = 0 \<and>
           k_rx k' fd = remaining (k_rx k fd)
         else drained (k_rx k fd) = bs @ drained (k_rx k' fd) \<and>
           stop_code (k_rx k fd) = stop_code (k_rx k' fd) \<and>
           remaining (k_rx k fd) = remaining (k_rx k' fd))"
proof (cases "k_rx k fd")
  case Nil
  with assms show ?thesis by (auto simp: recv_call_def)
next
  case (Cons x rs)
  with assms show ?thesis
    by (cases x) (auto simp: recv_call_def split: if_splits)
qed

text \<open>The queue after receiving \<open>bs\<close> into its free part and claiming it.\<close>

lemma receive_step:
  assumes "q_inv qu" and "alloc_ok al" and "bs \<noteq> []" and "length bs \<le> unat (q_free qu)"
    and "length (q_bytes qu) + length bs \<le> 2 ^ 40"
  shows "returns (rbind (poke (q_data qu) (q_head qu) bs)
      (\<lambda>d. queue_push_ex al (qu\<lparr>q_data := d\<rparr>) (of_nat (length bs))))
    (\<lambda>qu'. q_inv qu' \<and> q_bytes qu' = q_bytes qu @ bs)"
proof -
  let ?n = "of_nat (length bs) :: size_t"
  let ?d = "take (q_head qu) (q_data qu) @ bs @ drop (q_head qu + length bs) (q_data qu)"
  have inv: "length (q_data qu) = unat (q_capacity qu)" "q_head qu = unat (q_size qu)"
    "unat (q_size qu) < unat (q_capacity qu)"
    using assms(1) by (simp_all add: q_inv_def)
  have n: "unat ?n = length bs"
    using assms(5) by (intro unat_of_nat_small) simp
  then have "?n \<noteq> 0"
    using assms(3) by (metis length_0_conv unat_0)
  have free: "unat (q_free qu) = unat (q_capacity qu) - unat (q_size qu)"
    using assms(1) by (rule q_inv_free)
  have fit: "q_head qu + length bs \<le> length (q_data qu)"
    using inv free assms(4) by simp
  then have "q_inv (qu\<lparr>q_data := ?d\<rparr>)"
    using assms(1) by (auto simp: q_inv_def)
  moreover have "take (unat (q_size qu) + length bs) ?d = q_bytes qu @ bs"
    using fit inv by (simp add: q_bytes_def)
  ultimately have "returns (queue_push_ex al (qu\<lparr>q_data := ?d\<rparr>) ?n)
    (\<lambda>qu'. q_inv qu' \<and> q_bytes qu' = q_bytes qu @ bs)"
    using queue_push_ex_ok [of "qu\<lparr>q_data := ?d\<rparr>" al ?n] assms \<open>?n \<noteq> 0\<close>
    by (simp add: n q_inv_length returns_iff) blast
  with fit show ?thesis
    by (simp add: poke_in)
qed

lemma receive_step_all:
  assumes "poke (q_data qu) (q_head qu) bs = Inr d" and "queue_push_ex al (qu\<lparr>q_data := d\<rparr>) n = Inr qu'"
    and "fresh_all P al" and "q_all P qu" and "\<forall>c \<in> set bs. P c"
  shows "q_all P qu'"
proof (rule queue_push_ex_all [OF assms(2,3)])
  have "\<forall>c \<in> set d. P c"
    using assms(1,4,5) unfolding q_all_def by (rule poke_all)
  then show "q_all P (qu\<lparr>q_data := d\<rparr>)" by (simp add: q_all_def)
qed

lemma receive_piece:
  assumes "q_inv qu" and "alloc_ok al" and "bs \<noteq> []" and "length bs \<le> unat (q_free qu)"
    and "length (q_bytes qu) + length bs \<le> 2 ^ 40" and "fresh_all P al" and "q_all P qu" and "\<forall>c \<in> set bs. P c"
  obtains d qu' where "poke (q_data qu) (q_head qu) bs = Inr d"
    and "queue_push_ex al (qu\<lparr>q_data := d\<rparr>) (of_nat (length bs)) = Inr qu'"
    and "q_inv qu'" and "q_bytes qu' = q_bytes qu @ bs" and "q_all P qu'"
  using receive_step [OF assms(1-5)] receive_step_all [OF _ _ assms(6-8)]
  by (auto simp: returns_iff res_simps)

lemma recv_loop_drains:
  "q_inv qu \<Longrightarrow> alloc_ok al \<Longrightarrow> length (q_bytes qu) + length (drained (k_rx k fd)) \<le> 2 ^ 40 \<Longrightarrow>
   fresh_all P al \<Longrightarrow> q_all P qu \<Longrightarrow> \<forall>c \<in> set (drained (k_rx k fd)). P c \<Longrightarrow>
   returns (recv_loop al fd qu k)
     (\<lambda>(r, qu', k'). r = stop_code (k_rx k fd) \<and> q_inv qu' \<and> q_all P qu' \<and>
        q_bytes qu' = q_bytes qu @ drained (k_rx k fd) \<and>
        k' = set_rx fd (remaining (k_rx k fd)) k)"
proof (induction al fd qu k rule: recv_loop.induct)
  case (1 al fd qu k)
  obtain r k' where call: "recv_call fd (unat (q_free qu)) k = (r, k')" by fastforce
  note stream = recv_call_stream [OF call q_inv_free_pos [OF "1.prems"(1)]]
  note frame = recv_call_frame [OF call]
  show ?case
  proof (cases r)
    case (RecvErr e)
    with call stream frame "1.prems"(1,5) show ?thesis
      by (auto simp: recv_loop.simps [of al fd qu k])
  next
    case (RecvBytes bs)
    show ?thesis
    proof (cases "bs = []")
      case True
      with RecvBytes call stream frame "1.prems"(1,5) show ?thesis
        by (auto simp: recv_loop.simps [of al fd qu k])
    next
      case False
      with stream RecvBytes have
        parts: "drained (k_rx k fd) = bs @ drained (k_rx k' fd)"
          "stop_code (k_rx k fd) = stop_code (k_rx k' fd)"
          "remaining (k_rx k fd) = remaining (k_rx k' fd)"
        by simp_all
      have le: "length bs \<le> unat (q_free qu)"
        using call RecvBytes recv_call_bound by blast
      have lim: "length (q_bytes qu) + length bs \<le> 2 ^ 40" and chars: "\<forall>c \<in> set bs. P c"
        using "1.prems"(3,6) parts(1) by simp_all
      obtain d qu' where d: "poke (q_data qu) (q_head qu) bs = Inr d"
        and push: "queue_push_ex al (qu\<lparr>q_data := d\<rparr>) (of_nat (length bs)) = Inr qu'"
        and qu': "q_inv qu'" "q_bytes qu' = q_bytes qu @ bs" and slack: "q_all P qu'"
        using receive_piece [OF "1.prems"(1,2) False le lim "1.prems"(4,5) chars] by metis
      have rest: "\<forall>c \<in> set (drained (k_rx k' fd)). P c"
        using "1.prems"(6) parts(1) by simp
      have small: "length (q_bytes qu') + length (drained (k_rx k' fd)) \<le> 2 ^ 40"
        using "1.prems"(3) qu'(2) parts(1) by simp
      have frame': "set_rx fd rs k' = set_rx fd rs k" for rs
        by (subst frame) simp
      from "1.IH" [OF call [symmetric] RecvBytes False d push qu'(1) "1.prems"(2) small "1.prems"(4) slack rest]
      have "returns (recv_loop al fd qu' k')
        (\<lambda>(r, qu'', k''). r = stop_code (k_rx k fd) \<and> q_inv qu'' \<and> q_all P qu'' \<and>
           q_bytes qu'' = q_bytes qu @ drained (k_rx k fd) \<and>
           k'' = set_rx fd (remaining (k_rx k fd)) k)"
        using parts qu'(2) frame' by simp
      with False RecvBytes call d push show ?thesis
        by (simp add: recv_loop.simps [of al fd qu k])
    qed
  qed
qed

section \<open>Properties\<close>

text \<open>C17: \<open>recv_request\<close> stores exactly what the socket delivers up to the next stop,
  however the kernel cuts it and however often the buffer is reallocated in between (every
  \<open>recv\<close> is given a non-empty part of the buffer, so 0 always means the end of the stream),
  takes exactly that from the socket, and reports the stop: 0, -1 or -2.\<close>

theorem recv_request_drains:
  assumes "0 < fd" and "q_inv qu" and "alloc_ok al"
    and "length (q_bytes qu) + length (drained (k_rx k fd)) \<le> 2 ^ 40"
  shows "returns (recv_request al fd qu k)
    (\<lambda>(r, qu', k'). r = stop_code (k_rx k fd) \<and> r \<in> {0, -1, -2} \<and> q_inv qu' \<and>
       q_bytes qu' = q_bytes qu @ drained (k_rx k fd) \<and>
       k' = set_rx fd (remaining (k_rx k fd)) k)"
proof -
  have "returns (recv_request al fd qu k)
    (\<lambda>(r, qu', k'). r = stop_code (k_rx k fd) \<and> q_inv qu' \<and>
       q_bytes qu' = q_bytes qu @ drained (k_rx k fd) \<and>
       k' = set_rx fd (remaining (k_rx k fd)) k)"
    using recv_loop_drains [OF assms(2-4), of "\<lambda>_. True"] assms(1)
    by (simp add: recv_request_def fresh_all_def q_all_def)
  then show ?thesis
    by (rule returns_mono) (use stop_code_cases in auto)
qed

definition talking_kernel :: kernel where
  "talking_kernel = \<lparr>k_rx = (\<lambda>_. [RxData ''hello '', RxData ''world'', RxErr 11, RxEof]), k_tx = (\<lambda>_. []),
     k_out = (\<lambda>_. []), k_accept = [], k_ctl_fails = [], k_interest = [], k_nonblock = [], k_closed = []\<rparr>"

theorem recv_request_drains_witness:
  "returns (recv_request zero_alloc 7 small_queue talking_kernel)
    (\<lambda>(r, qu', k'). r = -1 \<and> q_inv qu' \<and> q_bytes qu' = ''abcdhello world'' \<and> k_rx k' 7 = [RxEof])"
proof -
  have "returns (recv_request zero_alloc 7 small_queue talking_kernel)
    (\<lambda>(r, qu', k'). r = stop_code (k_rx talking_kernel 7) \<and> r \<in> {0, -1, -2} \<and> q_inv qu' \<and>
       q_bytes qu' = q_bytes small_queue @ drained (k_rx talking_kernel 7) \<and>
       k' = set_rx 7 (remaining (k_rx talking_kernel 7)) talking_kernel)"
    by (rule recv_request_drains [OF _ small_queue_inv zero_alloc_ok])
       (simp_all add: talking_kernel_def small_queue_def q_bytes_def)
  then show ?thesis
    by (rule returns_mono)
       (auto simp: talking_kernel_def small_queue_def q_bytes_def EAGAIN_def)
qed

end
