(* ===== verification/Buffer.thy ===== *)
theory Buffer
  imports Receive
begin

text \<open>
  What the buffer of a queue holds besides the contents of the queue. Popping does not clear a buffer, and the chat server
  prints buffers as C strings, so bytes of earlier contents matter: \<open>laid\<close> says where they are after a push, \<open>q_text\<close> is
  the C string in the buffer, and \<open>q_clean\<close> the shape that buffers have when fresh memory is zero and no NUL is ever received.
\<close>

section \<open>Where earlier bytes stay\<close>

definition fresh_byte :: "allocator \<Rightarrow> char \<Rightarrow> bool" where
  "fresh_byte al c \<longleftrightarrow> (\<exists>n junk i. al n = Some junk \<and> c = junk i)"

lemma expand_capacity_cases:
  assumes "queue_expand_capacity al q sz = Inr r"
  obtains "r = q" | n junk where "al n = Some junk" and "q_data r = realloc_bytes junk (q_data q) (unat (q_capacity r))"
  using assms by (auto simp: queue_expand_capacity_def queue_init_data_def res_simps split: if_splits option.splits)

text \<open>The contents are laid over the old buffer, which may have been extended with fresh memory.\<close>

definition over :: "char list \<Rightarrow> char list \<Rightarrow> char list" where
  "over bs old = bs @ drop (length bs) old"

definition laid :: "allocator \<Rightarrow> queue \<Rightarrow> queue \<Rightarrow> bool" where
  "laid al q q' \<longleftrightarrow> (\<exists>ext. q_data q' = over (q_bytes q') (q_data q) @ ext \<and> list_all (fresh_byte al) ext)"

lemma over_same: "take (length bs) old = bs \<Longrightarrow> over bs old = old"
  unfolding over_def by (metis append_take_drop_id)

lemma q_bytes_front: "q_inv q \<Longrightarrow> take (length (q_bytes q)) (q_data q) = q_bytes q"
  by (simp only: q_inv_length) (simp add: q_bytes_def)

lemma laid_refl: "q_inv q \<Longrightarrow> laid al q q"
  unfolding laid_def by (intro exI [of _ "[]"]) (simp add: over_same q_bytes_front)

lemma laid_trans:
  assumes "laid al q q1" and "laid al q1 q2" and "length (q_bytes q1) \<le> length (q_bytes q2)"
  shows "laid al q q2"
proof -
  obtain e1 e2 where d: "q_data q1 = over (q_bytes q1) (q_data q) @ e1" "q_data q2 = over (q_bytes q2) (q_data q1) @ e2"
    and e: "list_all (fresh_byte al) e1" "list_all (fresh_byte al) e2"
    using assms(1,2) by (auto simp: laid_def)
  define k where "k = length (q_bytes q2) - length (q_bytes q1)"
  have "drop (length (q_bytes q2)) (q_data q1) = drop (length (q_bytes q2)) (q_data q) @
      drop (k - (length (q_data q) - length (q_bytes q1))) e1"
    using assms(3) by (simp add: d(1) over_def k_def)
  moreover have "list_all (fresh_byte al) (drop j e1)" for j
    using e(1) by (auto simp: list_all_iff dest: in_set_dropD)
  ultimately show ?thesis
    using d(2) e(2) unfolding laid_def over_def
    by (intro exI [of _ "drop (k - (length (q_data q) - length (q_bytes q1))) e1 @ e2"]) simp
qed

lemma expand_capacity_data:
  assumes "(if b then queue_expand_capacity al q sz else Inr q) = Inr r" and "length (q_data q) \<le> length (q_data r)"
  shows "\<exists>ext. q_data r = q_data q @ ext \<and> list_all (fresh_byte al) ext"
proof (cases "r = q")
  case True
  then show ?thesis by (intro exI [of _ "[]"]) simp
next
  case False
  then have "queue_expand_capacity al q sz = Inr r" using assms(1) by (auto split: if_splits)
  then show ?thesis
  proof (cases rule: expand_capacity_cases)
    case 1
    then show ?thesis using False by simp
  next
    case (2 n junk)
    have "length (q_data q) \<le> unat (q_capacity r)" using assms(2) 2(2) by simp
    then show ?thesis
      using 2 by (auto simp: realloc_bytes_def list_all_iff fresh_byte_def)
  qed
qed

text \<open>\<open>queue_push_ex\<close> claims what has been written to the buffer; \<open>queue_push\<close> writes it itself.\<close>

lemma push_ex_laid:
  assumes "queue_push_ex al q sz = Inr q'" and "q_inv q" and "alloc_ok al"
    and "unat (q_size q) + unat sz \<le> 2 ^ 40" and "unat sz \<le> unat (q_free q)"
  shows "laid al q q'"
proof (cases "sz = 0")
  case True
  then show ?thesis using assms(1,2) by (simp add: queue_push_ex_def laid_refl)
next
  case False
  obtain r where r: "(if q_size q + sz \<ge> cap_buffer (q_free q)
      then queue_expand_capacity al q sz else Inr q) = Inr r" and room: "has_room q sz r"
    using push_makes_room [OF assms(2,3) False assms(4)] by (auto simp: returns_iff)
  have "length (q_data q) \<le> length (q_data r)"
    using room assms(2) by (simp add: has_room_def q_inv_def)
  then obtain ext where ext: "q_data r = q_data q @ ext" "list_all (fresh_byte al) ext"
    using expand_capacity_data [OF r] by blast
  have "q_data q' = q_data r" using assms(1) False by (simp only: queue_push_ex_def r if_False rbind_Inr) auto
  moreover have "q_bytes q' = take (unat (q_size q) + unat sz) (q_data q)"
    using queue_push_ex_ok [OF assms(2-5) False] assms(1) by simp
  moreover have "unat (q_size q) + unat sz \<le> length (q_data q)"
  proof -
    have "unat (q_size q) < unat (q_capacity q)" "length (q_data q) = unat (q_capacity q)"
      using assms(2) by (simp_all add: q_inv_def)
    then show ?thesis using assms(5) q_inv_free [OF assms(2)] by linarith
  qed
  ultimately show ?thesis
    using ext unfolding laid_def over_def by (intro exI [of _ ext]) simp
qed

lemma push_laid:
  assumes "queue_push al q data sz = Inr q'" and "q_inv q" and "alloc_ok al"
    and "unat (q_size q) + unat sz \<le> 2 ^ 40" and "unat sz \<le> length data"
  shows "laid al q q'"
proof (cases "sz = 0")
  case True
  then show ?thesis using assms(1,2) by (simp add: queue_push_zero laid_refl)
next
  case False
  obtain r where r: "(if q_size q + sz \<ge> cap_buffer (q_free q)
      then queue_expand_capacity al q sz else Inr q) = Inr r" and room: "has_room q sz r"
    using push_makes_room [OF assms(2,3) False assms(4)] by (auto simp: returns_iff)
  have "length (q_data q) \<le> length (q_data r)"
    using room assms(2) by (simp add: has_room_def q_inv_def)
  then obtain ext where ext: "q_data r = q_data q @ ext" "list_all (fresh_byte al) ext"
    using expand_capacity_data [OF r] by blast
  have post: "q_bytes q' = q_bytes q @ take (unat sz) data"
    using queue_push_ok [OF assms(2-5) False] assms(1) by simp
  have head: "q_head r = unat (q_size q)" using room by (simp add: has_room_def q_inv_def)
  have "q_data q' = take (unat (q_size q)) (q_data r) @ take (unat sz) data @ drop (unat (q_size q) + unat sz) (q_data r)"
    using assms(1,5) False head
    by (auto simp: queue_push_def r res_simps peek_in poke_def min_def split: if_splits)
  moreover have "take (unat (q_size q)) (q_data r) = q_bytes q"
    using assms(2) ext(1) by (simp add: q_bytes_def q_inv_def)
  ultimately have "q_data q' = q_bytes q' @ drop (length (q_bytes q')) (q_data q @ ext)"
    using assms(5) ext(1) post q_inv_length [OF assms(2)] by (simp add: min_def)
  moreover have "list_all (fresh_byte al) (drop j ext)" for j
    using ext(2) by (auto simp: list_all_iff dest: in_set_dropD)
  ultimately show ?thesis unfolding laid_def over_def by auto
qed

text \<open>One piece of a delivery, written at the head of the queue and claimed.\<close>

lemma receive_laid:
  assumes "q_inv qu" and "alloc_ok al" and "bs \<noteq> []" and "length bs \<le> unat (q_free qu)"
    and "length (q_bytes qu) + length bs \<le> 2 ^ 40" and "poke (q_data qu) (q_head qu) bs = Inr d"
    and "queue_push_ex al (qu\<lparr>q_data := d\<rparr>) (of_nat (length bs)) = Inr q1"
  shows "laid al qu q1" and "q_inv q1" and "q_bytes q1 = q_bytes qu @ bs"
proof -
  show q1_ok: "q_inv q1" "q_bytes q1 = q_bytes qu @ bs"
    using receive_step [OF assms(1-5)] assms(6,7) by simp_all
  let ?q = "qu\<lparr>q_data := d\<rparr>"
  have n: "unat (of_nat (length bs) :: size_t) = length bs" using assms(5) by (intro unat_of_nat_small) simp
  have len: "length d = length (q_data qu)" using assms(6) by (rule poke_length)
  have "q_inv ?q" using assms(1) len by (simp add: q_inv_def)
  moreover have "unat (q_size ?q) + unat (of_nat (length bs) :: size_t) \<le> 2 ^ 40"
    using assms(5) n q_inv_length [OF assms(1)] by simp
  ultimately have "laid al ?q q1" using push_ex_laid [OF assms(7)] assms(2,4) n by simp
  then obtain ext where ext: "q_data q1 = over (q_bytes q1) d @ ext" "list_all (fresh_byte al) ext"
    by (auto simp: laid_def)
  have "q_head qu = length (q_bytes qu)" using assms(1) q_inv_length by (simp add: q_inv_def)
  then have "d = take (length (q_bytes qu)) (q_data qu) @ bs @ drop (length (q_bytes qu) + length bs) (q_data qu)"
    using assms(6) by (auto simp: poke_def split: if_splits)
  then have "d = over (q_bytes q1) (q_data qu)"
    unfolding q1_ok(2) over_def q_bytes_front [OF assms(1)] by simp
  then have "over (q_bytes q1) d = over (q_bytes q1) (q_data qu)" by (simp add: over_def)
  then show "laid al qu q1" using ext by (auto simp: laid_def)
qed

lemma recv_loop_laid:
  "recv_loop al fd qu k = Inr (r, qu', k') \<Longrightarrow> q_inv qu \<Longrightarrow> alloc_ok al \<Longrightarrow>
   length (q_bytes qu) + length (drained (k_rx k fd)) \<le> 2 ^ 40 \<Longrightarrow>
   laid al qu qu' \<and> length (q_bytes qu) \<le> length (q_bytes qu')"
proof (induction al fd qu k rule: recv_loop.induct)
  case (1 al fd qu k)
  note run = "1.prems"(1) [unfolded recv_loop.simps [of al fd qu k]]
  obtain a k1 where call: "recv_call fd (unat (q_free qu)) k = (a, k1)" by fastforce
  note stream = recv_call_stream [OF call q_inv_free_pos [OF "1.prems"(2)]]
  show ?case
  proof (cases "\<exists>bs. a = RecvBytes bs \<and> bs \<noteq> []")
    case False
    then have "qu' = qu" using run call by (cases a) (auto split: if_splits)
    then show ?thesis using "1.prems"(2) by (simp add: laid_refl)
  next
    case True
    then obtain bs where a: "a = RecvBytes bs" "bs \<noteq> []" by blast
    obtain d q1 where d: "poke (q_data qu) (q_head qu) bs = Inr d"
      and q1: "queue_push_ex al (qu\<lparr>q_data := d\<rparr>) (of_nat (length bs)) = Inr q1"
      and rest: "recv_loop al fd q1 k1 = Inr (r, qu', k')"
      using run call a by (auto simp: res_simps)
    have parts: "drained (k_rx k fd) = bs @ drained (k_rx k1 fd)" using stream a by simp
    have le: "length bs \<le> unat (q_free qu)" using call a recv_call_bound by blast
    have lim: "length (q_bytes qu) + length bs \<le> 2 ^ 40" using "1.prems"(4) parts by simp
    note q1_ok = receive_laid [OF "1.prems"(2,3) a(2) le lim d q1]
    have "laid al q1 qu' \<and> length (q_bytes q1) \<le> length (q_bytes qu')"
      using "1.IH" [OF call [symmetric] a d q1 rest q1_ok(2) "1.prems"(3)] "1.prems"(4) parts q1_ok(3) by simp
    then show ?thesis using laid_trans [OF q1_ok(1), of qu'] q1_ok(3) by simp
  qed
qed

text \<open>Looking for a byte in what a queue shows of its contents.\<close>

lemma peek_byte:
  assumes "q_inv q" and "length (q_bytes q) < 2 ^ 31"
  shows "(case queue_peek q of (sz, peeked) \<Rightarrow>
      rbind (if sz > 0
             then (case peeked of None \<Rightarrow> Inl Uninitialised
                   | Some mem \<Rightarrow> rbind (peek mem 0 (nat sz)) (\<lambda>bs. Inr (ch \<in> set bs)))
             else Inr False) (f sz)) = f (int (length (q_bytes q))) (ch \<in> set (q_bytes q))"
proof -
  have "unat (q_size q) \<le> length (q_data q)" using assms(1) by (simp add: q_inv_def)
  then have "peek (q_data q) 0 (length (q_bytes q)) = Inr (q_bytes q)"
    unfolding q_inv_length [OF assms(1)] by (simp add: peek_in q_bytes_def)
  moreover have "unat (q_size q) < 2 ^ 31" using assms by (simp add: q_inv_length)
  note queue_peek_ok [OF assms(1) this]
  ultimately show ?thesis by (cases "q_bytes q = []") simp_all
qed

section \<open>The last byte of the buffer\<close>

text \<open>
  With fresh memory that is zero the last byte of a buffer stays NUL: receiving may fill the buffer to its end, but
  then it grows, so that the contents of the queue never reach the last byte.
\<close>

definition zeroed :: "allocator \<Rightarrow> bool" where
  "zeroed al \<longleftrightarrow> alloc_ok al \<and> fresh_all (\<lambda>c. c = NUL) al"

definition ends_nul :: "queue \<Rightarrow> bool" where
  "ends_nul q \<longleftrightarrow> q_data q \<noteq> [] \<and> last (q_data q) = NUL"

definition nuls :: "char list \<Rightarrow> bool" where
  "nuls xs \<longleftrightarrow> list_all (\<lambda>c. c = NUL) xs"

lemma nuls_simps [simp]: "nuls []" "nuls (x # xs) \<longleftrightarrow> x = NUL \<and> nuls xs" "nuls (xs @ ys) \<longleftrightarrow> nuls xs \<and> nuls ys"
  by (auto simp: nuls_def)

lemma nuls_drop: "nuls xs \<Longrightarrow> nuls (drop n xs)"
  by (auto simp: nuls_def list_all_iff dest: in_set_dropD)

lemma nuls_last: "nuls xs \<Longrightarrow> xs \<noteq> [] \<Longrightarrow> last xs = NUL"
  by (simp add: nuls_def list_all_iff)

lemma zeroed_nuls: "zeroed al \<Longrightarrow> list_all (fresh_byte al) xs \<Longrightarrow> nuls xs"
  unfolding zeroed_def fresh_all_def nuls_def fresh_byte_def list_all_iff by metis

lemma laid_ends_nul:
  assumes "laid al q q'" and "q_inv q'" and "ends_nul q" and "zeroed al"
  shows "ends_nul q'"
proof -
  obtain ext where ext: "q_data q' = q_bytes q' @ drop (length (q_bytes q')) (q_data q) @ ext" "list_all (fresh_byte al) ext"
    using assms(1) by (auto simp: laid_def over_def)
  have "length (q_bytes q') < length (q_data q')"
    unfolding q_inv_length [OF assms(2)] using assms(2) by (simp add: q_inv_def)
  then have rest: "drop (length (q_bytes q')) (q_data q) @ ext \<noteq> []" using ext(1) by (metis append_Nil2 less_irrefl)
  moreover have "last (drop (length (q_bytes q')) (q_data q) @ ext) = NUL"
    using rest assms(3) nuls_last [OF zeroed_nuls [OF assms(4) ext(2)]]
    by (cases "ext = []") (auto simp: ends_nul_def last_drop)
  ultimately show ?thesis using ext(1) by (simp add: ends_nul_def)
qed

section \<open>The C string in a buffer\<close>

definition q_text :: "queue \<Rightarrow> char list" where
  "q_text q = takeWhile (\<lambda>c. c \<noteq> NUL) (q_data q)"

text \<open>The text, then NULs to the end of the buffer, at least one.\<close>

definition q_clean :: "queue \<Rightarrow> bool" where
  "q_clean q \<longleftrightarrow> q_inv q \<and> NUL \<notin> set (q_bytes q) \<and> ends_nul q \<and> (\<exists>zs. nuls zs \<and> q_data q = q_text q @ zs)"

lemma takeWhile_nuls: "nuls zs \<Longrightarrow> NUL \<notin> set ts \<Longrightarrow> takeWhile (\<lambda>c. c \<noteq> NUL) (ts @ zs) = ts"
proof -
  assume "nuls zs" and "NUL \<notin> set ts"
  then have "\<forall>c \<in> set ts. c \<noteq> NUL" "takeWhile (\<lambda>c. c \<noteq> NUL) zs = []" by (auto, cases zs) simp_all
  then show ?thesis by simp
qed

lemma q_text_no_nul: "NUL \<notin> set (q_text q)"
  by (auto simp: q_text_def dest: set_takeWhileD)

lemma q_clean_string:
  assumes "q_clean q"
  shows "c_string (q_data q) = Inr (q_text q)"
proof -
  have "NUL \<in> set (q_data q)" using assms by (auto simp: q_clean_def ends_nul_def dest: last_in_set)
  then show ?thesis by (simp add: c_string_def q_text_def)
qed

text \<open>Laying text over a clean buffer gives a clean buffer, with the text laid over its text.\<close>

lemma laid_clean:
  assumes "laid al q q'" and "q_clean q" and "zeroed al" and "q_inv q'" and "NUL \<notin> set (q_bytes q')"
  shows "q_clean q'" and "q_text q' = over (q_bytes q') (q_text q)"
proof -
  let ?b = "q_bytes q'" and ?t = "q_text q"
  obtain ext where ext: "q_data q' = over ?b (q_data q) @ ext" "list_all (fresh_byte al) ext"
    using assms(1) by (auto simp: laid_def)
  obtain zs where zs: "nuls zs" "q_data q = ?t @ zs" using assms(2) by (auto simp: q_clean_def)
  define us where "us = drop (length ?b - length ?t) zs @ ext"
  have us: "nuls us" using zs(1) zeroed_nuls [OF assms(3) ext(2)] nuls_drop by (simp add: us_def)
  have "q_data q' = over ?b ?t @ us" by (simp add: ext(1) zs(2) over_def us_def)
  moreover have "NUL \<notin> set (over ?b ?t)"
    using assms(5) q_text_no_nul [of q] by (auto simp: over_def dest: in_set_dropD)
  ultimately have "q_text q' = over ?b ?t" "q_data q' = over ?b ?t @ us"
    using takeWhile_nuls [OF us] by (simp_all add: q_text_def [of q'])
  moreover have "ends_nul q'" using laid_ends_nul [OF assms(1,4) _ assms(3)] assms(2) by (simp add: q_clean_def)
  ultimately show "q_clean q'" "q_text q' = over ?b ?t" using assms(4,5) us by (auto simp: q_clean_def)
qed

lemma q_clean_flushed: "q_clean q \<Longrightarrow> q_clean (flushed q)" "q_text (flushed q) = q_text q"
  by (simp_all add: q_clean_def q_text_def ends_nul_def)

lemma recv_request_clean:
  assumes "recv_request al fd qu k = Inr (r, qu', k')" and "q_clean qu" and "zeroed al"
    and "NUL \<notin> set (drained (k_rx k fd))" and "length (q_bytes qu) + length (drained (k_rx k fd)) \<le> 2 ^ 40"
  shows "r = stop_code (k_rx k fd)" and "q_clean qu'" and "q_bytes qu' = q_bytes qu @ drained (k_rx k fd)"
    and "q_text qu' = over (q_bytes qu') (q_text qu)" and "k' = set_rx fd (remaining (k_rx k fd)) k"
proof -
  have inv: "q_inv qu" "NUL \<notin> set (q_bytes qu)" and al: "alloc_ok al"
    using assms(2,3) by (simp_all add: q_clean_def zeroed_def)
  have loop: "recv_loop al fd qu k = Inr (r, qu', k')"
    using assms(1) by (simp add: recv_request_def split: if_splits)
  have "returns (recv_loop al fd qu k)
     (\<lambda>(r, qu', k'). r = stop_code (k_rx k fd) \<and> q_inv qu' \<and> q_all (\<lambda>_. True) qu' \<and>
        q_bytes qu' = q_bytes qu @ drained (k_rx k fd) \<and> k' = set_rx fd (remaining (k_rx k fd)) k)"
    using inv(1) al assms(5) by (intro recv_loop_drains) (simp_all add: fresh_all_def q_all_def)
  then have post: "r = stop_code (k_rx k fd)" "q_inv qu'" "q_bytes qu' = q_bytes qu @ drained (k_rx k fd)"
    "k' = set_rx fd (remaining (k_rx k fd)) k" by (simp_all add: loop)
  have "laid al qu qu'" using recv_loop_laid [OF loop inv(1) al assms(5)] by simp
  moreover have "NUL \<notin> set (q_bytes qu')" using post(3) inv(2) assms(4) by simp
  ultimately show "q_clean qu'" "q_text qu' = over (q_bytes qu') (q_text qu)"
    using laid_clean [OF _ assms(2,3) post(2)] by simp_all
  show "r = stop_code (k_rx k fd)" "q_bytes qu' = q_bytes qu @ drained (k_rx k fd)"
    "k' = set_rx fd (remaining (k_rx k fd)) k" using post by simp_all
qed

end
