(* ===== verification/Server.thy ===== *)
theory Server
  imports Logger Sockets Epoll Buffer
begin

text \<open>
  What the four \<open>main\<close> functions have in common: the start-up sequence (log file,
  listening socket, epoll instance) and the shape of one return of \<open>epoll_wait\<close>. The outcomes of the
  calls made before the event loop are the fields of \<open>server_env\<close>.
\<close>

record server_env =
  env_log_file :: "nat option"
  env_gai :: int
  env_addrs :: "(int \<times> bool) list"
  env_listen :: "int \<Rightarrow> int"
  env_epollfd :: int

datatype wait = Wait_error | Timeout | Events "int list"

definition server_start :: "server_env \<Rightarrow> logger \<Rightarrow> kernel \<Rightarrow> (int \<times> logger \<times> kernel) res" where
  "server_start env L k =
     (case env_log_file env of
        None \<Rightarrow> Inl Exit_failure
      | Some log_fd \<Rightarrow>
          (case init_logs L log_fd LOG_TRACE of
             (r, L) \<Rightarrow>
               if r \<noteq> 0 then Inl Exit_failure
               else (case create_server (env_gai env) (env_addrs env) (env_listen env) of
                       (r, listen_fd, closed) \<Rightarrow>
                         if r \<noteq> 0 then Inl Exit_failure
                         else if env_epollfd env = -1 then Inl Exit_failure
                         else (case listen_fd of
                                 None \<Rightarrow> Inl Uninitialised
                               | Some fd \<Rightarrow>
                                   (case epoll_ctl_add fd [EPOLLIN, EPOLLRDHUP] (fold close_call closed k) of
                                      (r, k) \<Rightarrow>
                                        if r = -1 then Inl Exit_failure else Inr (fd, L, k))))))"

text \<open>The \<open>struct epoll_ctl_info\<close> the event loops build for the event on \<open>fd\<close>.\<close>

definition epci :: "int \<Rightarrow> int \<Rightarrow> epoll_ctl_info" where
  "epci epollfd fd = \<lparr>ci_efd = epollfd, ci_new_fd = fd, ci_event = Some fd\<rparr>"

lemma epci_fields [simp]:
  "ci_efd (epci e fd) = e" "ci_new_fd (epci e fd) = fd" "ci_event (epci e fd) = Some fd"
  by (simp_all add: epci_def)

text \<open>The end of a connection: deregister and close, or exit.\<close>

definition drop_connection :: "int \<Rightarrow> int \<Rightarrow> kernel \<Rightarrow> kernel res" where
  "drop_connection epollfd fd k =
     rbind (fd_poll_del_and_close (epci epollfd fd) k)
       (\<lambda>(r, k). if r = -1 then Inl Exit_failure else Inr k)"

lemma drop_connection_ok:
  assumes "fd \<in> registered k" and "k_ctl_fails k = []"
  shows "returns (drop_connection e fd k)
    (\<lambda>k'. registered k' = registered k - {fd} \<and> k_closed k' = fd # k_closed k \<and>
       k_out k' = k_out k \<and> k_rx k' = k_rx k \<and> k_tx k' = k_tx k \<and> k_ctl_fails k' = [] \<and>
       k_accept k' = k_accept k \<and> (k_inv k \<longrightarrow> k_inv k'))"
proof -
  obtain r k' where del: "fd_poll_del_and_close (epci e fd) k = Inr (r, k')"
    and post: "r = 0 \<and> registered k' = registered k - {fd} \<and> k_closed k' = fd # k_closed k \<and>
       k_out k' = k_out k \<and> k_rx k' = k_rx k \<and> k_tx k' = k_tx k \<and> k_ctl_fails k' = [] \<and>
       k_accept k' = k_accept k \<and> (k_inv k \<longrightarrow> k_inv k')"
    using poll_del_and_close_ok [of "epci e fd" k] assms by (auto simp: returns_iff)
  show ?thesis
    using post by (simp add: drop_connection_def del)
qed

lemma k_closed_fold_close: "k_closed (fold close_call fds k) = rev fds @ k_closed k"
  by (induction fds arbitrary: k) (simp_all add: close_call_def)

text \<open>
  A message whose bytes and whose buffer are free of percent signs prints without
  arguments, so \<open>sendall\<close> gets past its trace.
\<close>

definition no_percent :: "char \<Rightarrow> bool" where
  "no_percent c \<longleftrightarrow> c \<noteq> CHR ''%''"

lemma fmt_ok_no_percent: "\<forall>c \<in> set cs. no_percent c \<Longrightarrow> fmt_ok cs"
  by (induction cs) (auto simp: no_percent_def)

lemma sendall_no_percent:
  assumes "sfd \<noteq> 0" and "0 < n" and "n + 2 \<le> length mem" and "k_tx k sfd = []"
    and "\<forall>c \<in> set mem. no_percent c"
  shows "sendall sfd mem (int n) k = Inr (0, int n, put_out sfd (take n mem) k)"
proof (rule sendall_whole [OF assms(1-4)])
  have "\<forall>c \<in> set ((take (n + 2) mem)[n + 1 := NUL]). no_percent c"
  proof
    fix c assume "c \<in> set ((take (n + 2) mem)[n + 1 := NUL])"
    then have "c = NUL \<or> c \<in> set (take (n + 2) mem)"
      using set_update_subset_insert by fastforce
    then show "no_percent c"
      using assms(5) by (auto simp: no_percent_def NUL_def dest: in_set_takeD)
  qed
  then show "fmt_ok ((take (n + 2) mem)[n + 1 := NUL])"
    by (rule fmt_ok_no_percent)
qed

text \<open>
  The buffer a well-formed queue hands out is always large enough for the two bytes that
  \<open>sendall\<close> reads beyond the message.
\<close>

lemma sendall_queue:
  assumes "q_inv q" and "q_bytes q \<noteq> []" and "q_all no_percent q" and "fd \<noteq> 0" and "k_tx k fd = []"
  shows "sendall fd (q_data q) (int (length (q_bytes q))) k
    = Inr (0, int (length (q_bytes q)), put_out fd (q_bytes q) k)"
proof -
  have len: "length (q_bytes q) = unat (q_size q)"
    using assms(1) by (rule q_inv_length)
  have "length (q_bytes q) + 2 \<le> length (q_data q)"
    using assms(1) len by (simp add: q_inv_def)
  then show ?thesis
    using sendall_no_percent [of fd "length (q_bytes q)" "q_data q" k] assms len
    by (simp add: q_all_def q_bytes_def)
qed

section \<open>The start-up\<close>

text \<open>The start-up either exits or leaves the listening socket registered with epoll and log
  output going to the file only; every socket that could not be bound has been closed.\<close>

lemma server_start_ready:
  assumes "server_start env L k = Inr (fd, L', k')"
  shows "fd \<in> registered k' \<and> (fd, [EPOLLIN, EPOLLRDHUP]) \<in> set (k_interest k') \<and> l_quiet L' \<and>
    (\<exists>pre post. env_addrs env = pre @ (fd, True) # post \<and>
       k_closed k' = rev (filter (\<lambda>f. f \<noteq> -1) (map fst pre)) @ k_closed k)"
proof -
  from assms obtain closed r0 where srv: "bind_first (env_addrs env) = (Some fd, closed)"
    and add: "epoll_ctl_add fd [EPOLLIN, EPOLLRDHUP] (fold close_call closed k) = (r0, k')" "r0 \<noteq> -1"
    and log: "l_quiet L'"
    by (auto simp: server_start_def create_server_def init_logs_def log_set_quiet_def
        split: option.splits prod.splits if_splits)
  from bind_first_Some [OF srv] obtain pre post where
    addrs: "env_addrs env = pre @ (fd, True) # post" and closed: "closed = filter (\<lambda>f. f \<noteq> -1) (map fst pre)"
    by blast
  have "k_closed k' = rev closed @ k_closed k"
    using add by (auto simp: epoll_ctl_add_def ctl_resource_def Let_def k_closed_fold_close
        split: list.splits if_splits)
  then show ?thesis
    using add log addrs closed
    by (auto simp: epoll_ctl_add_def ctl_resource_def Let_def registered_def
        split: list.splits if_splits)
qed

definition sample_env :: server_env where
  "sample_env = \<lparr>env_log_file = Some 9, env_gai = 0, env_addrs = [(-1, False), (3, False), (4, True)],
     env_listen = (\<lambda>_. 0), env_epollfd = 5\<rparr>"

lemma sample_start:
  assumes "k_interest k = []" and "k_ctl_fails k = []"
  shows "\<exists>L' k'. server_start sample_env log_initial k = Inr (4, L', k') \<and>
    k_out k' = k_out k \<and> k_rx k' = k_rx k \<and> k_tx k' = k_tx k \<and> k_accept k' = k_accept k \<and>
    k_ctl_fails k' = [] \<and> registered k' = {4}"
proof -
  obtain c L' where logs: "init_logs log_initial 9 LOG_TRACE = (c, L')" by fastforce
  have c: "c = 0"
    using log_add_callback_ok [OF log_initial_inv, of "Some File_callback" 9 LOG_TRACE] logs
    by (auto simp: init_logs_def log_add_fp_def log_initial_installed MAX_CALLBACKS_def
        split: prod.splits if_splits)
  obtain k' where k': "epoll_ctl_add 4 [EPOLLIN, EPOLLRDHUP] (fold close_call [3] k) = (0, k')"
    and post: "k_out k' = k_out k" "k_rx k' = k_rx k" "k_tx k' = k_tx k" "k_accept k' = k_accept k"
      "k_ctl_fails k' = []" "registered k' = {4}"
    using assms by (simp add: epoll_ctl_add_def ctl_resource_def close_call_def registered_def)
  then have "server_start sample_env log_initial k = Inr (4, L', k')"
    using logs c by (auto simp: server_start_def sample_env_def create_server_def)
  with post show ?thesis by blast
qed

end
