(* ===== verification/Dll.thy ===== *)
theory Dll
  imports Prelude
begin

text \<open>
  Doubly linked lists of C structs with \<open>next\<close> and \<open>prev\<close> pointers, over an explicit heap. The two
  programs that keep clients in such a list (\<open>means-to-an-end/client-session.c\<close> and
  \<open>budget-chat/client.c\<close>) walk, extend and cut it in the same way; here are these operations over any
  struct that extends \<open>links\<close>, and what they do to the list of addresses they represent.
\<close>

section \<open>Heap\<close>

text \<open>
  A pointer is \<open>None\<close> for \<open>NULL\<close> or an address. The heap maps addresses to live structs; addresses
  are handed out once, so that the use of a freed struct is seen as such.
\<close>

type_synonym ptr = "nat option"

record links =
  n_next :: ptr
  n_prev :: ptr

record 'n heap =
  h_mem :: "nat \<rightharpoonup> 'n"
  h_brk :: nat

definition empty_heap :: "'n heap" where
  "empty_heap = \<lparr>h_mem = (\<lambda>_. None), h_brk = 0\<rparr>"

definition deref :: "'n heap \<Rightarrow> ptr \<Rightarrow> 'n res" where
  "deref h p =
     (case p of
        None \<Rightarrow> Inl Null_deref
      | Some a \<Rightarrow> (case h_mem h a of None \<Rightarrow> Inl Use_after_free | Some n \<Rightarrow> Inr n))"

definition h_new :: "'n \<Rightarrow> 'n heap \<Rightarrow> ptr \<times> 'n heap" where
  "h_new n h = (Some (h_brk h), h\<lparr>h_mem := (h_mem h)(h_brk h \<mapsto> n), h_brk := h_brk h + 1\<rparr>)"

definition h_put :: "nat \<Rightarrow> 'n \<Rightarrow> 'n heap \<Rightarrow> 'n heap" where
  "h_put a n h = h\<lparr>h_mem := (h_mem h)(a \<mapsto> n)\<rparr>"

text \<open>An assignment \<open>p->field = v\<close>, and \<open>free(p)\<close>.\<close>

definition h_set :: "ptr \<Rightarrow> ('n \<Rightarrow> 'n) \<Rightarrow> 'n heap \<Rightarrow> 'n heap res" where
  "h_set p f h = rbind (deref h p) (\<lambda>n. case p of None \<Rightarrow> Inl Null_deref | Some a \<Rightarrow> Inr (h_put a (f n) h))"

definition h_free :: "nat \<Rightarrow> 'n heap \<Rightarrow> 'n heap" where
  "h_free a h = h\<lparr>h_mem := (h_mem h)(a := None)\<rparr>"

lemma heap_fields [simp]:
  "h_mem (h_put a n h) = (h_mem h)(a \<mapsto> n)" "h_brk (h_put a n h) = h_brk h"
  "h_mem (h_free a h) = (h_mem h)(a := None)" "h_brk (h_free a h) = h_brk h"
  by (simp_all add: h_put_def h_free_def)

lemma deref_simps [simp]:
  "deref h None = Inl Null_deref"
  "h_mem h a = Some n \<Longrightarrow> deref h (Some a) = Inr n"
  by (simp_all add: deref_def)

lemma h_set_live: "h_mem h a = Some n \<Longrightarrow> h_set (Some a) f h = Inr (h_put a (f n) h)"
  by (simp add: h_set_def)

section \<open>Walking and changing a list\<close>

text \<open>
  The walks follow a pointer until it is \<open>NULL\<close>. A walk of more steps than addresses were ever handed
  out has met a struct twice and never ends: with this fuel \<open>Diverges\<close> is exactly that (lemma \<open>walk_from_fuel\<close>).
\<close>

fun walk :: "nat \<Rightarrow> ('n \<Rightarrow> ptr) \<Rightarrow> 'n heap \<Rightarrow> nat \<Rightarrow> ptr \<Rightarrow> nat res" where
  "walk fuel dir h here None = Inr here"
| "walk 0 dir h here (Some a) = Inl Diverges"
| "walk (Suc fuel) dir h here (Some a) = rbind (deref h (Some a)) (\<lambda>n. walk fuel dir h a (dir n))"

definition walk_from :: "('a links_scheme \<Rightarrow> ptr) \<Rightarrow> 'a links_scheme heap \<Rightarrow> ptr \<Rightarrow> ptr res" where
  "walk_from dir h p =
     (case p of
        None \<Rightarrow> Inl Null_deref
      | Some a \<Rightarrow> rbind (deref h p) (\<lambda>n. rbind (walk (h_brk h) dir h a (dir n)) (\<lambda>b. Inr (Some b))))"

text \<open>The search \<open>do { if (curr->id == id) ... curr = curr->next; } while (curr != NULL)\<close>.\<close>

fun search :: "nat \<Rightarrow> ('a links_scheme \<Rightarrow> bool) \<Rightarrow> 'a links_scheme heap \<Rightarrow> nat \<Rightarrow> ptr res" where
  "search 0 P h a = Inl Diverges"
| "search (Suc fuel) P h a =
     rbind (deref h (Some a)) (\<lambda>n.
       if P n then Inr (Some a)
       else (case n_next n of None \<Rightarrow> Inr None | Some b \<Rightarrow> search fuel P h b))"

text \<open>Taking a struct out of its list and freeing it; the result is the pointer left to the caller.\<close>

definition unlink :: "'a links_scheme heap \<Rightarrow> nat \<Rightarrow> 'a links_scheme heap res" where
  "unlink h a =
     rbind (deref h (Some a)) (\<lambda>n.
     rbind (if n_prev n \<noteq> None then h_set (n_prev n) (\<lambda>m. m\<lparr>n_next := n_next n\<rparr>) h else Inr h) (\<lambda>h.
     if n_next n \<noteq> None then h_set (n_next n) (\<lambda>m. m\<lparr>n_prev := n_prev n\<rparr>) h else Inr h))"

definition neighbour :: "'a links_scheme \<Rightarrow> ptr" where
  "neighbour n = (if n_prev n \<noteq> None then n_prev n else n_next n)"

text \<open>
  The loop \<open>do { ... curr = curr->next; } while (curr != NULL)\<close> with a body that may leave it: the
  body returns whether it does, and the new value of what the loop changes. The same over a list of structs
  is \<open>until_stop\<close>.
\<close>

fun traverse ::
  "nat \<Rightarrow> ('a links_scheme \<Rightarrow> 's \<Rightarrow> (bool \<times> 's) res) \<Rightarrow> 'a links_scheme heap \<Rightarrow> 's \<Rightarrow> nat \<Rightarrow> 's res" where
  "traverse 0 f h s a = Inl Diverges"
| "traverse (Suc fuel) f h s a =
     rbind (deref h (Some a)) (\<lambda>n.
     rbind (f n s) (\<lambda>(stop, s).
       if stop then Inr s
       else (case n_next n of None \<Rightarrow> Inr s | Some b \<Rightarrow> traverse fuel f h s b)))"

fun until_stop :: "('n \<Rightarrow> 's \<Rightarrow> (bool \<times> 's) res) \<Rightarrow> 's \<Rightarrow> 'n list \<Rightarrow> 's res" where
  "until_stop f s [] = Inr s"
| "until_stop f s (n # ns) = rbind (f n s) (\<lambda>(stop, s). if stop then Inr s else until_stop f s ns)"

section \<open>The fuel of the walks\<close>

text \<open>
  Following a pointer \<open>k\<close> times. A walk runs out of fuel exactly if it meets live structs all the way; if
  these are more than there are addresses it has met one twice, and goes on forever.
\<close>

definition follow :: "('n \<Rightarrow> ptr) \<Rightarrow> 'n heap \<Rightarrow> ptr \<Rightarrow> ptr" where
  "follow dir h p = Option.bind p (\<lambda>a. Option.bind (h_mem h a) dir)"

definition live :: "'n heap \<Rightarrow> ptr \<Rightarrow> bool" where
  "live h p \<longleftrightarrow> (case p of None \<Rightarrow> False | Some a \<Rightarrow> h_mem h a \<noteq> None)"

lemma walk_diverges:
  "walk fuel dir h b p = Inl Diverges \<longleftrightarrow>
   (\<forall>k < fuel. live h ((follow dir h ^^ k) p)) \<and> (follow dir h ^^ fuel) p \<noteq> None"
proof (induction fuel arbitrary: b p)
  case 0
  then show ?case by (cases p) simp_all
next
  case (Suc fuel)
  show ?case
  proof (cases "live h p")
    case True
    then obtain a n where a: "p = Some a" "h_mem h a = Some n" by (auto simp: live_def split: option.splits)
    then have "follow dir h p = dir n" by (simp add: follow_def)
    then show ?thesis
      using a Suc.IH [of a "dir n"] True
      by (simp add: All_less_Suc2 funpow_Suc_right del: funpow.simps)
  next
    case False
    then show ?thesis
      by (cases p) (auto simp: live_def deref_def All_less_Suc2 simp del: funpow.simps split: option.splits)
  qed
qed

lemma funpow_periodic:
  fixes f :: "'a \<Rightarrow> 'a"
  assumes "(f ^^ i) x = (f ^^ j) x" and "i < j" and "\<forall>k \<le> j. P ((f ^^ k) x)"
  shows "P ((f ^^ k) x)"
proof (induction k rule: less_induct)
  case (less k)
  show ?case
  proof (cases "k \<le> j")
    case True
    then show ?thesis using assms(3) by simp
  next
    case False
    then have k: "k = (k - j) + j" "(k - j) + i < k" using assms(2) by simp_all
    have "(f ^^ k) x = (f ^^ (k - j)) ((f ^^ j) x)"
      by (metis comp_apply funpow_add k(1))
    also have "\<dots> = (f ^^ ((k - j) + i)) x"
      by (simp add: assms(1) [symmetric] funpow_add)
    finally show ?thesis using less.IH [OF k(2)] by simp
  qed
qed

lemma walk_from_fuel:
  assumes "\<forall>a n. h_mem h a = Some n \<longrightarrow> a < h_brk h" and "deref h (Some a) = Inr n"
    and "walk (h_brk h) dir h a (dir n) = Inl Diverges"
  shows "walk fuel dir h a (dir n) = Inl Diverges"
proof -
  let ?f = "follow dir h" and ?N = "h_brk h"
  have n: "h_mem h a = Some n" using assms(2) by (auto simp: deref_def split: option.splits)
  have start: "dir n = ?f (Some a)" using n by (simp add: follow_def)
  have all: "\<forall>k \<le> ?N. live h ((?f ^^ k) (Some a))"
  proof (intro allI impI)
    fix k assume "k \<le> ?N"
    then show "live h ((?f ^^ k) (Some a))"
      using assms(3) n unfolding walk_diverges start
      by (cases k) (simp_all add: live_def funpow_Suc_right Suc_le_eq del: funpow.simps(2))
  qed
  let ?g = "\<lambda>k. the ((?f ^^ k) (Some a))"
  have "?g ` {..?N} \<subseteq> {..<?N}"
    using all assms(1) by (auto simp: live_def split: option.splits)
  then have "card (?g ` {..?N}) \<le> ?N"
    using card_mono [of "{..<?N}"] by simp
  then have "\<not> inj_on ?g {..?N}"
    using card_image [of ?g "{..?N}"] by auto
  then obtain i j where ij: "i < j" "j \<le> ?N" "?g i = ?g j"
    by (auto simp: inj_on_def) (metis nat_neq_iff)
  have "(?f ^^ i) (Some a) = (?f ^^ j) (Some a)"
    using all ij by (auto simp: live_def split: option.splits) (metis le_trans less_imp_le option.collapse option.distinct(1))
  then have forever: "live h ((?f ^^ k) (Some a))" for k
    by (rule funpow_periodic [OF _ ij(1)]) (use all ij(2) in auto)
  then have "live h ((?f ^^ k) (dir n))" for k
    unfolding start using forever [of "Suc k"] by (simp add: funpow_Suc_right del: funpow.simps(2))
  then show ?thesis
    unfolding walk_diverges by (metis live_def option.case(1))
qed

section \<open>Segments\<close>

text \<open>
  \<open>lseg m p xs q\<close>: the structs at the addresses \<open>xs\<close> are linked in this order, with \<open>p\<close> before
  the first and \<open>q\<close> after the last.
\<close>

definition head_or :: "nat list \<Rightarrow> ptr \<Rightarrow> ptr" where
  "head_or xs q = (case xs of [] \<Rightarrow> q | x # _ \<Rightarrow> Some x)"

definition last_or :: "ptr \<Rightarrow> nat list \<Rightarrow> ptr" where
  "last_or p xs = (if xs = [] then p else Some (last xs))"

lemma head_or_simps [simp]: "head_or [] q = q" "head_or (x # xs) q = Some x"
  by (simp_all add: head_or_def)

lemma head_or_append [simp]: "head_or (xs @ ys) q = head_or xs (head_or ys q)"
  by (simp add: head_or_def split: list.split)

lemma last_or_simps [simp]: "last_or p [] = p" "last_or p (x # xs) = last_or (Some x) xs"
  by (simp_all add: last_or_def)

lemma last_or_append [simp]: "last_or p (xs @ ys) = last_or (last_or p xs) ys"
  by (simp add: last_or_def)

fun lseg :: "(nat \<rightharpoonup> 'a links_scheme) \<Rightarrow> ptr \<Rightarrow> nat list \<Rightarrow> ptr \<Rightarrow> bool" where
  "lseg m p [] q \<longleftrightarrow> True"
| "lseg m p (x # xs) q \<longleftrightarrow>
     (case m x of None \<Rightarrow> False | Some n \<Rightarrow> n_prev n = p \<and> n_next n = head_or xs q \<and> lseg m (Some x) xs q)"

lemma lseg_append: "lseg m p (xs @ ys) q \<longleftrightarrow> lseg m p xs (head_or ys q) \<and> lseg m (last_or p xs) ys q"
  by (induction xs arbitrary: p) (auto split: option.splits)

lemma lseg_frame [simp]: "a \<notin> set xs \<Longrightarrow> lseg (m(a := v)) p xs q = lseg m p xs q"
  by (induction xs arbitrary: p) (auto split: option.splits)

lemma lseg_live: "lseg m p xs q \<Longrightarrow> x \<in> set xs \<Longrightarrow> m x \<noteq> None"
  by (induction xs arbitrary: p) (auto split: option.splits)

lemma lseg_same_links:
  "m a = Some n \<Longrightarrow> n_prev n' = n_prev n \<Longrightarrow> n_next n' = n_next n \<Longrightarrow>
   lseg (m(a \<mapsto> n')) p xs q = lseg m p xs q"
  by (induction xs arbitrary: p) (auto split: option.splits)

lemma lseg_cong: "(\<And>x. x \<in> set xs \<Longrightarrow> m' x = m x) \<Longrightarrow> lseg m p xs q = lseg m' p xs q"
  by (induction xs arbitrary: p) (auto split: option.splits)

text \<open>The whole list, as the variable of the program sees it: a pointer to any of its elements.\<close>

definition dll :: "'a links_scheme heap \<Rightarrow> nat list \<Rightarrow> bool" where
  "dll h xs \<longleftrightarrow> lseg (h_mem h) None xs None \<and> distinct xs \<and> (\<forall>x \<in> set xs. x < h_brk h)"

lemma dll_length: "dll h xs \<Longrightarrow> length xs \<le> h_brk h"
proof -
  assume "dll h xs"
  then have "set xs \<subseteq> {..<h_brk h}" and "distinct xs" by (auto simp: dll_def)
  then show ?thesis
    using card_mono [of "{..<h_brk h}" "set xs"] by (simp add: distinct_card)
qed

lemma dll_split:
  assumes "dll h (xs @ a # ys)"
  obtains n where "h_mem h a = Some n" "n_prev n = last_or None xs" "n_next n = head_or ys None"
    "lseg (h_mem h) None xs (Some a)" "lseg (h_mem h) (Some a) ys None"
    "a \<notin> set xs" "a \<notin> set ys" "set xs \<inter> set ys = {}" "distinct xs" "distinct ys"
  using assms by (auto simp: dll_def lseg_append split: option.splits)

lemma walk_back:
  "lseg (h_mem h) None xs (Some here) \<Longrightarrow> length xs \<le> fuel \<Longrightarrow>
   walk fuel n_prev h here (last_or None xs) = Inr (the (head_or xs (Some here)))"
proof (induction xs arbitrary: here fuel rule: rev_induct)
  case (snoc x xs)
  then obtain n where n: "h_mem h x = Some n" "n_prev n = last_or None xs"
    by (auto simp: lseg_append split: option.splits)
  obtain fuel' where "fuel = Suc fuel'" using snoc.prems(2) by (cases fuel) auto
  then show ?case
    using snoc.IH [of x fuel'] snoc.prems n by (simp add: lseg_append)
qed simp

lemma walk_forward:
  "lseg (h_mem h) (Some here) xs None \<Longrightarrow> length xs \<le> fuel \<Longrightarrow>
   walk fuel n_next h here (head_or xs None) = Inr (the (last_or (Some here) xs))"
proof (induction xs arbitrary: here fuel)
  case (Cons x xs)
  then obtain n where n: "h_mem h x = Some n" "n_next n = head_or xs None"
    by (auto split: option.splits)
  obtain fuel' where "fuel = Suc fuel'" using Cons.prems(2) by (cases fuel) auto
  then show ?case
    using Cons.IH [of x fuel'] Cons.prems n by simp
qed simp

lemma walk_from_first:
  assumes "dll h xs" and "a \<in> set xs"
  shows "walk_from n_prev h (Some a) = Inr (Some (hd xs))"
proof -
  obtain ys zs where xs: "xs = ys @ a # zs" using assms(2) by (auto dest: split_list)
  with assms(1) obtain n where n: "h_mem h a = Some n" "n_prev n = last_or None ys"
    "lseg (h_mem h) None ys (Some a)"
    by (auto elim: dll_split)
  have "length ys \<le> h_brk h" using dll_length [OF assms(1)] xs by simp
  from walk_back [OF n(3) this] show ?thesis
    using n by (cases ys) (simp_all add: walk_from_def xs)
qed

lemma walk_from_last:
  assumes "dll h xs" and "a \<in> set xs"
  shows "walk_from n_next h (Some a) = Inr (Some (last xs))"
proof -
  obtain ys zs where xs: "xs = ys @ a # zs" using assms(2) by (auto dest: split_list)
  with assms(1) obtain n where n: "h_mem h a = Some n" "n_next n = head_or zs None"
    "lseg (h_mem h) (Some a) zs None"
    by (auto elim: dll_split)
  have "length zs \<le> h_brk h" using dll_length [OF assms(1)] xs by simp
  from walk_forward [OF n(3) this] show ?thesis
    using n by (cases zs) (simp_all add: walk_from_def xs last_or_def)
qed

lemma search_lseg:
  "lseg (h_mem h) p (x # xs) None \<Longrightarrow> length xs < fuel \<Longrightarrow>
   search fuel P h x = Inr (find (\<lambda>a. P (the (h_mem h a))) (x # xs))"
proof (induction xs arbitrary: p x fuel)
  case Nil
  then obtain n fuel' where "h_mem h x = Some n" "n_next n = None" "fuel = Suc fuel'"
    by (cases fuel) (auto split: option.splits)
  then show ?case by simp
next
  case (Cons y xs)
  then obtain n fuel' where "h_mem h x = Some n" "n_next n = Some y" "fuel = Suc fuel'"
    by (cases fuel) (auto split: option.splits)
  then show ?case
    using Cons.IH [of "Some x" y fuel'] Cons.prems by simp
qed

lemma search_dll:
  assumes "dll h xs" and "xs \<noteq> []"
  shows "search (Suc (h_brk h)) P h (hd xs) = Inr (find (\<lambda>a. P (the (h_mem h a))) xs)"
  using assms dll_length [OF assms(1)] search_lseg [of h None "hd xs" "tl xs" "Suc (h_brk h)" P]
  by (cases xs) (simp_all add: dll_def)

lemma traverse_lseg:
  "lseg (h_mem h) p (x # xs) None \<Longrightarrow> length xs < fuel \<Longrightarrow>
   traverse fuel f h s x = until_stop f s (map (\<lambda>a. the (h_mem h a)) (x # xs))"
proof (induction xs arbitrary: p x fuel s)
  case Nil
  then obtain n fuel' where "h_mem h x = Some n" "n_next n = None" "fuel = Suc fuel'"
    by (cases fuel) (auto split: option.splits)
  then show ?case by (auto simp: rbind_def split: sum.splits prod.splits)
next
  case (Cons y xs)
  then obtain n fuel' where n: "h_mem h x = Some n" "n_next n = Some y" "fuel = Suc fuel'"
    by (cases fuel) (auto split: option.splits)
  then show ?case
    using Cons.IH [of "Some x" y fuel'] Cons.prems by (auto intro!: rbind_cong)
qed

lemma traverse_dll:
  assumes "dll h xs" and "xs \<noteq> []"
  shows "traverse (Suc (h_brk h)) f h s (hd xs) = until_stop f s (map (\<lambda>a. the (h_mem h a)) xs)"
  using assms dll_length [OF assms(1)] traverse_lseg [of h None "hd xs" "tl xs" "Suc (h_brk h)" f s]
  by (cases xs) (simp_all add: dll_def)

text \<open>The caller's pointer is \<open>NULL\<close> exactly for the empty list.\<close>

definition points_into :: "ptr \<Rightarrow> nat list \<Rightarrow> bool" where
  "points_into p xs \<longleftrightarrow> (case p of None \<Rightarrow> xs = [] | Some a \<Rightarrow> a \<in> set xs)"

lemma neighbour_points_into:
  "n_prev n = last_or None xs \<Longrightarrow> n_next n = head_or ys None \<Longrightarrow> points_into (neighbour n) (xs @ ys)"
  by (auto simp: points_into_def neighbour_def last_or_def head_or_def split: list.splits)

lemma h_put_twice [simp]: "h_put a n (h_put a m h) = h_put a n h"
  by (simp add: h_put_def)

text \<open>The list as it is read off the heap: the addresses from the first element on.\<close>

fun chain :: "nat \<Rightarrow> 'a links_scheme heap \<Rightarrow> ptr \<Rightarrow> nat list" where
  "chain fuel h None = []"
| "chain 0 h (Some a) = []"
| "chain (Suc fuel) h (Some a) = a # (case h_mem h a of None \<Rightarrow> [] | Some n \<Rightarrow> chain fuel h (n_next n))"

definition addresses :: "'a links_scheme heap \<Rightarrow> ptr \<Rightarrow> nat list" where
  "addresses h p = (case walk_from n_prev h p of Inl _ \<Rightarrow> [] | Inr q \<Rightarrow> chain (h_brk h) h q)"

lemma chain_lseg: "lseg (h_mem h) p xs None \<Longrightarrow> length xs \<le> fuel \<Longrightarrow> chain fuel h (head_or xs None) = xs"
proof (induction xs arbitrary: p fuel)
  case (Cons x xs)
  then obtain fuel' where "fuel = Suc fuel'" by (cases fuel) auto
  with Cons show ?case by (auto split: option.splits)
qed simp

lemma addresses_dll:
  assumes "dll h xs" and "points_into p xs"
  shows "addresses h p = xs"
proof (cases p)
  case None
  with assms(2) show ?thesis by (simp add: points_into_def addresses_def walk_from_def)
next
  case (Some a)
  with assms(2) have "a \<in> set xs" by (simp add: points_into_def)
  then have "walk_from n_prev h p = Inr (head_or xs None)"
    using walk_from_first [OF assms(1)] Some by (cases xs) simp_all
  then show ?thesis
    using chain_lseg [of h None xs "h_brk h"] dll_length [OF assms(1)] assms(1)
    by (simp add: addresses_def dll_def)
qed

section \<open>Contents\<close>

text \<open>What the structs hold besides their links, in list order.\<close>

definition payloads :: "'a links_scheme heap \<Rightarrow> nat list \<Rightarrow> 'a list" where
  "payloads h xs = map (\<lambda>a. links.more (the (h_mem h a))) xs"

lemma payloads_simps [simp]:
  "payloads h [] = []"
  "payloads h (x # xs) = links.more (the (h_mem h x)) # payloads h xs"
  "payloads h (xs @ ys) = payloads h xs @ payloads h ys"
  "length (payloads h xs) = length xs"
  by (simp_all add: payloads_def)

lemma payloads_cong: "(\<And>a. a \<in> set xs \<Longrightarrow> links.more (the (h_mem h' a)) = links.more (the (h_mem h a))) \<Longrightarrow>
  payloads h' xs = payloads h xs"
  by (simp add: payloads_def)

lemma links_more_update [simp]:
  "links.more (n\<lparr>n_next := p\<rparr>) = links.more n" "links.more (n\<lparr>n_prev := p\<rparr>) = links.more n"
  by (cases n; simp)+

lemma payloads_put:
  "a \<notin> set xs \<Longrightarrow> payloads (h_put a n h) xs = payloads h xs"
  by (rule payloads_cong) auto

text \<open>Updating the payload of one struct in place.\<close>

lemma dll_put_payload:
  assumes "dll h (xs @ a # ys)" and "h_mem h a = Some n"
    and "n_prev n' = n_prev n" and "n_next n' = n_next n"
  shows "dll (h_put a n' h) (xs @ a # ys) \<and>
    payloads (h_put a n' h) (xs @ a # ys) = payloads h xs @ links.more n' # payloads h ys"
proof -
  have "a \<notin> set xs" "a \<notin> set ys" using assms(1) by (auto elim: dll_split)
  then show ?thesis
    using assms by (auto simp: dll_def lseg_same_links payloads_put)
qed

section \<open>Cutting\<close>

lemma set_last_next:
  assumes "lseg (h_mem h) p xs q" and "distinct xs" and "xs \<noteq> []"
  obtains n where "h_mem h (last xs) = Some n"
    and "lseg (h_mem (h_put (last xs) (n\<lparr>n_next := r\<rparr>) h)) p xs r"
proof -
  obtain ys x where xs: "xs = ys @ [x]" using assms(3) by (cases xs rule: rev_cases) auto
  with assms that show ?thesis by (auto simp: lseg_append split: option.splits)
qed

lemma set_head_prev:
  assumes "lseg (h_mem h) p (x # xs) q" and "distinct (x # xs)"
  obtains n where "h_mem h x = Some n" and "lseg (h_mem (h_put x (n\<lparr>n_prev := r\<rparr>) h)) r (x # xs) q"
  using assms that by (auto split: option.splits)

lemma unlink_prev:
  assumes "lseg (h_mem h) None xs (Some a)" and "distinct xs"
  obtains h1 where "(if last_or None xs \<noteq> None then h_set (last_or None xs) (\<lambda>m. m\<lparr>n_next := nx\<rparr>) h else Inr h) = Inr h1"
    and "lseg (h_mem h1) None xs nx" and "\<forall>b. b \<notin> set xs \<longrightarrow> h_mem h1 b = h_mem h b"
    and "h_brk h1 = h_brk h" and "payloads h1 xs = payloads h xs"
proof (cases "xs = []")
  case True
  then show ?thesis using that [of h] by simp
next
  case False
  obtain m where m: "h_mem h (last xs) = Some m"
    "lseg (h_mem (h_put (last xs) (m\<lparr>n_next := nx\<rparr>) h)) None xs nx"
    using set_last_next [OF assms False] by blast
  show ?thesis
  proof (rule that [of "h_put (last xs) (m\<lparr>n_next := nx\<rparr>) h"])
    show "(if last_or None xs \<noteq> None then h_set (last_or None xs) (\<lambda>m. m\<lparr>n_next := nx\<rparr>) h else Inr h)
        = Inr (h_put (last xs) (m\<lparr>n_next := nx\<rparr>) h)"
      using m(1) False by (simp add: last_or_def h_set_live)
  qed (use m False in \<open>auto intro!: payloads_cong\<close>)
qed

lemma unlink_next:
  assumes "lseg (h_mem h) (Some a) ys None" and "distinct ys"
  obtains h1 where "(if head_or ys None \<noteq> None then h_set (head_or ys None) (\<lambda>m. m\<lparr>n_prev := pv\<rparr>) h else Inr h) = Inr h1"
    and "lseg (h_mem h1) pv ys None" and "\<forall>b. b \<notin> set ys \<longrightarrow> h_mem h1 b = h_mem h b"
    and "h_brk h1 = h_brk h" and "payloads h1 ys = payloads h ys"
proof (cases ys)
  case Nil
  then show ?thesis using that [of h] by simp
next
  case (Cons y ys')
  obtain m where m: "h_mem h y = Some m" "lseg (h_mem (h_put y (m\<lparr>n_prev := pv\<rparr>) h)) pv ys None"
    using set_head_prev [of h "Some a" y ys' None] assms Cons by metis
  show ?thesis
  proof (rule that [of "h_put y (m\<lparr>n_prev := pv\<rparr>) h"])
    show "(if head_or ys None \<noteq> None then h_set (head_or ys None) (\<lambda>m. m\<lparr>n_prev := pv\<rparr>) h else Inr h)
        = Inr (h_put y (m\<lparr>n_prev := pv\<rparr>) h)"
      using m(1) Cons by (simp add: h_set_live)
  qed (use m Cons in \<open>auto intro!: payloads_cong\<close>)
qed

lemma unlink_ok:
  assumes "dll h (xs @ a # ys)"
  shows "returns (unlink h a) (\<lambda>h'. dll (h_free a h') (xs @ ys) \<and>
    payloads (h_free a h') (xs @ ys) = payloads h (xs @ ys) \<and> h_brk h' = h_brk h \<and>
    (\<forall>b. b \<notin> set (xs @ a # ys) \<longrightarrow> h_mem h' b = h_mem h b))"
proof -
  obtain n where n: "h_mem h a = Some n" "n_prev n = last_or None xs" "n_next n = head_or ys None"
    and segs: "lseg (h_mem h) None xs (Some a)" "lseg (h_mem h) (Some a) ys None"
    and sep: "a \<notin> set xs" "a \<notin> set ys" "set xs \<inter> set ys = {}" "distinct xs" "distinct ys"
    using assms by (rule dll_split)
  have small: "\<forall>x \<in> set (xs @ ys). x < h_brk h" using assms by (simp add: dll_def)
  obtain h1 where h1: "(if n_prev n \<noteq> None then h_set (n_prev n) (\<lambda>m. m\<lparr>n_next := n_next n\<rparr>) h else Inr h) = Inr h1"
    and seg1: "lseg (h_mem h1) None xs (head_or ys None)"
    and keep1: "\<forall>b. b \<notin> set xs \<longrightarrow> h_mem h1 b = h_mem h b" "h_brk h1 = h_brk h"
      "payloads h1 xs = payloads h xs"
    using unlink_prev [OF segs(1) sep(4), of "n_next n"] n(2,3) by metis
  have "lseg (h_mem h1) (Some a) ys None"
    using segs(2) keep1(1) sep(3) by (rule_tac lseg_cong [THEN iffD1]) auto
  from unlink_next [OF this sep(5), of "n_prev n"] n(2,3)
  obtain h2 where h2: "(if n_next n \<noteq> None then h_set (n_next n) (\<lambda>m. m\<lparr>n_prev := n_prev n\<rparr>) h1 else Inr h1) = Inr h2"
    and seg2: "lseg (h_mem h2) (last_or None xs) ys None"
    and keep2: "\<forall>b. b \<notin> set ys \<longrightarrow> h_mem h2 b = h_mem h1 b" "h_brk h2 = h_brk h1"
      "payloads h2 ys = payloads h1 ys"
    by metis
  have "lseg (h_mem h2) None xs (head_or ys None)"
    using seg1 keep2(1) sep(3) by (rule_tac lseg_cong [THEN iffD1]) auto
  then have "dll (h_free a h2) (xs @ ys)"
    using seg2 sep small keep1(2) keep2(2) by (simp add: dll_def lseg_append)
  moreover have "payloads (h_free a h2) xs = payloads h2 xs" "payloads (h_free a h2) ys = payloads h2 ys"
    using sep(1,2) by (auto intro!: payloads_cong)
  moreover have "payloads h2 xs = payloads h1 xs" "payloads h1 ys = payloads h ys"
    using keep1(1) keep2(1) sep(3) by (metis payloads_cong disjoint_iff)+
  ultimately show ?thesis
    using keep1 keep2 n(1) h1 h2 by (simp add: unlink_def)
qed

section \<open>Extending\<close>

text \<open>A new struct after the last one: store the pointer, then set the back pointer.\<close>

definition link_after :: "'a links_scheme heap \<Rightarrow> ptr \<Rightarrow> 'a links_scheme \<Rightarrow> 'a links_scheme heap res" where
  "link_after h p n =
     (case h_new n h of (q, h) \<Rightarrow>
        rbind (h_set p (\<lambda>m. m\<lparr>n_next := q\<rparr>) h) (\<lambda>h. h_set q (\<lambda>m. m\<lparr>n_prev := p\<rparr>) h))"

lemma link_after_ok:
  assumes "dll h xs" and "xs \<noteq> []" and "n_next n = None"
  shows "returns (link_after h (Some (last xs)) n) (\<lambda>h'. dll h' (xs @ [h_brk h]) \<and>
    payloads h' (xs @ [h_brk h]) = payloads h xs @ [links.more n] \<and>
    h_brk h' = h_brk h + 1)"
proof -
  let ?b = "h_brk h"
  define h1 where "h1 = h\<lparr>h_mem := (h_mem h)(?b \<mapsto> n), h_brk := ?b + 1\<rparr>"
  have fresh: "?b \<notin> set xs" using assms(1) by (auto simp: dll_def)
  have seg: "lseg (h_mem h1) None xs None" "distinct xs"
    using assms(1) fresh by (simp_all add: h1_def dll_def)
  obtain m where m: "h_mem h1 (last xs) = Some m"
    "lseg (h_mem (h_put (last xs) (m\<lparr>n_next := Some ?b\<rparr>) h1)) None xs (Some ?b)"
    using set_last_next [OF seg assms(2)] by blast
  define h2 where "h2 = h_put (last xs) (m\<lparr>n_next := Some ?b\<rparr>) h1"
  have last: "last xs \<noteq> ?b" using fresh assms(2) by (metis last_in_set)
  have h2: "h_mem h2 ?b = Some n" using last by (simp add: h2_def h1_def)
  define h3 where "h3 = h_put ?b (n\<lparr>n_prev := Some (last xs)\<rparr>) h2"
  have "link_after h (Some (last xs)) n = Inr h3"
    using m(1) h2 by (simp add: link_after_def h_new_def h1_def [symmetric, simplified] h_set_live h2_def [symmetric] h3_def)
  moreover have "lseg (h_mem h3) None xs (Some ?b)"
    using m(2) fresh by (simp add: h3_def h2_def [symmetric])
  then have "dll h3 (xs @ [?b])"
    using fresh seg(2) assms by (auto simp: dll_def lseg_append h3_def h2_def h1_def last_or_def less_Suc_eq)
  moreover have "payloads h3 xs = payloads h xs"
    using m(1) fresh by (intro payloads_cong) (auto simp: h3_def h2_def h1_def)
  ultimately show ?thesis
    by (simp add: h3_def h2_def h1_def)
qed

end
