(* ===== verification/Prices.thy ===== *)
theory Prices
  imports Prelude
begin

text \<open>
  \<open>means-to-an-end/asset-prices.c\<close>: the growing array of prices a client has inserted. An array is
  a list of cells, \<open>None\<close> for a cell never written; \<open>sizeof (struct asset_price)\<close> is 8,
  \<open>sizeof (struct asset_prices)\<close> 24. Timestamps, prices and times are 32-bit words read signed.
\<close>

section \<open>Data and operations\<close>

record asset_price =
  ap_timestamp :: int32_t
  ap_price :: int32_t

record asset_price_query =
  aq_mintime :: int32_t
  aq_maxtime :: int32_t

record asset_prices =
  ps_data :: "asset_price option list option"
  ps_size :: size_t
  ps_capacity :: size_t

definition realloc_cells :: "'a option list \<Rightarrow> nat \<Rightarrow> 'a option list" where
  "realloc_cells old n = take n old @ replicate (n - length old) None"

text \<open>\<open>reallocarray\<close> also fails when the size in bytes does not fit a \<open>size_t\<close>.\<close>

definition asset_prices_init_data :: "allocator \<Rightarrow> asset_prices \<Rightarrow> size_t \<Rightarrow> asset_prices res" where
  "asset_prices_init_data al ps capacity =
     (if \<not> capacity > 0 then Inl Assert_failed
      else if \<not> capacity > ps_capacity ps then Inl Assert_failed
      else if unat capacity * 8 \<ge> 2 ^ 64 \<or> al (unat capacity * 8) = None then Inl Assert_failed
      else Inr (ps\<lparr>ps_data := Some (realloc_cells (case ps_data ps of None \<Rightarrow> [] | Some d \<Rightarrow> d) (unat capacity)),
                   ps_capacity := capacity\<rparr>))"

definition asset_prices_init :: "allocator \<Rightarrow> size_t \<Rightarrow> asset_prices res" where
  "asset_prices_init al capacity =
     (if \<not> capacity > 0 then Inl Assert_failed
      else if al 24 = None then Inl Assert_failed
      else rbind (asset_prices_init_data al \<lparr>ps_data = None, ps_size = 0, ps_capacity = 0\<rparr> capacity)
             (\<lambda>ps. Inr (ps\<lparr>ps_size := 0\<rparr>)))"

definition asset_prices_free :: "asset_prices option \<Rightarrow> asset_prices option res" where
  "asset_prices_free pps =
     (case pps of
        None \<Rightarrow> Inl Assert_failed
      | Some ps \<Rightarrow> if ps_data ps = None then Inl Assert_failed else Inr None)"

definition asset_prices_push :: "allocator \<Rightarrow> asset_prices \<Rightarrow> asset_price \<Rightarrow> asset_prices res" where
  "asset_prices_push al ps data =
     (if ps_data ps = None then Inl Assert_failed
      else rbind (if ps_size ps + 1 \<ge> ps_capacity ps
                  then asset_prices_init_data al ps (ps_capacity ps * 2) else Inr ps)
        (\<lambda>ps. case ps_data ps of
            None \<Rightarrow> Inl Null_deref
          | Some d \<Rightarrow>
              if unat (ps_size ps) < length d
              then Inr (ps\<lparr>ps_data := Some (d[unat (ps_size ps) := Some data]), ps_size := ps_size ps + 1\<rparr>)
              else Inl Out_of_bounds))"

definition read_cell :: "'a option list \<Rightarrow> nat \<Rightarrow> 'a res" where
  "read_cell d k =
     (if k < length d then (case d ! k of None \<Rightarrow> Inl Uninitialised | Some p \<Rightarrow> Inr p) else Inl Out_of_bounds)"

text \<open>The loops \<open>for (; k < ps->size; k++)\<close>.\<close>

function duplicate_loop :: "asset_price option list \<Rightarrow> nat \<Rightarrow> int32_t \<Rightarrow> nat \<Rightarrow> bool res" where
  "duplicate_loop d sz ts k =
     (if k < sz
      then rbind (read_cell d k) (\<lambda>p. if ap_timestamp p = ts then Inr True else duplicate_loop d sz ts (k + 1))
      else Inr False)"
  by pat_completeness auto

termination duplicate_loop
  by (relation "measure (\<lambda>(d, sz, ts, k). sz - k)") auto

definition asset_prices_duplicate_timestamp_check :: "asset_prices \<Rightarrow> int32_t \<Rightarrow> bool res" where
  "asset_prices_duplicate_timestamp_check ps ts =
     (case ps_data ps of
        None \<Rightarrow> Inl Assert_failed
      | Some d \<Rightarrow> duplicate_loop d (unat (ps_size ps)) ts 0)"

text \<open>
  \<open>mean\<close> is an \<open>int64_t\<close> and \<open>num_prices\<close> an \<open>int32_t\<close>; adding beyond their range is undefined.
\<close>

function query_loop ::
  "asset_price option list \<Rightarrow> nat \<Rightarrow> asset_price_query \<Rightarrow> nat \<Rightarrow> int \<Rightarrow> int \<Rightarrow> (int \<times> int) res" where
  "query_loop d sz pq k mean num =
     (if k < sz
      then rbind (read_cell d k) (\<lambda>p.
        if sint (aq_mintime pq) \<le> sint (ap_timestamp p) \<and> sint (ap_timestamp p) \<le> sint (aq_maxtime pq)
        then (if mean + sint (ap_price p) \<notin> {- (2 ^ 63)..< 2 ^ 63} \<or> num + 1 \<ge> 2 ^ 31 then Inl Signed_overflow
              else query_loop d sz pq (k + 1) (mean + sint (ap_price p)) (num + 1))
        else query_loop d sz pq (k + 1) mean num)
      else Inr (mean, num))"
  by pat_completeness auto

termination query_loop
  by (relation "measure (\<lambda>(d, sz, pq, k, mean, num). sz - k)") auto

declare duplicate_loop.simps [simp del] query_loop.simps [simp del]

definition asset_prices_query :: "asset_prices \<Rightarrow> asset_price_query \<Rightarrow> int32_t res" where
  "asset_prices_query ps pq =
     (case ps_data ps of
        None \<Rightarrow> Inl Assert_failed
      | Some d \<Rightarrow>
          if ps_size ps = 0 then Inr 0
          else rbind (query_loop d (unat (ps_size ps)) pq 0 0 0)
                 (\<lambda>(mean, num). Inr (if num = 0 then 0 else word_of_int (mean sdiv num))))"

section \<open>The array as a list of prices\<close>

type_synonym prices = "(int \<times> int) list"

definition price_pair :: "asset_price \<Rightarrow> int \<times> int" where
  "price_pair p = (sint (ap_timestamp p), sint (ap_price p))"

definition ps_inv :: "asset_prices \<Rightarrow> bool" where
  "ps_inv ps \<longleftrightarrow>
     (case ps_data ps of
        None \<Rightarrow> False
      | Some d \<Rightarrow> length d = unat (ps_capacity ps) \<and> unat (ps_size ps) < unat (ps_capacity ps) \<and>
          unat (ps_capacity ps) \<le> 2 ^ 40 \<and> None \<notin> set (take (unat (ps_size ps)) d))"

definition ps_cells :: "asset_prices \<Rightarrow> asset_price list" where
  "ps_cells ps = map the (take (unat (ps_size ps)) (the (ps_data ps)))"

definition ps_prices :: "asset_prices \<Rightarrow> prices" where
  "ps_prices ps = map price_pair (ps_cells ps)"

lemma ps_invE:
  assumes "ps_inv ps"
  obtains d where "ps_data ps = Some d" "length d = unat (ps_capacity ps)"
    "unat (ps_size ps) < unat (ps_capacity ps)" "unat (ps_capacity ps) \<le> 2 ^ 40"
    "take (unat (ps_size ps)) d = map Some (ps_cells ps)"
proof -
  from assms obtain d where d: "ps_data ps = Some d" "length d = unat (ps_capacity ps)"
    "unat (ps_size ps) < unat (ps_capacity ps)" "unat (ps_capacity ps) \<le> 2 ^ 40"
    "None \<notin> set (take (unat (ps_size ps)) d)"
    by (auto simp: ps_inv_def split: option.splits)
  have "map Some (map the xs) = xs" if "None \<notin> set xs" for xs :: "asset_price option list"
    using that by (induction xs) auto
  from this [OF d(5)] have "take (unat (ps_size ps)) d = map Some (ps_cells ps)"
    by (simp add: ps_cells_def d(1))
  with d that show ?thesis by blast
qed

lemma ps_invI:
  assumes "ps_data ps = Some d" "length d = unat (ps_capacity ps)"
    "unat (ps_size ps) < unat (ps_capacity ps)" "unat (ps_capacity ps) \<le> 2 ^ 40"
    "take (unat (ps_size ps)) d = map Some cs"
  shows "ps_inv ps \<and> ps_cells ps = cs"
  using assms by (auto simp: ps_inv_def ps_cells_def comp_def)

lemma ps_cells_length: "ps_inv ps \<Longrightarrow> length (ps_cells ps) = unat (ps_size ps)"
  by (auto simp: ps_cells_def elim!: ps_invE)

lemma read_cell_take:
  assumes "take n d = map Some cs" and "k < n" and "n \<le> length d"
  shows "read_cell d k = Inr (cs ! k)"
proof -
  have len: "length cs = n"
    using assms(1,3) by (metis length_map length_take min.absorb2)
  have "d ! k = take n d ! k" using assms(2) by simp
  also have "\<dots> = Some (cs ! k)" using assms len by simp
  finally show ?thesis using assms by (simp add: read_cell_def)
qed

section \<open>What the operations do to the list\<close>

lemma asset_prices_init_ok:
  assumes "alloc_ok al" and "0 < unat cap" and "unat cap \<le> 2 ^ 40"
  shows "returns (asset_prices_init al cap) (\<lambda>ps. ps_inv ps \<and> ps_cells ps = [] \<and> ps_capacity ps = cap)"
proof -
  have "cap > 0" using assms(2) by (simp add: word_less_nat_alt)
  then show ?thesis
    using assms by (simp add: asset_prices_init_def asset_prices_init_data_def alloc_ok_def
        realloc_cells_def ps_inv_def ps_cells_def)
qed

lemma init_data_grows:
  assumes "ps_inv ps" and "alloc_ok al" and "unat (ps_capacity ps) \<le> 2 ^ 39"
  shows "returns (asset_prices_init_data al ps (ps_capacity ps * 2))
    (\<lambda>ps'. ps_inv ps' \<and> ps_cells ps' = ps_cells ps \<and> ps_size ps' = ps_size ps \<and>
       unat (ps_capacity ps') = 2 * unat (ps_capacity ps))"
proof -
  obtain d where d: "ps_data ps = Some d" "length d = unat (ps_capacity ps)"
    "unat (ps_size ps) < unat (ps_capacity ps)" "take (unat (ps_size ps)) d = map Some (ps_cells ps)"
    using assms(1) by (auto elim: ps_invE)
  have cap: "unat (ps_capacity ps * 2) = 2 * unat (ps_capacity ps)"
    using assms(3) by (intro unat_double_small) simp
  have gt: "ps_capacity ps * 2 > ps_capacity ps" "ps_capacity ps * 2 > 0"
    using d(3) by (simp_all add: word_less_nat_alt cap)
  let ?ps = "ps\<lparr>ps_data := Some (realloc_cells d (2 * unat (ps_capacity ps))), ps_capacity := ps_capacity ps * 2\<rparr>"
  have "asset_prices_init_data al ps (ps_capacity ps * 2) = Inr ?ps"
    using gt assms(2,3) d(1) by (simp add: asset_prices_init_data_def cap alloc_ok_def)
  moreover have "ps_inv ?ps \<and> ps_cells ?ps = ps_cells ps"
    by (rule ps_invI [where d = "realloc_cells d (2 * unat (ps_capacity ps))"])
      (use d assms(3) cap in \<open>simp_all add: realloc_cells_def\<close>)
  ultimately show ?thesis using cap by simp
qed

lemma asset_prices_push_ok:
  assumes "ps_inv ps" and "alloc_ok al" and "length (ps_cells ps) < 2 ^ 38"
  shows "returns (asset_prices_push al ps p)
    (\<lambda>ps'. ps_inv ps' \<and> ps_cells ps' = ps_cells ps @ [p])"
proof -
  obtain d where d: "ps_data ps = Some d" "unat (ps_size ps) < unat (ps_capacity ps)"
    "unat (ps_capacity ps) \<le> 2 ^ 40"
    using assms(1) by (auto elim: ps_invE)
  have sz: "unat (ps_size ps) < 2 ^ 38"
    using assms(3) ps_cells_length [OF assms(1)] by simp
  have suc: "unat (ps_size ps + 1) = unat (ps_size ps) + 1"
    using sz by (subst unat_add_small) simp_all
  have room: "returns (if ps_size ps + 1 \<ge> ps_capacity ps
      then asset_prices_init_data al ps (ps_capacity ps * 2) else Inr ps)
    (\<lambda>ps'. ps_inv ps' \<and> ps_cells ps' = ps_cells ps \<and> ps_size ps' = ps_size ps \<and>
       unat (ps_size ps) + 1 < unat (ps_capacity ps'))"
  proof (cases "ps_size ps + 1 \<ge> ps_capacity ps")
    case True
    then have "unat (ps_capacity ps) = unat (ps_size ps) + 1"
      using d(2) by (simp add: word_le_nat_alt suc)
    then show ?thesis
      using init_data_grows [OF assms(1,2)] sz True by (auto simp: returns_iff)
  next
    case False
    then have "unat (ps_size ps) + 1 < unat (ps_capacity ps)"
      by (simp add: word_le_nat_alt suc)
    with False show ?thesis using assms(1) by simp
  qed
  have stored: "returns (case ps_data ps1 of
      None \<Rightarrow> Inl Null_deref
    | Some d \<Rightarrow> if unat (ps_size ps1) < length d
        then Inr (ps1\<lparr>ps_data := Some (d[unat (ps_size ps1) := Some p]), ps_size := ps_size ps1 + 1\<rparr>)
        else Inl Out_of_bounds) (\<lambda>ps'. ps_inv ps' \<and> ps_cells ps' = ps_cells ps @ [p])"
    if ps1: "ps_inv ps1 \<and> ps_cells ps1 = ps_cells ps \<and> ps_size ps1 = ps_size ps \<and>
       unat (ps_size ps) + 1 < unat (ps_capacity ps1)" for ps1
  proof -
    from ps1 obtain d1 where d1: "ps_data ps1 = Some d1" "length d1 = unat (ps_capacity ps1)"
      "unat (ps_capacity ps1) \<le> 2 ^ 40" "take (unat (ps_size ps)) d1 = map Some (ps_cells ps)"
      by (metis ps_invE)
    let ?ps = "ps1\<lparr>ps_data := Some (d1[unat (ps_size ps) := Some p]), ps_size := ps_size ps + 1\<rparr>"
    have "ps_inv ?ps \<and> ps_cells ?ps = ps_cells ps @ [p]"
      by (rule ps_invI [where d = "d1[unat (ps_size ps) := Some p]"])
        (use d1 ps1 suc in \<open>simp_all add: take_Suc_conv_app_nth\<close>)
    then show ?thesis using d1 ps1 by simp
  qed
  show ?thesis
    using returns_bindI [OF room stored] d(1) by (simp add: asset_prices_push_def)
qed

lemma taken_length: "take n d = map Some cs \<Longrightarrow> n \<le> length d \<Longrightarrow> length cs = n"
  by (metis length_map length_take min.absorb2)

lemma duplicate_loop_ok:
  "take n d = map Some cs \<Longrightarrow> n \<le> length d \<Longrightarrow> k \<le> n \<Longrightarrow>
   duplicate_loop d n ts k = Inr (ts \<in> ap_timestamp ` set (drop k cs))"
proof (induction d n ts k rule: duplicate_loop.induct)
  case (1 d n ts k)
  show ?case
  proof (cases "k < n")
    case True
    have "drop k cs = cs ! k # drop (Suc k) cs"
      using True taken_length [OF "1.prems"(1,2)] by (simp add: Cons_nth_drop_Suc)
    then show ?thesis
      using "1.IH" [OF True, of "cs ! k"] "1.prems" True read_cell_take [OF "1.prems"(1) True]
      by (auto simp: duplicate_loop.simps [of d n ts k])
  next
    case False
    then show ?thesis
      using "1.prems" taken_length [OF "1.prems"(1,2)] by (simp add: duplicate_loop.simps)
  qed
qed

lemma asset_prices_duplicate_ok:
  assumes "ps_inv ps"
  shows "asset_prices_duplicate_timestamp_check ps ts = Inr (ts \<in> ap_timestamp ` set (ps_cells ps))"
proof -
  obtain d where "ps_data ps = Some d" "length d = unat (ps_capacity ps)"
    "unat (ps_size ps) < unat (ps_capacity ps)" "take (unat (ps_size ps)) d = map Some (ps_cells ps)"
    using assms by (auto elim: ps_invE)
  then show ?thesis
    using duplicate_loop_ok [of "unat (ps_size ps)" d "ps_cells ps" 0 ts]
    by (simp add: asset_prices_duplicate_timestamp_check_def)
qed

section \<open>The mean\<close>

text \<open>The specification of a query over any list of prices.\<close>

definition in_period :: "int \<Rightarrow> int \<Rightarrow> prices \<Rightarrow> int list" where
  "in_period t1 t2 ps = map snd (filter (\<lambda>(t, _). t1 \<le> t \<and> t \<le> t2) ps)"

definition mean_price :: "int \<Rightarrow> int \<Rightarrow> prices \<Rightarrow> int" where
  "mean_price t1 t2 ps =
     (let xs = in_period t1 t2 ps in if xs = [] then 0 else sum_list xs sdiv int (length xs))"

lemma sint32_bounds: "sint (w :: int32_t) \<in> {- (2 ^ 31)..< 2 ^ 31}"
  using sint_range_size [of w] by (simp add: word_size)

lemma query_loop_ok:
  "take n d = map Some cs \<Longrightarrow> n \<le> length d \<Longrightarrow> k \<le> n \<Longrightarrow> n < 2 ^ 31 \<Longrightarrow>
   0 \<le> num \<Longrightarrow> num \<le> int k \<Longrightarrow> \<bar>mean\<bar> \<le> num * 2 ^ 31 \<Longrightarrow>
   query_loop d n pq k mean num =
     (let xs = in_period (sint (aq_mintime pq)) (sint (aq_maxtime pq)) (map price_pair (drop k cs))
      in Inr (mean + sum_list xs, num + int (length xs)))"
proof (induction d n pq k mean num rule: query_loop.induct)
  case (1 d n pq k mean num)
  show ?case
  proof (cases "k < n")
    case True
    have split: "drop k cs = cs ! k # drop (Suc k) cs"
      using True taken_length [OF "1.prems"(1,2)] by (simp add: Cons_nth_drop_Suc)
    note read = read_cell_take [OF "1.prems"(1) True "1.prems"(2)]
    let ?p = "sint (ap_price (cs ! k))"
    have p: "- (2 ^ 31) \<le> ?p" "?p < 2 ^ 31"
      using sint32_bounds [of "ap_price (cs ! k)"] by simp_all
    have num: "num + 1 < 2 ^ 31"
      using "1.prems"(4,6) True by simp
    have mean: "\<bar>mean + ?p\<bar> \<le> (num + 1) * 2 ^ 31"
      using "1.prems"(7) p by (simp add: abs_le_iff algebra_simps)
    then have "mean + ?p \<in> {- (2 ^ 63)..< 2 ^ 63}"
      using num by (simp add: abs_le_iff)
    then show ?thesis
      using "1.IH" [OF True] "1.prems" True read num mean
      by (simp add: query_loop.simps [of d n pq k] split in_period_def price_pair_def Let_def)
  next
    case False
    then show ?thesis
      using "1.prems" taken_length [OF "1.prems"(1,2)]
      by (simp add: query_loop.simps in_period_def)
  qed
qed

lemma sdiv_between:
  fixes s n :: int
  assumes "0 < n" and "lo * n \<le> s" and "s \<le> hi * n"
  shows "lo \<le> s sdiv n" and "s sdiv n \<le> hi"
proof -
  have "lo \<le> s sdiv n \<and> s sdiv n \<le> hi"
  proof (cases "0 \<le> s")
    case True
    then have "s sdiv n = s div n"
      using assms(1) by (cases "s = 0") (simp_all add: signed_divide_int_def)
    moreover have "lo \<le> s div n"
      using zdiv_mono1 [OF assms(2,1)] assms(1) by simp
    moreover have "s div n \<le> hi"
      using zdiv_mono1 [OF assms(3,1)] assms(1) by simp
    ultimately show ?thesis by simp
  next
    case False
    then have eq: "s sdiv n = - ((- s) div n)"
      using assms(1) by (simp add: signed_divide_int_def)
    have "(- s) div n \<le> (- lo * n) div n" and "(- hi * n) div n \<le> (- s) div n"
      using assms by (auto intro!: zdiv_mono1)
    moreover have "(- lo * n) div n = - lo" and "(- hi * n) div n = - hi"
      by (rule nonzero_mult_div_cancel_right, use assms(1) in simp)+
    ultimately have "(- s) div n \<le> - lo" and "- hi \<le> (- s) div n" by simp_all
    then show ?thesis using eq by simp
  qed
  then show "lo \<le> s sdiv n" and "s sdiv n \<le> hi" by simp_all
qed

lemma sum_list_between:
  fixes xs :: "int list"
  assumes "\<forall>x \<in> set xs. lo \<le> x \<and> x \<le> hi"
  shows "lo * int (length xs) \<le> sum_list xs \<and> sum_list xs \<le> hi * int (length xs)"
  using assms by (induction xs) (auto simp: algebra_simps)

lemma mean_price_between:
  assumes "in_period t1 t2 ps \<noteq> []" and "\<forall>x \<in> set (in_period t1 t2 ps). lo \<le> x \<and> x \<le> hi"
  shows "lo \<le> mean_price t1 t2 ps" and "mean_price t1 t2 ps \<le> hi"
  using sdiv_between [of "int (length (in_period t1 t2 ps))" lo "sum_list (in_period t1 t2 ps)" hi]
    sum_list_between [OF assms(2)] assms(1)
  by (simp_all add: mean_price_def Let_def)

lemma sint_word_of_int_32: "x \<in> {- (2 ^ 31)..< 2 ^ 31} \<Longrightarrow> sint (word_of_int x :: int32_t) = x"
  by (simp add: sint_sbintrunc' signed_take_bit_int_eq_self)

lemma in_period_prices_bounds:
  assumes "x \<in> set (in_period t1 t2 (ps_prices ps))"
  shows "- (2 ^ 31) \<le> x \<and> x \<le> 2 ^ 31 - 1"
proof -
  obtain w :: int32_t where "x = sint w"
    using assms by (auto simp: in_period_def ps_prices_def price_pair_def)
  then show ?thesis using sint32_bounds [of w] by simp
qed

lemma mean_price_32:
  "mean_price t1 t2 (ps_prices ps) \<in> {- (2 ^ 31)..< 2 ^ 31}"
proof (cases "in_period t1 t2 (ps_prices ps) = []")
  case True
  then show ?thesis by (simp add: mean_price_def)
next
  case False
  from mean_price_between [OF False, of "- (2 ^ 31)" "2 ^ 31 - 1"] in_period_prices_bounds [of _ t1 t2 ps]
  show ?thesis by auto
qed

lemma asset_prices_query_ok:
  assumes "ps_inv ps" and "length (ps_cells ps) < 2 ^ 31"
  shows "asset_prices_query ps pq =
    Inr (word_of_int (mean_price (sint (aq_mintime pq)) (sint (aq_maxtime pq)) (ps_prices ps)))"
proof -
  obtain d where d: "ps_data ps = Some d" "length d = unat (ps_capacity ps)"
    "unat (ps_size ps) < unat (ps_capacity ps)" "take (unat (ps_size ps)) d = map Some (ps_cells ps)"
    using assms(1) by (auto elim: ps_invE)
  have len: "length (ps_cells ps) = unat (ps_size ps)"
    using assms(1) by (rule ps_cells_length)
  show ?thesis
  proof (cases "ps_size ps = 0")
    case True
    then have "ps_cells ps = []" using len by simp
    with True d(1) show ?thesis
      by (simp add: asset_prices_query_def mean_price_def in_period_def ps_prices_def)
  next
    case False
    then show ?thesis
      using query_loop_ok [OF d(4), of 0 0 0 pq] d assms(2) len
      by (simp add: asset_prices_query_def mean_price_def Let_def ps_prices_def)
  qed
qed

section \<open>The array as a store of prices without duplicates\<close>

text \<open>Check, then push, as the message handler does: \<open>insert_new\<close>; over a list, the first entry of a key wins.\<close>

definition insert_new ::
  "('s \<Rightarrow> 'k \<Rightarrow> bool res) \<Rightarrow> ('s \<Rightarrow> 'p \<Rightarrow> 's res) \<Rightarrow> ('p \<Rightarrow> 'k) \<Rightarrow> 's \<Rightarrow> 'p \<Rightarrow> 's res" where
  "insert_new check push key s p = rbind (check s (key p)) (\<lambda>dup. if dup then Inr s else push s p)"

definition add_first :: "('p \<Rightarrow> 'k) \<Rightarrow> 'p list \<Rightarrow> 'p \<Rightarrow> 'p list" where
  "add_first key xs p = (if key p \<in> key ` set xs then xs else xs @ [p])"

lemma add_first_length: "length (foldl (add_first key) xs ps) \<le> length xs + length ps"
proof (induction ps arbitrary: xs)
  case (Cons p ps)
  have "length (add_first key xs p) \<le> length xs + 1"
    by (simp add: add_first_def)
  with Cons.IH [of "add_first key xs p"] show ?case by simp
qed simp

lemma add_first_distinct: "distinct (map key xs) \<Longrightarrow> distinct (map key (foldl (add_first key) xs ps))"
  by (induction ps arbitrary: xs) (auto simp: add_first_def)

lemma add_first_find:
  "find (\<lambda>p. key p = k) (foldl (add_first key) xs ps) = find (\<lambda>p. key p = k) (xs @ ps)"
proof (induction ps arbitrary: xs)
  case (Cons p ps)
  have "find (\<lambda>p. key p = k) (add_first key xs p @ ps) = find (\<lambda>p. key p = k) (xs @ p # ps)"
  proof (cases "key p \<in> key ` set xs")
    case True
    have "find (\<lambda>p. key p = k) (xs @ ys) = find (\<lambda>p. key p = k) xs" if "k \<in> key ` set xs" for ys
      using that by (induction xs) auto
    moreover have "find (\<lambda>p. key p = k) (xs @ p # ps) = find (\<lambda>p. key p = k) (xs @ ps)" if "k \<noteq> key p"
      using that by (induction xs) auto
    ultimately show ?thesis
      using True by (cases "k = key p") (simp_all add: add_first_def)
  qed (simp add: add_first_def)
  with Cons.IH [of "add_first key xs p"] show ?case by simp
qed simp

locale price_store =
  fixes check :: "'s \<Rightarrow> 'k \<Rightarrow> bool res"
    and push :: "'s \<Rightarrow> 'p \<Rightarrow> 's res"
    and key :: "'p \<Rightarrow> 'k"
    and contents :: "'s \<Rightarrow> 'p list"
    and inv :: "'s \<Rightarrow> bool"
    and lim :: nat
  assumes check_ok: "inv s \<Longrightarrow> check s k = Inr (k \<in> key ` set (contents s))"
    and push_ok: "inv s \<Longrightarrow> length (contents s) < lim \<Longrightarrow>
      returns (push s p) (\<lambda>s'. inv s' \<and> contents s' = contents s @ [p])"
begin

lemma insert_new_ok:
  assumes "inv s" and "length (contents s) < lim"
  shows "returns (insert_new check push key s p) (\<lambda>s'. inv s' \<and> contents s' = add_first key (contents s) p)"
  using assms push_ok [OF assms, of p] by (simp add: insert_new_def check_ok add_first_def)

lemma insert_all_ok:
  "inv s \<Longrightarrow> length (contents s) + length ps \<le> lim \<Longrightarrow>
   returns (run_res (insert_new check push key) s ps)
     (\<lambda>s'. inv s' \<and> contents s' = foldl (add_first key) (contents s) ps)"
proof (induction ps arbitrary: s)
  case (Cons p ps)
  have "returns (insert_new check push key s p) (\<lambda>s'. inv s' \<and> contents s' = add_first key (contents s) p)"
    using Cons.prems by (intro insert_new_ok) simp_all
  then obtain s' where s': "insert_new check push key s p = Inr s'" "inv s'"
    "contents s' = add_first key (contents s) p"
    by (auto simp: returns_iff)
  moreover have "length (contents s') + length ps \<le> lim"
    using Cons.prems(2) by (simp add: s'(3) add_first_def)
  ultimately show ?case
    using Cons.IH [of s'] by simp
qed simp

end

interpretation store: price_store asset_prices_duplicate_timestamp_check "asset_prices_push al" ap_timestamp
  ps_cells "\<lambda>ps. ps_inv ps \<and> alloc_ok al" "2 ^ 38" for al
  by unfold_locales (auto simp: asset_prices_duplicate_ok intro: returns_mono [OF asset_prices_push_ok])

section \<open>Properties\<close>

text \<open>C23: a query returns, without overflow, the mean of the prices whose timestamps lie in the period,
  truncated toward zero, and 0 when there is none.\<close>

theorem query_is_truncated_mean:
  assumes "ps_inv ps" and "length (ps_cells ps) < 2 ^ 31"
  shows "returns (asset_prices_query ps pq)
    (\<lambda>r. sint r = mean_price (sint (aq_mintime pq)) (sint (aq_maxtime pq)) (ps_prices ps))"
  using asset_prices_query_ok [OF assms, of pq] mean_price_32
  by (simp add: sint_word_of_int_32)

definition sample_prices :: asset_prices where
  "sample_prices = \<lparr>ps_data = Some [Some \<lparr>ap_timestamp = 12345, ap_price = 101\<rparr>,
      Some \<lparr>ap_timestamp = 12346, ap_price = 102\<rparr>, Some \<lparr>ap_timestamp = 12347, ap_price = 100\<rparr>,
      Some \<lparr>ap_timestamp = 40960, ap_price = -5\<rparr>, None, None],
     ps_size = 4, ps_capacity = 6\<rparr>"

lemma sample_prices_inv: "ps_inv sample_prices" "length (ps_cells sample_prices) = 4"
  by (simp_all add: sample_prices_def ps_inv_def ps_cells_def)

theorem query_is_truncated_mean_witness:
  "returns (asset_prices_query sample_prices \<lparr>aq_mintime = 12288, aq_maxtime = 16384\<rparr>) (\<lambda>r. sint r = 101)"
proof -
  have "mean_price 12288 16384 (ps_prices sample_prices) = 101"
    by (simp add: mean_price_def in_period_def ps_prices_def ps_cells_def sample_prices_def price_pair_def)
  then show ?thesis
    using query_is_truncated_mean [OF sample_prices_inv(1), of "\<lparr>aq_mintime = 12288, aq_maxtime = 16384\<rparr>"]
      sample_prices_inv(2)
    by simp
qed

text \<open>C36: the answer to a query lies between the smallest and the largest price of the period: the
  truncation and the narrowing to 32 bits never leave that range.\<close>

theorem query_within_prices:
  assumes "ps_inv ps" and "length (ps_cells ps) < 2 ^ 31"
    and "in_period (sint (aq_mintime pq)) (sint (aq_maxtime pq)) (ps_prices ps) = xs" and "xs \<noteq> []"
  shows "returns (asset_prices_query ps pq) (\<lambda>r. Min (set xs) \<le> sint r \<and> sint r \<le> Max (set xs))"
proof -
  let ?m = "mean_price (sint (aq_mintime pq)) (sint (aq_maxtime pq)) (ps_prices ps)"
  have "\<forall>x \<in> set xs. Min (set xs) \<le> x \<and> x \<le> Max (set xs)" by simp
  then have "Min (set xs) \<le> ?m" and "?m \<le> Max (set xs)"
    using mean_price_between [of "sint (aq_mintime pq)" "sint (aq_maxtime pq)" "ps_prices ps"
        "Min (set xs)" "Max (set xs)"] assms(3,4) by simp_all
  then show ?thesis
    using asset_prices_query_ok [OF assms(1,2), of pq] mean_price_32 by (simp add: sint_word_of_int_32)
qed

theorem query_within_prices_witness:
  "returns (asset_prices_query sample_prices \<lparr>aq_mintime = 12346, aq_maxtime = 50000\<rparr>)
    (\<lambda>r. -5 \<le> sint r \<and> sint r \<le> 102)"
proof -
  have "in_period 12346 50000 (ps_prices sample_prices) = [102, 100, -5]"
    by (simp add: in_period_def ps_prices_def ps_cells_def sample_prices_def price_pair_def)
  then show ?thesis
    using query_within_prices [OF sample_prices_inv(1), of "\<lparr>aq_mintime = 12346, aq_maxtime = 50000\<rparr>" "[102, 100, -5]"]
      sample_prices_inv(2)
    by simp
qed

text \<open>C24: inserting any list of prices through the duplicate check and \<open>push\<close> never faults, keeps one price for
  each timestamp, and that price is the first one that was inserted for it, however often the array grows.\<close>

theorem inserted_prices_first_wins:
  assumes "ps_inv ps" and "alloc_ok al" and "distinct (map ap_timestamp (ps_cells ps))"
    and "length (ps_cells ps) + length new \<le> 2 ^ 38"
  shows "returns (run_res (insert_new asset_prices_duplicate_timestamp_check (asset_prices_push al) ap_timestamp) ps new)
    (\<lambda>ps'. ps_inv ps' \<and> distinct (map ap_timestamp (ps_cells ps')) \<and>
      (\<forall>ts. find (\<lambda>p. ap_timestamp p = ts) (ps_cells ps')
        = find (\<lambda>p. ap_timestamp p = ts) (ps_cells ps @ new)))"
  using store.insert_all_ok [of ps al new] assms
  by (auto elim!: returns_mono simp: add_first_distinct add_first_find)

theorem inserted_prices_first_wins_witness:
  "returns (run_res (insert_new asset_prices_duplicate_timestamp_check (asset_prices_push zero_alloc) ap_timestamp)
      sample_prices [\<lparr>ap_timestamp = 7, ap_price = 1\<rparr>, \<lparr>ap_timestamp = 12345, ap_price = 9\<rparr>,
        \<lparr>ap_timestamp = 8, ap_price = 2\<rparr>, \<lparr>ap_timestamp = 7, ap_price = 3\<rparr>])
    (\<lambda>ps'. ps_inv ps' \<and> find (\<lambda>p. ap_timestamp p = 12345) (ps_cells ps') = Some \<lparr>ap_timestamp = 12345, ap_price = 101\<rparr> \<and>
      find (\<lambda>p. ap_timestamp p = 7) (ps_cells ps') = Some \<lparr>ap_timestamp = 7, ap_price = 1\<rparr>)"
proof -
  let ?new = "[\<lparr>ap_timestamp = 7, ap_price = 1\<rparr>, \<lparr>ap_timestamp = 12345, ap_price = 9\<rparr>,
        \<lparr>ap_timestamp = 8, ap_price = 2\<rparr>, \<lparr>ap_timestamp = 7, ap_price = 3\<rparr>] :: asset_price list"
  have cells: "ps_cells sample_prices = [\<lparr>ap_timestamp = 12345, ap_price = 101\<rparr>,
      \<lparr>ap_timestamp = 12346, ap_price = 102\<rparr>, \<lparr>ap_timestamp = 12347, ap_price = 100\<rparr>,
      \<lparr>ap_timestamp = 40960, ap_price = -5\<rparr>]"
    by (simp add: ps_cells_def sample_prices_def)
  have "returns (run_res (insert_new asset_prices_duplicate_timestamp_check (asset_prices_push zero_alloc) ap_timestamp)
      sample_prices ?new)
    (\<lambda>ps'. ps_inv ps' \<and> distinct (map ap_timestamp (ps_cells ps')) \<and>
      (\<forall>ts. find (\<lambda>p. ap_timestamp p = ts) (ps_cells ps')
        = find (\<lambda>p. ap_timestamp p = ts) (ps_cells sample_prices @ ?new)))"
    by (rule inserted_prices_first_wins [OF sample_prices_inv(1) zero_alloc_ok]) (simp_all add: cells)
  then show ?thesis
    by (rule returns_mono) (simp add: cells)
qed

end
