(* ===== verification/Sessions.thy ===== *)
theory Sessions
  imports Dll Prices Queue
begin

text \<open>
  \<open>means-to-an-end/client-session.c\<close>: the sessions of the connected clients, each with its prices and
  its receive queue, in a doubly linked list. The program's \<open>struct clients_session *ca\<close> may point
  to any element; every operation may move it.
\<close>

section \<open>State and operations\<close>

record clients_session = links +
  cs_client_id :: int
  cs_asset :: "asset_prices option"
  cs_recv_qu :: "queue option"

record session_list =
  sl_heap :: "clients_session heap"
  sl_cur :: ptr

text \<open>\<open>clients_session_init(&p, id)\<close> with the value of the pointer \<open>p\<close>; the struct has 40 bytes.\<close>

definition clients_session_init ::
  "allocator \<Rightarrow> clients_session heap \<Rightarrow> ptr \<Rightarrow> int \<Rightarrow> (ptr \<times> clients_session heap) res" where
  "clients_session_init al h p client_id =
     (if p \<noteq> None then Inl Assert_failed
      else if \<not> client_id > 0 then Inl Assert_failed
      else if al 40 = None then Inl Assert_failed
      else rbind (asset_prices_init al 16) (\<lambda>ps.
           rbind (queue_init al None 512) (\<lambda>qu.
             if qu = None then Inl Assert_failed
             else Inr (h_new \<lparr>n_next = None, n_prev = None, cs_client_id = client_id,
                              cs_asset = Some ps, cs_recv_qu = qu\<rparr> h))))"

definition clients_session_get_beg :: "session_list \<Rightarrow> session_list res" where
  "clients_session_get_beg s =
     (if sl_cur s = None then Inl Assert_failed
      else rbind (walk_from n_prev (sl_heap s) (sl_cur s)) (\<lambda>p. Inr (s\<lparr>sl_cur := p\<rparr>)))"

definition clients_session_get_end :: "session_list \<Rightarrow> session_list res" where
  "clients_session_get_end s =
     (if sl_cur s = None then Inl Assert_failed
      else rbind (walk_from n_next (sl_heap s) (sl_cur s)) (\<lambda>p. Inr (s\<lparr>sl_cur := p\<rparr>)))"

definition clients_session_free :: "session_list \<Rightarrow> session_list res" where
  "clients_session_free s =
     (case sl_cur s of
        None \<Rightarrow> Inl Assert_failed
      | Some a \<Rightarrow>
          rbind (deref (sl_heap s) (Some a)) (\<lambda>curr.
          if cs_asset curr = None then Inl Assert_failed
          else rbind (unlink (sl_heap s) a) (\<lambda>h.
               rbind (asset_prices_free (cs_asset curr)) (\<lambda>_.
               Inr \<lparr>sl_heap = h_free a h, sl_cur = neighbour curr\<rparr>))))"

fun free_loop :: "nat \<Rightarrow> session_list \<Rightarrow> session_list res" where
  "free_loop 0 s = (if sl_cur s = None then Inr s else Inl Diverges)"
| "free_loop (Suc fuel) s =
     (if sl_cur s = None then Inr s else rbind (clients_session_free s) (free_loop fuel))"

text \<open>Every round frees a struct, so there are at most as many as addresses handed out.\<close>

definition clients_session_free_all :: "session_list \<Rightarrow> session_list res" where
  "clients_session_free_all s =
     (if sl_cur s = None then Inl Assert_failed
      else rbind (deref (sl_heap s) (sl_cur s)) (\<lambda>c.
           if cs_asset c = None then Inl Assert_failed
           else rbind (clients_session_get_beg s) (free_loop (h_brk (sl_heap s)))))"

definition clients_session_add :: "allocator \<Rightarrow> session_list \<Rightarrow> int \<Rightarrow> session_list res" where
  "clients_session_add al s client_id =
     (if \<not> client_id > 0 then Inl Assert_failed
      else if sl_cur s = None
      then rbind (clients_session_init al (sl_heap s) None client_id)
             (\<lambda>(p, h). Inr \<lparr>sl_heap = h, sl_cur = p\<rparr>)
      else rbind (clients_session_get_end s) (\<lambda>s.
           rbind (deref (sl_heap s) (sl_cur s)) (\<lambda>n.
           rbind (clients_session_init al (sl_heap s) (n_next n) client_id) (\<lambda>(q, h).
           rbind (h_set (sl_cur s) (\<lambda>m. m\<lparr>n_next := q\<rparr>) h) (\<lambda>h.
           rbind (h_set q (\<lambda>m. m\<lparr>n_prev := sl_cur s\<rparr>) h) (\<lambda>h.
           Inr \<lparr>sl_heap = h, sl_cur = sl_cur s\<rparr>))))))"

definition clients_session_find :: "session_list \<Rightarrow> int \<Rightarrow> (bool \<times> session_list) res" where
  "clients_session_find s client_id =
     (if sl_cur s = None then Inr (False, s)
      else if \<not> client_id > 0 then Inl Assert_failed
      else rbind (clients_session_get_beg s) (\<lambda>s.
           case sl_cur s of
             None \<Rightarrow> Inl Null_deref
           | Some first \<Rightarrow>
               rbind (search (Suc (h_brk (sl_heap s))) (\<lambda>n. cs_client_id n = client_id) (sl_heap s) first)
                 (\<lambda>r. case r of None \<Rightarrow> Inr (False, s) | Some a \<Rightarrow> Inr (True, s\<lparr>sl_cur := Some a\<rparr>))))"

definition clients_session_remove :: "session_list \<Rightarrow> int \<Rightarrow> (bool \<times> session_list) res" where
  "clients_session_remove s client_id =
     (if sl_cur s = None then Inl Assert_failed
      else if \<not> client_id > 0 then Inl Assert_failed
      else rbind (clients_session_find s client_id) (\<lambda>(found, s).
           if found then rbind (clients_session_free s) (\<lambda>s. Inr (True, s)) else Inr (False, s)))"

section \<open>The list a state represents\<close>

text \<open>What a session holds: id, prices, received bytes.\<close>

type_synonym session_view = "int \<times> asset_price list \<times> char list"

definition view_of :: "clients_session \<Rightarrow> session_view" where
  "view_of n = (cs_client_id n, ps_cells (the (cs_asset n)), q_bytes (the (cs_recv_qu n)))"

definition session_ok :: "clients_session \<Rightarrow> bool" where
  "session_ok n \<longleftrightarrow> 0 < cs_client_id n \<and>
     (case cs_asset n of None \<Rightarrow> False | Some ps \<Rightarrow> ps_inv ps) \<and>
     (case cs_recv_qu n of None \<Rightarrow> False | Some q \<Rightarrow> q_inv q)"

definition views :: "clients_session heap \<Rightarrow> nat list \<Rightarrow> session_view list" where
  "views h xs = map (\<lambda>a. view_of (the (h_mem h a))) xs"

definition sl_table :: "session_list \<Rightarrow> session_view list" where
  "sl_table s = views (sl_heap s) (addresses (sl_heap s) (sl_cur s))"

definition sl_at :: "session_list \<Rightarrow> nat list \<Rightarrow> bool" where
  "sl_at s xs \<longleftrightarrow> dll (sl_heap s) xs \<and> points_into (sl_cur s) xs \<and>
     (\<forall>a \<in> set xs. session_ok (the (h_mem (sl_heap s) a)))"

definition sl_inv :: "session_list \<Rightarrow> bool" where
  "sl_inv s \<longleftrightarrow> sl_at s (addresses (sl_heap s) (sl_cur s))"

lemma sl_at_table: "sl_at s xs \<Longrightarrow> sl_inv s \<and> sl_table s = views (sl_heap s) xs"
  by (auto simp: sl_at_def sl_inv_def sl_table_def addresses_dll)

lemma sl_invE:
  assumes "sl_inv s"
  obtains xs where "sl_at s xs" and "sl_table s = views (sl_heap s) xs"
  using assms sl_at_table by (auto simp: sl_inv_def)

lemma more_eq_view:
  "links.more n = links.more n' \<Longrightarrow> view_of n = view_of n' \<and> session_ok n = session_ok n'"
  for n n' :: clients_session
  by (cases n; cases n') (simp add: view_of_def session_ok_def)

lemma payloads_views:
  assumes "payloads h' xs = payloads h xs"
  shows "views h' xs = views h xs"
    and "(\<forall>a \<in> set xs. session_ok (the (h_mem h' a))) = (\<forall>a \<in> set xs. session_ok (the (h_mem h a)))"
proof -
  have "links.more (the (h_mem h' a)) = links.more (the (h_mem h a))" if "a \<in> set xs" for a
    using assms that by (simp add: payloads_def)
  from more_eq_view [OF this] show "views h' xs = views h xs"
    and "(\<forall>a \<in> set xs. session_ok (the (h_mem h' a))) = (\<forall>a \<in> set xs. session_ok (the (h_mem h a)))"
    by (simp_all add: views_def)
qed

section \<open>What the operations do\<close>

lemma sl_at_cur: "sl_at s xs \<Longrightarrow> xs \<noteq> [] \<Longrightarrow> \<exists>a. sl_cur s = Some a \<and> a \<in> set xs"
  by (auto simp: sl_at_def points_into_def split: option.splits)

lemma sl_at_nil: "sl_at s [] \<longleftrightarrow> sl_cur s = None"
  by (auto simp: sl_at_def points_into_def dll_def split: option.splits)

lemma sl_at_move: "sl_at s xs \<Longrightarrow> a \<in> set xs \<Longrightarrow> sl_at (s\<lparr>sl_cur := Some a\<rparr>) xs"
  by (simp add: sl_at_def points_into_def)

lemma get_beg_ok:
  assumes "sl_at s xs" and "xs \<noteq> []"
  shows "clients_session_get_beg s = Inr (s\<lparr>sl_cur := Some (hd xs)\<rparr>)"
  using sl_at_cur [OF assms] assms(1)
  by (auto simp: clients_session_get_beg_def sl_at_def walk_from_first)

lemma get_end_ok:
  assumes "sl_at s xs" and "xs \<noteq> []"
  shows "clients_session_get_end s = Inr (s\<lparr>sl_cur := Some (last xs)\<rparr>)"
  using sl_at_cur [OF assms] assms(1)
  by (auto simp: clients_session_get_end_def sl_at_def walk_from_last)

definition id_at :: "clients_session heap \<Rightarrow> nat \<Rightarrow> int" where
  "id_at h a = cs_client_id (the (h_mem h a))"

lemma fst_view [simp]: "fst (view_of n) = cs_client_id n"
  by (simp add: view_of_def)

lemma ids_views_set: "fst ` set (views h xs) = id_at h ` set xs"
  by (force simp: views_def id_at_def)

lemma ids_views: "map fst (views h xs) = map (id_at h) xs"
  by (simp add: views_def id_at_def)

lemma find_ok:
  assumes "sl_at s xs" and "0 < client_id"
  shows "returns (clients_session_find s client_id) (\<lambda>(found, s'). sl_at s' xs \<and> sl_heap s' = sl_heap s \<and>
    found = (client_id \<in> id_at (sl_heap s) ` set xs) \<and>
    (found \<longrightarrow> (\<exists>a \<in> set xs. sl_cur s' = Some a \<and> id_at (sl_heap s) a = client_id)))"
proof (cases "xs = []")
  case True
  then show ?thesis using assms(1) sl_at_nil [of s] by (simp add: clients_session_find_def)
next
  case False
  obtain a0 where a0: "sl_cur s = Some a0" using sl_at_cur [OF assms(1) False] by blast
  have dll: "dll (sl_heap s) xs" using assms(1) by (simp add: sl_at_def)
  have hd: "sl_at (s\<lparr>sl_cur := Some (hd xs)\<rparr>) xs"
    using sl_at_move [OF assms(1)] False by simp
  show ?thesis
  proof (cases "find (\<lambda>a. id_at (sl_heap s) a = client_id) xs")
    case None
    then have "client_id \<notin> id_at (sl_heap s) ` set xs"
      by (auto simp: find_None_iff)
    then show ?thesis
      using get_beg_ok [OF assms(1) False] None assms(2) a0 hd
      by (simp add: clients_session_find_def search_dll [OF dll False] id_at_def [symmetric]
          del: search.simps)
  next
    case (Some a)
    then have "a \<in> set xs" "id_at (sl_heap s) a = client_id"
      by (auto simp: find_Some_iff)
    then show ?thesis
      using get_beg_ok [OF assms(1) False] Some assms(2) a0 sl_at_move [OF assms(1)]
      by (auto simp: clients_session_find_def search_dll [OF dll False] id_at_def [symmetric]
          simp del: search.simps)
  qed
qed

lemma free_ok:
  assumes "sl_at s (xs @ a # ys)" and "sl_cur s = Some a"
  shows "returns (clients_session_free s) (\<lambda>s'. sl_at s' (xs @ ys) \<and>
    views (sl_heap s') (xs @ ys) = views (sl_heap s) (xs @ ys) \<and> h_mem (sl_heap s') a = None \<and>
    (\<forall>b. b \<notin> set (xs @ a # ys) \<longrightarrow> h_mem (sl_heap s') b = h_mem (sl_heap s) b))"
proof -
  have dll: "dll (sl_heap s) (xs @ a # ys)" and ok: "\<forall>b \<in> set (xs @ a # ys). session_ok (the (h_mem (sl_heap s) b))"
    using assms(1) by (simp_all add: sl_at_def)
  obtain n where n: "h_mem (sl_heap s) a = Some n" "n_prev n = last_or None xs" "n_next n = head_or ys None"
    using dll by (auto elim: dll_split)
  have "session_ok n" using ok n(1) by simp
  then obtain ps where ps: "cs_asset n = Some ps" "ps_inv ps"
    by (auto simp: session_ok_def split: option.splits)
  then have "\<exists>d. ps_data ps = Some d" by (auto elim: ps_invE)
  then have free: "asset_prices_free (cs_asset n) = Inr None"
    using ps by (auto simp: asset_prices_free_def)
  obtain h' where h': "unlink (sl_heap s) a = Inr h'" and post: "dll (h_free a h') (xs @ ys)"
    "payloads (h_free a h') (xs @ ys) = payloads (sl_heap s) (xs @ ys)" "\<forall>b. b \<notin> set (xs @ a # ys) \<longrightarrow> h_mem h' b = h_mem (sl_heap s) b"
    using unlink_ok [OF dll] by (auto simp: returns_iff)
  have "points_into (neighbour n) (xs @ ys)"
    using n by (auto simp: points_into_def neighbour_def last_or_def head_or_def split: list.splits)
  then have "sl_at \<lparr>sl_heap = h_free a h', sl_cur = neighbour n\<rparr> (xs @ ys)"
    using post(1) payloads_views(2) [OF post(2)] ok by (simp add: sl_at_def)
  then show ?thesis
    using payloads_views(1) [OF post(2)] assms(2) n ps free h' post(3)
    by (simp add: clients_session_free_def)
qed

lemma free_loop_ok:
  "sl_at s xs \<Longrightarrow> length xs \<le> fuel \<Longrightarrow> returns (free_loop fuel s) (\<lambda>s'. sl_at s' [] \<and>
     (\<forall>a \<in> set xs. h_mem (sl_heap s') a = None) \<and>
     (\<forall>b. b \<notin> set xs \<longrightarrow> h_mem (sl_heap s') b = h_mem (sl_heap s) b))"
proof (induction fuel arbitrary: s xs)
  case 0
  then show ?case using sl_at_nil [of s] by simp
next
  case (Suc fuel)
  show ?case
  proof (cases "xs = []")
    case True
    then show ?thesis using Suc.prems(1) sl_at_nil [of s] by simp
  next
    case False
    obtain a where a: "sl_cur s = Some a" "a \<in> set xs" using sl_at_cur [OF Suc.prems(1) False] by blast
    then obtain ys zs where xs: "xs = ys @ a # zs" by (auto dest: split_list)
    have "distinct xs" using Suc.prems(1) by (simp add: sl_at_def dll_def)
    then have out: "a \<notin> set (ys @ zs)" by (simp add: xs)
    obtain s' where s': "clients_session_free s = Inr s'" "sl_at s' (ys @ zs)" "h_mem (sl_heap s') a = None"
      "\<forall>b. b \<notin> set (ys @ a # zs) \<longrightarrow> h_mem (sl_heap s') b = h_mem (sl_heap s) b"
      using free_ok [of s ys a zs] Suc.prems(1) a(1) xs by (auto simp: returns_iff)
    have "returns (free_loop fuel s') (\<lambda>s''. sl_at s'' [] \<and>
     (\<forall>a \<in> set (ys @ zs). h_mem (sl_heap s'') a = None) \<and>
     (\<forall>b. b \<notin> set (ys @ zs) \<longrightarrow> h_mem (sl_heap s'') b = h_mem (sl_heap s') b))"
      using Suc.IH [OF s'(2)] Suc.prems(2) xs by simp
    then have "returns (free_loop fuel s') (\<lambda>s''. sl_at s'' [] \<and>
     (\<forall>a \<in> set xs. h_mem (sl_heap s'') a = None) \<and>
     (\<forall>b. b \<notin> set xs \<longrightarrow> h_mem (sl_heap s'') b = h_mem (sl_heap s) b))"
      by (rule returns_mono) (use s'(3,4) out in \<open>auto simp: xs\<close>)
    then show ?thesis
      using a(1) s'(1) by simp
  qed
qed

lemma init_ok:
  assumes "alloc_ok al" and "0 < client_id"
  shows "\<exists>n. clients_session_init al h None client_id = Inr (h_new n h) \<and>
    view_of n = (client_id, [], []) \<and> session_ok n \<and> n_next n = None \<and> n_prev n = None"
proof -
  obtain ps where ps: "asset_prices_init al 16 = Inr ps" "ps_inv ps" "ps_cells ps = []"
    using asset_prices_init_ok [OF assms(1), of 16] by (auto simp: returns_iff)
  obtain q where q: "queue_init al None 512 = Inr (Some q)" "q_inv q" "q_bytes q = []"
    using queue_init_ok [OF assms(1), of 512] by (auto simp: returns_iff)
  have "al 40 \<noteq> None" using assms(1) by (simp add: alloc_ok_def)
  then show ?thesis
    using assms(2) ps q by (auto simp: clients_session_init_def view_of_def session_ok_def)
qed

lemma add_ok:
  assumes "sl_at s xs" and "alloc_ok al" and "0 < client_id"
  shows "returns (clients_session_add al s client_id) (\<lambda>s'. sl_at s' (xs @ [h_brk (sl_heap s)]) \<and>
    views (sl_heap s') (xs @ [h_brk (sl_heap s)]) = views (sl_heap s) xs @ [(client_id, [], [])])"
proof (cases "xs = []")
  case True
  obtain n where n: "clients_session_init al (sl_heap s) None client_id = Inr (h_new n (sl_heap s))"
    "view_of n = (client_id, [], [])" "session_ok n" "n_next n = None" "n_prev n = None"
    using init_ok [OF assms(2,3)] by blast
  then show ?thesis
    using True assms sl_at_nil [of s]
    by (simp add: clients_session_add_def h_new_def sl_at_def dll_def points_into_def views_def)
next
  case False
  let ?last = "Some (last xs)"
  obtain n where n: "clients_session_init al (sl_heap s) None client_id = Inr (h_new n (sl_heap s))"
    "view_of n = (client_id, [], [])" "session_ok n" "n_next n = None"
    using init_ok [OF assms(2,3)] by blast
  have dll: "dll (sl_heap s) (butlast xs @ last xs # [])" "dll (sl_heap s) xs"
    using assms(1) False by (simp_all add: sl_at_def)
  obtain m where m: "h_mem (sl_heap s) (last xs) = Some m" "n_next m = None"
    using dll(1) by (auto elim: dll_split)
  obtain h' where h': "link_after (sl_heap s) ?last n = Inr h'" "dll h' (xs @ [h_brk (sl_heap s)])"
    "payloads h' (xs @ [h_brk (sl_heap s)]) = payloads (sl_heap s) xs @ [links.more n]"
    using link_after_ok [OF dll(2) False n(4)] by (auto simp: returns_iff)
  have run: "clients_session_add al s client_id = Inr \<lparr>sl_heap = h', sl_cur = ?last\<rparr>"
    using get_end_ok [OF assms(1) False] sl_at_cur [OF assms(1) False] m n(1) h'(1) assms(3)
    by (auto simp: clients_session_add_def link_after_def h_new_def rbind_def split: sum.splits)
  have pay: "payloads h' xs = payloads (sl_heap s) xs"
    "links.more (the (h_mem h' (h_brk (sl_heap s)))) = links.more n"
    using h'(3) by simp_all
  have ok: "session_ok (the (h_mem h' (h_brk (sl_heap s))))"
    and view: "view_of (the (h_mem h' (h_brk (sl_heap s)))) = (client_id, [], [])"
    using more_eq_view [OF pay(2)] n(2,3) by simp_all
  have "sl_at \<lparr>sl_heap = h', sl_cur = ?last\<rparr> (xs @ [h_brk (sl_heap s)])"
    using h'(2) payloads_views(2) [OF pay(1)] ok assms(1) False
    by (auto simp: sl_at_def points_into_def)
  moreover have "views h' (xs @ [h_brk (sl_heap s)]) = views (sl_heap s) xs @ [(client_id, [], [])]"
    using payloads_views(1) [OF pay(1)] view by (simp add: views_def)
  ultimately show ?thesis by (simp add: run)
qed

section \<open>The list as a table of clients\<close>

text \<open>
  What a server relies on: a table with one row for each connected client. Connecting and
  disconnecting are the commands; a run of commands refines the run on the table.
\<close>

datatype table_cmd = Connect int | Disconnect int

fun table_step ::
  "('s \<Rightarrow> int \<Rightarrow> 's res) \<Rightarrow> ('s \<Rightarrow> int \<Rightarrow> (bool \<times> 's) res) \<Rightarrow> 's \<Rightarrow> table_cmd \<Rightarrow> 's res" where
  "table_step add remove s (Connect k) = add s k"
| "table_step add remove s (Disconnect k) = rbind (remove s k) (\<lambda>(_, s). Inr s)"

fun cmd_ok :: "(int \<times> 'v) list \<Rightarrow> table_cmd \<Rightarrow> bool" where
  "cmd_ok t (Connect k) \<longleftrightarrow> 0 < k \<and> k \<notin> fst ` set t"
| "cmd_ok t (Disconnect k) \<longleftrightarrow> 0 < k \<and> t \<noteq> []"

fun cmd_apply :: "'v \<Rightarrow> (int \<times> 'v) list \<Rightarrow> table_cmd \<Rightarrow> (int \<times> 'v) list" where
  "cmd_apply fresh t (Connect k) = t @ [(k, fresh)]"
| "cmd_apply fresh t (Disconnect k) = filter (\<lambda>e. fst e \<noteq> k) t"

locale client_table =
  fixes find :: "'s \<Rightarrow> int \<Rightarrow> (bool \<times> 's) res"
    and add :: "'s \<Rightarrow> int \<Rightarrow> 's res"
    and remove :: "'s \<Rightarrow> int \<Rightarrow> (bool \<times> 's) res"
    and table :: "'s \<Rightarrow> (int \<times> 'v) list"
    and inv :: "'s \<Rightarrow> bool"
    and fresh :: 'v
  assumes find_law: "inv s \<Longrightarrow> 0 < k \<Longrightarrow> returns (find s k) (\<lambda>(b, s'). inv s' \<and> table s' = table s \<and>
      b = (k \<in> fst ` set (table s)))"
    and add_law: "inv s \<Longrightarrow> 0 < k \<Longrightarrow> k \<notin> fst ` set (table s) \<Longrightarrow>
      returns (add s k) (\<lambda>s'. inv s' \<and> table s' = table s @ [(k, fresh)])"
    and remove_law: "inv s \<Longrightarrow> 0 < k \<Longrightarrow> table s \<noteq> [] \<Longrightarrow> returns (remove s k) (\<lambda>(b, s').
      inv s' \<and> table s' = filter (\<lambda>e. fst e \<noteq> k) (table s) \<and> b = (k \<in> fst ` set (table s)))"
begin

lemma add_remove:
  assumes "inv s" and "0 < k" and "k \<notin> fst ` set (table s)"
  shows "returns (rbind (add s k) (\<lambda>s. remove s k)) (\<lambda>(b, s'). b \<and> inv s' \<and> table s' = table s)"
proof -
  obtain s1 where s1: "add s k = Inr s1" "inv s1" "table s1 = table s @ [(k, fresh)]"
    using add_law [OF assms] by (auto simp: returns_iff)
  have "filter (\<lambda>e. fst e \<noteq> k) (table s) = table s"
    using assms(3) by (intro filter_True) force
  then have "returns (remove s1 k) (\<lambda>(b, s'). b \<and> inv s' \<and> table s' = table s)"
    using remove_law [OF s1(2) assms(2)] s1(3) by (auto elim!: returns_mono)
  then show ?thesis by (simp add: s1(1))
qed

end

sublocale client_table \<subseteq> cmds: stepper "table_step add remove" inv table cmd_ok "cmd_apply fresh"
proof
  fix s c
  assume "inv s" and "cmd_ok (table s) c"
  then show "returns (table_step add remove s c) (\<lambda>s'. inv s' \<and> table s' = cmd_apply fresh (table s) c)"
  proof (cases c)
    case (Connect k)
    then show ?thesis using add_law [of s k] \<open>inv s\<close> \<open>cmd_ok (table s) c\<close> by simp
  next
    case (Disconnect k)
    then obtain b s' where "remove s k = Inr (b, s')" "inv s'" "table s' = filter (\<lambda>e. fst e \<noteq> k) (table s)"
      using remove_law [of s k] \<open>inv s\<close> \<open>cmd_ok (table s) c\<close> by (auto simp: returns_iff)
    then show ?thesis by (simp add: Disconnect)
  qed
qed

definition sl_rows :: "session_list \<Rightarrow> bool" where
  "sl_rows s \<longleftrightarrow> sl_inv s \<and> distinct (map fst (sl_table s))"

lemma filter_views:
  assumes "distinct (map (id_at h) (xs @ a # ys))"
  shows "filter (\<lambda>v. fst v \<noteq> id_at h a) (views h (xs @ a # ys)) = views h (xs @ ys)"
proof -
  have "filter (\<lambda>v. fst v \<noteq> id_at h a) (views h zs) = views h zs" if "id_at h a \<notin> id_at h ` set zs" for zs
    using that ids_views_set [of h zs] by (intro filter_True) (metis imageI)
  with assms have "filter (\<lambda>v. fst v \<noteq> id_at h a) (views h xs) = views h xs"
    "filter (\<lambda>v. fst v \<noteq> id_at h a) (views h ys) = views h ys"
    by auto
  then show ?thesis
    by (simp add: views_def id_at_def)
qed

lemma sl_find_law:
  assumes "sl_rows s" and "0 < k"
  shows "returns (clients_session_find s k) (\<lambda>(b, s'). sl_rows s' \<and> sl_table s' = sl_table s \<and>
    b = (k \<in> fst ` set (sl_table s)))"
proof -
  obtain xs where xs: "sl_at s xs" "sl_table s = views (sl_heap s) xs"
    using assms(1) by (auto simp: sl_rows_def elim: sl_invE)
  show ?thesis
    using find_ok [OF xs(1) assms(2)]
    by (rule returns_mono) (use sl_at_table assms(1) xs(2) in \<open>auto simp: sl_rows_def ids_views_set\<close>)
qed

lemma sl_add_law:
  assumes "sl_rows s \<and> alloc_ok al" and "0 < k" and "k \<notin> fst ` set (sl_table s)"
  shows "returns (clients_session_add al s k)
    (\<lambda>s'. (sl_rows s' \<and> alloc_ok al) \<and> sl_table s' = sl_table s @ [(k, [], [])])"
proof -
  obtain xs where xs: "sl_at s xs" "sl_table s = views (sl_heap s) xs"
    using assms(1) by (auto simp: sl_rows_def elim: sl_invE)
  have "returns (clients_session_add al s k) (\<lambda>s'. sl_inv s' \<and> sl_table s' = sl_table s @ [(k, [], [])])"
    using add_ok [OF xs(1) conjunct2 [OF assms(1)] assms(2)]
    by (rule returns_mono) (use sl_at_table xs(2) in metis)
  then show ?thesis
    by (rule returns_mono) (use assms in \<open>auto simp: sl_rows_def\<close>)
qed

lemma sl_remove_law:
  assumes "sl_rows s" and "0 < k" and "sl_table s \<noteq> []"
  shows "returns (clients_session_remove s k) (\<lambda>(b, s'). sl_rows s' \<and>
    sl_table s' = filter (\<lambda>e. fst e \<noteq> k) (sl_table s) \<and> b = (k \<in> fst ` set (sl_table s)))"
proof -
  obtain xs where xs: "sl_at s xs" "sl_table s = views (sl_heap s) xs"
    using assms(1) by (auto simp: sl_rows_def elim: sl_invE)
  then have "xs \<noteq> []" using assms(3) by (auto simp: views_def)
  then obtain c where cur: "sl_cur s = Some c" using sl_at_cur [OF xs(1)] by blast
  have ids: "distinct (map (id_at (sl_heap s)) xs)" "k \<in> fst ` set (sl_table s) \<longleftrightarrow> k \<in> id_at (sl_heap s) ` set xs"
    using assms(1) xs(2) by (simp_all add: sl_rows_def ids_views ids_views_set)
  obtain found s1 where find: "clients_session_find s k = Inr (found, s1)" "sl_at s1 xs" "sl_heap s1 = sl_heap s"
    "found = (k \<in> id_at (sl_heap s) ` set xs)"
    "found \<Longrightarrow> \<exists>a \<in> set xs. sl_cur s1 = Some a \<and> id_at (sl_heap s) a = k"
    using find_ok [OF xs(1) assms(2)] by (auto simp: returns_iff)
  show ?thesis
  proof (cases found)
    case True
    then obtain a where a: "a \<in> set xs" "sl_cur s1 = Some a" "id_at (sl_heap s) a = k" using find(5) by blast
    then obtain ys zs where split: "xs = ys @ a # zs" by (auto dest: split_list)
    obtain s2 where s2: "clients_session_free s1 = Inr s2" "sl_at s2 (ys @ zs)"
      "views (sl_heap s2) (ys @ zs) = views (sl_heap s) (ys @ zs)"
      using free_ok [of s1 ys a zs] find(2,3) a(2) split by (auto simp: returns_iff)
    have table: "sl_table s2 = filter (\<lambda>e. fst e \<noteq> k) (sl_table s)"
      using sl_at_table [OF s2(2)] s2(3) filter_views [of "sl_heap s" ys a zs] ids(1) a(3) xs(2) split by simp
    then have "sl_rows s2"
      using sl_at_table [OF s2(2)] assms(1) by (simp add: sl_rows_def distinct_map_filter)
    then show ?thesis
      using True find(1,4) s2(1) table cur assms(2) ids(2) by (simp add: clients_session_remove_def)
  next
    case False
    then have "filter (\<lambda>e. fst e \<noteq> k) (sl_table s) = sl_table s"
      using find(4) ids(2) by (intro filter_True) force
    then show ?thesis
      using False find sl_at_table [OF find(2)] xs(2) cur assms ids(2)
      by (simp add: clients_session_remove_def sl_rows_def)
  qed
qed

interpretation sessions: client_table clients_session_find "clients_session_add al" clients_session_remove
  sl_table "\<lambda>s. sl_rows s \<and> alloc_ok al" "([], [])" for al
  by unfold_locales
    (use sl_find_law sl_add_law sl_remove_law in \<open>auto elim!: returns_mono\<close>)

section \<open>The selected session\<close>

text \<open>After a successful search the caller works on the session under its pointer: \<open>sl_put\<close> writes it back.\<close>

definition sl_put :: "clients_session \<Rightarrow> session_list \<Rightarrow> session_list" where
  "sl_put n s = (case sl_cur s of None \<Rightarrow> s | Some a \<Rightarrow> s\<lparr>sl_heap := h_put a n (sl_heap s)\<rparr>)"

definition selected :: "session_list \<Rightarrow> clients_session \<Rightarrow> bool" where
  "selected s n \<longleftrightarrow> sl_rows s \<and> (\<exists>xs a ys. sl_at s (xs @ a # ys) \<and> sl_cur s = Some a \<and> h_mem (sl_heap s) a = Some n)"

lemma selectedD:
  assumes "selected s n"
  shows "sl_rows s" "deref (sl_heap s) (sl_cur s) = Inr n" "session_ok n"
    "map_of (sl_table s) (cs_client_id n) = Some (snd (view_of n))"
    "cs_client_id n \<in> fst ` set (sl_table s)"
proof -
  obtain xs a ys where at: "sl_at s (xs @ a # ys)" "sl_cur s = Some a" "h_mem (sl_heap s) a = Some n"
    and rows: "sl_rows s"
    using assms by (auto simp: selected_def)
  have table: "sl_table s = views (sl_heap s) (xs @ a # ys)"
    using sl_at_table [OF at(1)] by simp
  have "view_of n \<in> set (sl_table s)"
    using at(3) by (simp add: table views_def)
  moreover have "view_of n = (cs_client_id n, snd (view_of n))" by (simp add: view_of_def)
  ultimately show "map_of (sl_table s) (cs_client_id n) = Some (snd (view_of n))"
    using rows by (auto simp: sl_rows_def intro!: map_of_is_SomeI)
  from this show "cs_client_id n \<in> fst ` set (sl_table s)"
    by (force dest: map_of_SomeD)
  show "sl_rows s" by (rule rows)
  show "deref (sl_heap s) (sl_cur s) = Inr n" using at by simp
  show "session_ok n" using at by (auto simp: sl_at_def)
qed

lemma find_selects:
  assumes "sl_rows s" and "0 < k" and "k \<in> fst ` set (sl_table s)"
  shows "\<exists>s' n. clients_session_find s k = Inr (True, s') \<and> selected s' n \<and> cs_client_id n = k \<and>
    sl_table s' = sl_table s"
proof -
  obtain xs where xs: "sl_at s xs" "sl_table s = views (sl_heap s) xs"
    using assms(1) by (auto simp: sl_rows_def elim: sl_invE)
  obtain found s' where find: "clients_session_find s k = Inr (found, s')" "sl_at s' xs" "sl_heap s' = sl_heap s"
    "found = (k \<in> id_at (sl_heap s) ` set xs)"
    "found \<longrightarrow> (\<exists>a \<in> set xs. sl_cur s' = Some a \<and> id_at (sl_heap s) a = k)"
    using find_ok [OF xs(1) assms(2)] by (auto simp: returns_iff)
  have found using assms(3) xs(2) find(4) by (simp add: ids_views_set)
  with find(5) obtain a where a: "a \<in> set xs" "sl_cur s' = Some a" "id_at (sl_heap s) a = k" by blast
  then obtain n where n: "h_mem (sl_heap s') a = Some n"
    using find(2) lseg_live [of "h_mem (sl_heap s')" None xs None a] by (auto simp: sl_at_def dll_def)
  obtain ys zs where split: "xs = ys @ a # zs" using a(1) by (auto dest: split_list)
  have table: "sl_table s' = sl_table s" using sl_at_table [OF find(2)] find(3) xs(2) by simp
  then have "sl_rows s'" using sl_at_table [OF find(2)] assms(1) by (simp add: sl_rows_def)
  then have "selected s' n"
    using find(2) a(2) n split by (auto simp: selected_def)
  moreover have "cs_client_id n = k" using a(3) n find(3) by (simp add: id_at_def)
  ultimately show ?thesis using find(1) \<open>found\<close> table by auto
qed

text \<open>One row of the table replaced.\<close>

definition set_row :: "int \<Rightarrow> 'v \<Rightarrow> (int \<times> 'v) list \<Rightarrow> (int \<times> 'v) list" where
  "set_row k v t = map (\<lambda>e. if fst e = k then (k, v) else e) t"

lemma set_row_keys [simp]: "map fst (set_row k v t) = map fst t"
  by (simp add: set_row_def)

lemma set_row_key_set [simp]: "fst ` set (set_row k v t) = fst ` set t"
  by (metis set_row_keys image_set)

lemma set_row_twice [simp]: "set_row k v (set_row k w t) = set_row k v t"
  by (simp add: set_row_def)

lemma set_row_filter [simp]: "filter (\<lambda>e. fst e \<noteq> k) (set_row k v t) = filter (\<lambda>e. fst e \<noteq> k) t"
  by (induction t) (auto simp: set_row_def)

lemma set_row_split:
  assumes "distinct (map fst (xs @ (k, w) # ys))"
  shows "set_row k v (xs @ (k, w) # ys) = xs @ (k, v) # ys"
proof -
  have "set_row k v zs = zs" if "k \<notin> fst ` set zs" for zs
    using that by (induction zs) (auto simp: set_row_def)
  moreover have "k \<notin> fst ` set xs" "k \<notin> fst ` set ys" using assms by auto
  ultimately show ?thesis by (simp add: set_row_def)
qed

lemma set_row_same:
  assumes "distinct (map fst t)" and "map_of t k = Some v"
  shows "set_row k v t = t"
proof -
  have "(k, v) \<in> set t" using assms(2) by (rule map_of_SomeD)
  then obtain xs ys where t: "t = xs @ (k, v) # ys" by (auto dest: split_list)
  show ?thesis using set_row_split [of xs k v ys v] assms(1) by (simp add: t)
qed

lemma sl_put_selected:
  assumes "selected s n" and "session_ok n'"
    and "n_prev n' = n_prev n" "n_next n' = n_next n" "cs_client_id n' = cs_client_id n"
  shows "selected (sl_put n' s) n'"
    and "sl_table (sl_put n' s) = set_row (cs_client_id n) (snd (view_of n')) (sl_table s)"
proof -
  obtain xs a ys where at: "sl_at s (xs @ a # ys)" "sl_cur s = Some a" "h_mem (sl_heap s) a = Some n"
    and rows: "sl_rows s"
    using assms(1) by (auto simp: selected_def)
  let ?s = "s\<lparr>sl_heap := h_put a n' (sl_heap s)\<rparr>"
  have put: "sl_put n' s = ?s" using at(2) by (simp add: sl_put_def)
  have sep: "a \<notin> set xs" "a \<notin> set ys" using at(1) by (auto simp: sl_at_def dll_def)
  have "dll (sl_heap ?s) (xs @ a # ys)"
    using dll_put_payload [of "sl_heap s" xs a ys n n'] at(1,3) assms(3,4) by (simp add: sl_at_def)
  then have at': "sl_at ?s (xs @ a # ys)"
    using at(1,2) assms(2) sep by (auto simp: sl_at_def points_into_def)
  have table: "sl_table s = views (sl_heap s) xs @ view_of n # views (sl_heap s) ys"
    using sl_at_table [OF at(1)] at(3) by (simp add: views_def)
  have "view_of n = (cs_client_id n, snd (view_of n))" by (simp add: view_of_def)
  then have "set_row (cs_client_id n) (snd (view_of n')) (sl_table s)
      = views (sl_heap s) xs @ (cs_client_id n, snd (view_of n')) # views (sl_heap s) ys"
    using rows set_row_split [of "views (sl_heap s) xs" "cs_client_id n" "snd (view_of n)" "views (sl_heap s) ys"]
    by (simp add: sl_rows_def table)
  also have "(cs_client_id n, snd (view_of n')) = view_of n'"
    using assms(5) by (simp add: view_of_def)
  also have "views (sl_heap s) xs @ view_of n' # views (sl_heap s) ys = sl_table ?s"
    using sl_at_table [OF at'] sep by (auto simp: views_def)
  finally show table': "sl_table (sl_put n' s) = set_row (cs_client_id n) (snd (view_of n')) (sl_table s)"
    by (simp add: put)
  have "sl_rows ?s"
    using sl_at_table [OF at'] table' rows by (simp add: sl_rows_def put)
  then show "selected (sl_put n' s) n'"
    using at' at(2) by (auto simp: selected_def put)
qed

definition no_sessions :: session_list where
  "no_sessions = \<lparr>sl_heap = empty_heap, sl_cur = None\<rparr>"

lemma no_sessions_at: "sl_at no_sessions []"
  by (simp add: no_sessions_def sl_at_def dll_def points_into_def)

lemma no_sessions_rows: "sl_rows no_sessions" "sl_table no_sessions = []"
  using sl_at_table [OF no_sessions_at] by (simp_all add: sl_rows_def views_def)

lemma free_all_ok:
  assumes "sl_inv s" and "sl_cur s \<noteq> None"
  shows "returns (clients_session_free_all s) (\<lambda>s'. sl_cur s' = None \<and>
    (\<forall>a. h_mem (sl_heap s') a =
      (if a \<in> set (addresses (sl_heap s) (sl_cur s)) then None else h_mem (sl_heap s) a)))"
proof -
  let ?xs = "addresses (sl_heap s) (sl_cur s)"
  have at: "sl_at s ?xs" using assms(1) by (simp add: sl_inv_def)
  then have ne: "?xs \<noteq> []" using assms(2) sl_at_nil [of s] by auto
  obtain a where a: "sl_cur s = Some a" "a \<in> set ?xs" using sl_at_cur [OF at ne] by blast
  then obtain n where n: "h_mem (sl_heap s) a = Some n"
    using at lseg_live [of "h_mem (sl_heap s)" None ?xs None a] by (auto simp: sl_at_def dll_def)
  have "session_ok n" using at a n by (auto simp: sl_at_def)
  then have "cs_asset n \<noteq> None" by (auto simp: session_ok_def split: option.splits)
  moreover have "length ?xs \<le> h_brk (sl_heap s)"
    using at dll_length by (auto simp: sl_at_def)
  moreover have "sl_at (s\<lparr>sl_cur := Some (hd ?xs)\<rparr>) ?xs"
    using sl_at_move [OF at] ne by simp
  ultimately have "returns (clients_session_free_all s) (\<lambda>s'. sl_at s' [] \<and>
     (\<forall>a \<in> set ?xs. h_mem (sl_heap s') a = None) \<and>
     (\<forall>b. b \<notin> set ?xs \<longrightarrow> h_mem (sl_heap s') b = h_mem (sl_heap s) b))"
    using free_loop_ok [of "s\<lparr>sl_cur := Some (hd ?xs)\<rparr>" ?xs "h_brk (sl_heap s)"] a n get_beg_ok [OF at ne]
    by (simp add: clients_session_free_all_def)
  then show ?thesis
    by (rule returns_mono) (auto simp: sl_at_nil)
qed

section \<open>Properties\<close>

text \<open>C25: through any sequence of connections and disconnections, of any element of the list and wherever
  the program's pointer stands, the linked list of sessions holds one session for each
  connected client, in the order of connection, with all pointers intact.\<close>

theorem sessions_track_clients:
  assumes "sl_rows s" and "alloc_ok al"
    and "run_ok cmd_ok (cmd_apply ([], [])) (sl_table s) cmds"
  shows "returns (run_res (table_step (clients_session_add al) clients_session_remove) s cmds)
    (\<lambda>s'. sl_rows s' \<and> sl_table s' = foldl (cmd_apply ([], [])) (sl_table s) cmds)"
  using sessions.cmds.run_refines [of s al cmds] assms by (auto elim!: returns_mono)

theorem sessions_track_clients_witness:
  "returns (run_res (table_step (clients_session_add zero_alloc) clients_session_remove) no_sessions
      [Connect 5, Connect 7, Connect 9, Disconnect 7, Connect 7, Disconnect 5])
    (\<lambda>s'. sl_rows s' \<and> sl_table s' = [(9, [], []), (7, [], [])])"
proof -
  let ?cmds = "[Connect 5, Connect 7, Connect 9, Disconnect 7, Connect 7, Disconnect 5]"
  have "returns (run_res (table_step (clients_session_add zero_alloc) clients_session_remove) no_sessions ?cmds)
    (\<lambda>s'. sl_rows s' \<and> sl_table s' = foldl (cmd_apply ([], [])) (sl_table no_sessions) ?cmds)"
    by (rule sessions_track_clients [OF no_sessions_rows(1) zero_alloc_ok])
      (simp add: no_sessions_rows(2))
  then show ?thesis by (simp add: no_sessions_rows(2))
qed

text \<open>The search finds a client exactly when it is connected, leaves the pointer on its session, and
  changes neither the list nor any session.\<close>

lemma find_selects_session:
  assumes "sl_rows s" and "0 < k"
  shows "returns (clients_session_find s k) (\<lambda>(found, s'). sl_rows s' \<and> sl_heap s' = sl_heap s \<and>
    sl_table s' = sl_table s \<and> found = (k \<in> fst ` set (sl_table s)) \<and>
    (found \<longrightarrow> returns (deref (sl_heap s') (sl_cur s')) (\<lambda>n. cs_client_id n = k \<and> session_ok n)))"
proof -
  obtain xs where xs: "sl_at s xs" "sl_table s = views (sl_heap s) xs"
    using assms(1) by (auto simp: sl_rows_def elim: sl_invE)
  obtain found s' where find: "clients_session_find s k = Inr (found, s')" "sl_at s' xs" "sl_heap s' = sl_heap s"
    "found = (k \<in> id_at (sl_heap s) ` set xs)"
    "found \<longrightarrow> (\<exists>a \<in> set xs. sl_cur s' = Some a \<and> id_at (sl_heap s) a = k)"
    using find_ok [OF xs(1) assms(2)] by (auto simp: returns_iff)
  have "returns (deref (sl_heap s') (sl_cur s')) (\<lambda>n. cs_client_id n = k \<and> session_ok n)" if found
  proof -
    from find(5) that obtain a where a: "a \<in> set xs" "sl_cur s' = Some a" "id_at (sl_heap s) a = k" by blast
    then obtain n where "h_mem (sl_heap s') a = Some n"
      using find(2) lseg_live [of "h_mem (sl_heap s')" None xs None a] by (auto simp: sl_at_def dll_def)
    then show ?thesis
      using a find(2,3) by (auto simp: sl_at_def id_at_def)
  qed
  then show ?thesis
    using find sl_at_table [OF find(2)] xs(2) assms(1) by (simp add: sl_rows_def ids_views_set)
qed

text \<open>C38: freeing all sessions ends, from any element, with the pointer \<open>NULL\<close> and every struct of the list freed
  once; nothing else of the heap is touched.\<close>

theorem free_all_frees_everything:
  assumes "sl_inv s" and "sl_cur s \<noteq> None"
  shows "returns (clients_session_free_all s) (\<lambda>s'. sl_cur s' = None \<and>
    (\<forall>a. h_mem (sl_heap s') a =
      (if a \<in> set (addresses (sl_heap s) (sl_cur s)) then None else h_mem (sl_heap s) a)))"
  using assms by (rule free_all_ok)

theorem free_all_frees_everything_witness:
  "\<exists>s. clients_session_add zero_alloc no_sessions 5 = Inr s \<and>
     returns (clients_session_free_all s) (\<lambda>s'. sl_cur s' = None)"
proof -
  obtain s where s: "clients_session_add zero_alloc no_sessions 5 = Inr s" "sl_rows s" "sl_table s = [(5, [], [])]"
    using sl_add_law [of no_sessions zero_alloc 5] no_sessions_rows zero_alloc_ok by (auto simp: returns_iff)
  have "sl_inv s" using s(2) by (simp add: sl_rows_def)
  moreover have "sl_cur s \<noteq> None"
    using s(3) by (cases "sl_cur s") (auto simp: sl_table_def views_def addresses_def walk_from_def)
  ultimately have "sl_inv s" and "sl_cur s \<noteq> None" by simp_all
  from free_all_frees_everything [OF this] s(1) show ?thesis
    by (auto elim!: returns_mono)
qed

end
