(* ===== verification/Messages.thy ===== *)
theory Messages
  imports Queue Prices
begin

text \<open>
  \<open>means-to-an-end/messages.c\<close>: the binary protocol. A message is nine bytes, a type and two 32-bit
  words in network byte order, read by casting the buffer to a packed struct; inserts go to
  the client's prices, answers to queries to the send queue. The host is little-endian.
\<close>

section \<open>Words and bytes\<close>

text \<open>A load and a store of four bytes, least significant first, and the byte swaps.\<close>

definition load32 :: "char list \<Rightarrow> int32_t" where
  "load32 bs = horner_sum of_char 256 bs"

definition store32 :: "int32_t \<Rightarrow> char list" where
  "store32 w = map (\<lambda>i. char_of (unat w div 256 ^ i)) [0..<4]"

definition ntohl :: "int32_t \<Rightarrow> int32_t" where
  "ntohl w = load32 (rev (store32 w))"

definition htonl :: "int32_t \<Rightarrow> int32_t" where
  "htonl w = load32 (rev (store32 w))"

lemma store32_length [simp]: "length (store32 w) = 4"
  by (simp add: store32_def)

lemma char_of_plus: "char_of (of_char c + 256 * (n :: nat)) = c"
proof -
  have "(of_char c + 256 * n) mod 256 = of_char c" by simp
  then have "char_of (of_char c + 256 * n) = (char_of (of_char c :: nat) :: char)"
    using char_of_mod_256 [of "of_char c + 256 * n"] by simp
  then show ?thesis by simp
qed

definition bytes_value :: "char list \<Rightarrow> nat" where
  "bytes_value bs = horner_sum of_char 256 bs"

lemma bytes_value_Cons [simp]: "bytes_value (b # bs) = of_char b + 256 * bytes_value bs"
  "bytes_value [] = 0"
  by (simp_all add: bytes_value_def)

lemma bytes_value_less: "bytes_value bs < 256 ^ length bs"
proof (induction bs)
  case (Cons b bs)
  have "of_char b < (256 :: nat)" by (rule nat_of_char_less_256)
  with Cons.IH have "of_char b + 256 * bytes_value bs < 256 * (256 ^ length bs)"
    by linarith
  then show ?case by simp
qed simp

lemma bytes_value_tail: "bytes_value (b # bs) div 256 = bytes_value bs"
  using nat_of_char_less_256 [of b] by simp

lemma load32_bytes_value: "load32 bs = of_nat (bytes_value bs)"
  by (induction bs) (simp_all add: load32_def of_nat_of_char)

lemma unat_load32:
  assumes "length bs = 4"
  shows "unat (load32 bs) = bytes_value bs"
proof -
  have "bytes_value bs < 2 ^ 32"
    using bytes_value_less [of bs] assms by simp
  moreover have "load32 bs = of_nat (bytes_value bs)"
    by (rule load32_bytes_value)
  ultimately show ?thesis by (simp add: unat_of_nat)
qed

lemma nth_bytes_value:
  "i < length bs \<Longrightarrow> char_of (bytes_value bs div 256 ^ i) = bs ! i"
proof (induction bs arbitrary: i)
  case (Cons b bs)
  show ?case
  proof (cases i)
    case 0
    then show ?thesis by (simp add: char_of_plus)
  next
    case (Suc j)
    have "bytes_value (b # bs) div 256 ^ i = bytes_value bs div 256 ^ j"
      by (simp only: Suc power_Suc div_mult2_eq bytes_value_tail)
    with Cons Suc show ?thesis by simp
  qed
qed simp

lemma store32_load32: "length bs = 4 \<Longrightarrow> store32 (load32 bs) = bs"
  by (rule nth_equalityI) (simp_all add: store32_def unat_load32 nth_bytes_value)

lemma load32_inj: "length bs = 4 \<Longrightarrow> length cs = 4 \<Longrightarrow> load32 bs = load32 cs \<Longrightarrow> bs = cs"
  by (metis store32_load32)

lemma bytes_value_digits: "bytes_value (map (\<lambda>i. char_of (n div 256 ^ i)) [0..<k]) = n mod 256 ^ k"
proof (induction k arbitrary: n)
  case (Suc k)
  have "map (\<lambda>i. char_of (n div 256 ^ i)) [0..<Suc k]
      = char_of n # map (\<lambda>i. char_of (n div 256 div 256 ^ i)) [0..<k]"
    by (simp add: map_upt_Suc div_mult2_eq del: upt_Suc)
  then have "bytes_value (map (\<lambda>i. char_of (n div 256 ^ i)) [0..<Suc k])
      = n mod 256 + 256 * (n div 256 mod 256 ^ k)"
    by (simp only: bytes_value_Cons Suc.IH of_char_of)
  also have "\<dots> = n mod (256 * 256 ^ k)"
    by (simp add: mod_mult2_eq)
  finally show ?case by simp
qed simp

lemma load32_store32: "load32 (store32 w) = w"
proof -
  have "unat w < 256 ^ 4" using unsigned_less [of w, where 'a = nat] by simp
  then have "bytes_value (store32 w) = unat w"
    unfolding store32_def bytes_value_digits by simp
  then show ?thesis by (simp add: load32_bytes_value)
qed

text \<open>Network order: most significant byte first.\<close>

definition be32 :: "int32_t \<Rightarrow> char list" where
  "be32 w = rev (store32 w)"

lemma be32_length [simp]: "length (be32 w) = 4"
  by (simp add: be32_def)

lemma ntohl_load32: "length bs = 4 \<Longrightarrow> ntohl (load32 bs) = load32 (rev bs)"
  by (simp add: ntohl_def store32_load32)

lemma ntohl_be32: "ntohl (load32 (be32 w)) = w"
  by (simp add: ntohl_load32 be32_def load32_store32)

lemma store_htonl: "store32 (htonl w) = be32 w"
  by (simp add: htonl_def be32_def store32_load32)

section \<open>The parser\<close>

record message =
  msg_type :: char
  msg_first_word :: int32_t
  msg_second_word :: int32_t

definition MESSAGE_SIZE :: nat where "MESSAGE_SIZE = 9"

definition load_message :: "char list \<Rightarrow> nat \<Rightarrow> message res" where
  "load_message data pd =
     rbind (peek data pd MESSAGE_SIZE) (\<lambda>bs. Inr
       \<lparr>msg_type = bs ! 0, msg_first_word = load32 (take 4 (drop 1 bs)),
        msg_second_word = load32 (take 4 (drop 5 bs))\<rparr>)"

text \<open>The \<open>switch\<close> on the type, and the loop over the messages.\<close>

definition message_switch ::
  "allocator \<Rightarrow> asset_prices \<times> queue \<Rightarrow> message \<Rightarrow> (asset_prices \<times> queue) res" where
  "message_switch al s msg =
     (case s of (ps, sdqu) \<Rightarrow>
        if msg_type msg = CHR ''Q'' then
          rbind (asset_prices_query ps \<lparr>aq_mintime = ntohl (msg_first_word msg),
              aq_maxtime = ntohl (msg_second_word msg)\<rparr>)
            (\<lambda>mean. rbind (queue_push al sdqu (store32 (htonl mean)) 4) (\<lambda>sdqu. Inr (ps, sdqu)))
        else if msg_type msg = CHR ''I'' then
          rbind (insert_new asset_prices_duplicate_timestamp_check (asset_prices_push al) ap_timestamp ps
              \<lparr>ap_timestamp = ntohl (msg_first_word msg), ap_price = ntohl (msg_second_word msg)\<rparr>)
            (\<lambda>ps. Inr (ps, sdqu))
        else Inr (ps, sdqu))"

fun message_loop ::
  "allocator \<Rightarrow> char list \<Rightarrow> nat \<Rightarrow> nat \<Rightarrow> asset_prices \<times> queue \<Rightarrow> (asset_prices \<times> queue) res" where
  "message_loop al data 0 pd s = Inr s"
| "message_loop al data (Suc n) pd s =
     rbind (load_message data pd) (\<lambda>msg.
     rbind (message_switch al s msg) (message_loop al data n (pd + MESSAGE_SIZE)))"

definition message_parse ::
  "allocator \<Rightarrow> asset_prices \<Rightarrow> queue \<Rightarrow> char list \<Rightarrow> size_t \<Rightarrow> (asset_prices \<times> queue) res" where
  "message_parse al ps sdqu data dsize =
     (if \<not> dsize > 0 then Inl Assert_failed
      else message_loop al data (nat (int_of_size (dsize div of_nat MESSAGE_SIZE))) 0 (ps, sdqu))"

section \<open>The protocol\<close>

text \<open>Requests, their bytes on the wire, and what the service does with one.\<close>

datatype request =
    Insert int32_t int32_t
  | Query int32_t int32_t
  | Other char int32_t int32_t

fun encode :: "request \<Rightarrow> char list" where
  "encode (Insert t p) = CHR ''I'' # be32 t @ be32 p"
| "encode (Query a b) = CHR ''Q'' # be32 a @ be32 b"
| "encode (Other c a b) = c # be32 a @ be32 b"

definition decode :: "message \<Rightarrow> request" where
  "decode m = (let a = ntohl (msg_first_word m); b = ntohl (msg_second_word m) in
     if msg_type m = CHR ''Q'' then Query a b
     else if msg_type m = CHR ''I'' then Insert a b
     else Other (msg_type m) a b)"

fun request_wf :: "request \<Rightarrow> bool" where
  "request_wf (Other c a b) \<longleftrightarrow> c \<noteq> CHR ''I'' \<and> c \<noteq> CHR ''Q''"
| "request_wf _ \<longleftrightarrow> True"

type_synonym ledger = "asset_price list \<times> char list"

fun serve :: "ledger \<Rightarrow> request \<Rightarrow> ledger" where
  "serve (cs, out) (Insert t p) = (add_first ap_timestamp cs \<lparr>ap_timestamp = t, ap_price = p\<rparr>, out)"
| "serve (cs, out) (Query a b) =
     (cs, out @ be32 (word_of_int (mean_price (sint a) (sint b) (map price_pair cs))))"
| "serve (cs, out) (Other _ _ _) = (cs, out)"

lemma encode_length [simp]: "length (encode r) = 9"
  by (cases r) simp_all

lemma load_encode:
  assumes "take 9 (drop pd data) = encode r" and "request_wf r"
  shows "\<exists>m. load_message data pd = Inr m \<and> decode m = r"
proof -
  have "length (take 9 (drop pd data)) = 9"
    by (simp only: assms(1) encode_length)
  then have "pd + 9 \<le> length data" by simp
  then have peek: "peek data pd MESSAGE_SIZE = Inr (encode r)"
    using assms(1) by (simp add: peek_def MESSAGE_SIZE_def)
  have parts: "take 4 (drop 1 (encode r)) = be32 a \<and> take 4 (drop 5 (encode r)) = be32 b \<and> encode r ! 0 = c"
    if "encode r = c # be32 a @ be32 b" for a b c
    using that by simp
  show ?thesis
    using assms(2) parts
    by (cases r) (simp_all add: load_message_def peek decode_def ntohl_be32)
qed

section \<open>The parser implements the protocol\<close>

definition msg_inv :: "allocator \<Rightarrow> (char \<Rightarrow> bool) \<Rightarrow> asset_prices \<times> queue \<Rightarrow> bool" where
  "msg_inv al P s \<longleftrightarrow> ps_inv (fst s) \<and> q_inv (snd s) \<and> alloc_ok al \<and> fresh_all P al \<and> q_all P (snd s)"

definition ledger_of :: "asset_prices \<times> queue \<Rightarrow> ledger" where
  "ledger_of s = (ps_cells (fst s), q_bytes (snd s))"

text \<open>
  The bounds: fewer than \<open>2 ^ 31\<close> prices, for the counter of a query, and answers of at most a terabyte.
  \<open>P\<close> is any property of the bytes of the answers; the whole send buffer keeps it.
\<close>

definition ledger_ok :: "(char \<Rightarrow> bool) \<Rightarrow> ledger \<Rightarrow> message \<Rightarrow> bool" where
  "ledger_ok P a m \<longleftrightarrow> length (fst a) < 2 ^ 31 \<and> length (snd a) + 4 \<le> 2 ^ 40 \<and>
     list_all P (snd (serve a (decode m)))"

lemma queue_push_word:
  assumes "q_inv q" and "alloc_ok al" and "length (q_bytes q) + 4 \<le> 2 ^ 40"
    and "fresh_all P al" and "q_all P q" and "list_all P (be32 w)"
  shows "returns (queue_push al q (be32 w) 4) (\<lambda>q'. q_inv q' \<and> q_bytes q' = q_bytes q @ be32 w \<and> q_all P q')"
proof -
  obtain q' where q': "queue_push al q (be32 w) 4 = Inr q'" "q_inv q'" "q_bytes q' = q_bytes q @ be32 w"
    using push_bytes_ok [OF assms(1,2), of "be32 w"] assms(3) by (auto simp: push_bytes_def returns_iff)
  moreover have "q_all P q'"
    using queue_push_all [OF q'(1) assms(4,5)] assms(6) by (simp add: list_all_iff)
  ultimately show ?thesis by simp
qed

lemma message_switch_serves:
  assumes "msg_inv al P s" and "ledger_ok P (ledger_of s) m"
  shows "returns (message_switch al s m)
    (\<lambda>s'. msg_inv al P s' \<and> ledger_of s' = serve (ledger_of s) (decode m))"
proof -
  obtain ps qu where s: "s = (ps, qu)" by fastforce
  have inv: "ps_inv ps" "q_inv qu" "alloc_ok al" "fresh_all P al" "q_all P qu"
    and len: "length (ps_cells ps) < 2 ^ 31" "length (q_bytes qu) + 4 \<le> 2 ^ 40"
    and out: "list_all P (snd (serve (ps_cells ps, q_bytes qu) (decode m)))"
    using assms by (simp_all add: s msg_inv_def ledger_ok_def ledger_of_def)
  consider (query) "msg_type m = CHR ''Q''" | (insert) "msg_type m = CHR ''I''"
    | (other) "msg_type m \<noteq> CHR ''Q''" "msg_type m \<noteq> CHR ''I''" by blast
  then show ?thesis
  proof cases
    case query
    let ?mean = "word_of_int (mean_price (sint (ntohl (msg_first_word m))) (sint (ntohl (msg_second_word m)))
      (ps_prices ps)) :: int32_t"
    have "list_all P (be32 ?mean)"
      using out query by (simp add: decode_def ps_prices_def Let_def)
    from queue_push_word [OF inv(2,3) len(2) inv(4,5) this]
    have "returns (queue_push al qu (be32 ?mean) 4)
      (\<lambda>q'. q_inv q' \<and> q_bytes q' = q_bytes qu @ be32 ?mean \<and> q_all P q')" .
    then show ?thesis
      using query asset_prices_query_ok [OF inv(1) len(1)] inv
      by (auto simp: s message_switch_def returns_rbind store_htonl decode_def ledger_of_def
          msg_inv_def ps_prices_def Let_def elim!: returns_mono)
  next
    case insert
    then show ?thesis
      using store.insert_new_ok [of ps al] inv len
      by (auto simp: s message_switch_def returns_rbind decode_def ledger_of_def msg_inv_def Let_def
          elim!: returns_mono)
  next
    case other
    then show ?thesis
      using assms(1) by (simp add: s message_switch_def decode_def ledger_of_def msg_inv_def Let_def)
  qed
qed

interpretation protocol: stepper "message_switch al" "msg_inv al P" ledger_of "ledger_ok P"
  "\<lambda>a m. serve a (decode m)" for al P
  by unfold_locales (rule message_switch_serves)

lemma serve_grows:
  "length (fst (serve a r)) \<le> Suc (length (fst a))" "length (snd (serve a r)) \<le> length (snd a) + 4"
  by (cases a; cases r; simp add: add_first_def)+

lemma serve_run_grows: "length (snd (foldl serve a rs)) \<le> length (snd a) + 4 * length rs"
proof (induction rs arbitrary: a)
  case (Cons r rs)
  show ?case using Cons.IH [of "serve a r"] serve_grows(2) [of a r] by simp
qed simp

lemma serve_out: "list_all P (snd (serve a r)) \<Longrightarrow> list_all P (snd a)"
  by (cases a; cases r) simp_all

lemma serve_all_out: "list_all P (snd (foldl serve a rs)) \<Longrightarrow> list_all P (snd a)"
proof (induction rs arbitrary: a)
  case (Cons r rs)
  then have "list_all P (snd (serve a r))" by simp
  then show ?case by (rule serve_out)
qed simp

lemma ledger_run_ok:
  "length (fst a) + length ms \<le> 2 ^ 31 \<Longrightarrow> length (snd a) + 4 * length ms \<le> 2 ^ 40 \<Longrightarrow>
   list_all P (snd (foldl serve a (map decode ms))) \<Longrightarrow>
   run_ok (ledger_ok P) (\<lambda>a m. serve a (decode m)) a ms"
proof (induction ms arbitrary: a)
  case (Cons m ms)
  have "run_ok (ledger_ok P) (\<lambda>a m. serve a (decode m)) (serve a (decode m)) ms"
    using serve_grows [of a "decode m"] Cons.prems by (intro Cons.IH) simp_all
  with Cons.prems show ?case
    using serve_all_out [of P "serve a (decode m)" "map decode ms"] by (simp add: ledger_ok_def [of P a m])
qed simp

lemma message_loop_run:
  "take (9 * length rs) (drop pd data) = concat (map encode rs) \<Longrightarrow> list_all request_wf rs \<Longrightarrow>
   \<exists>ms. map decode ms = rs \<and> message_loop al data (length rs) pd s = run_res (message_switch al) s ms"
proof (induction rs arbitrary: pd s)
  case (Cons r rs)
  have split: "take 9 (drop pd data) @ take (9 * length rs) (drop (pd + 9) data) = encode r @ concat (map encode rs)"
    using Cons.prems(1) by (simp add: take_add add.commute)
  then have "take 9 (drop pd data) = encode r"
  proof -
    have "length (take 9 (drop pd data) @ take (9 * length rs) (drop (pd + 9) data)) = 9 * Suc (length rs)"
      unfolding split by (simp add: length_concat comp_def sum_list_triv)
    then have "length (take 9 (drop pd data)) = 9" by simp
    with split show ?thesis by (simp add: append_eq_append_conv)
  qed
  moreover from this split have rest: "take (9 * length rs) (drop (pd + 9) data) = concat (map encode rs)"
    by simp
  ultimately obtain m where m: "load_message data pd = Inr m" "decode m = r"
    using load_encode [of pd data r] Cons.prems(2) by auto
  show ?case
  proof (cases "message_switch al s m")
    case (Inl e)
    obtain ms where "map decode ms = rs"
      using Cons.IH [OF rest] Cons.prems(2) by auto
    then have "map decode (m # ms) = r # rs" using m by simp
    then show ?thesis
      using m Inl by (intro exI [of _ "m # ms"]) simp
  next
    case (Inr s')
    obtain ms where "map decode ms = rs"
      "message_loop al data (length rs) (pd + 9) s' = run_res (message_switch al) s' ms"
      using Cons.IH [OF rest, of s'] Cons.prems(2) by auto
    then show ?thesis
      using m Inr by (intro exI [of _ "m # ms"]) (simp add: MESSAGE_SIZE_def)
  qed
qed simp

lemma message_parse_ok:
  assumes "msg_inv al P (ps, qu)" and "list_all request_wf rs"
    and "take (9 * length rs) data = concat (map encode rs)"
    and "0 < unat n" and "unat n div 9 = length rs"
    and "length (ps_cells ps) + length rs \<le> 2 ^ 31 - 1" and "length (q_bytes qu) + 4 * length rs \<le> 2 ^ 40"
    and "list_all P (snd (foldl serve (ps_cells ps, q_bytes qu) rs))"
  shows "returns (message_parse al ps qu data n)
    (\<lambda>s'. msg_inv al P s' \<and> ledger_of s' = foldl serve (ps_cells ps, q_bytes qu) rs)"
proof -
  obtain ms where ms: "map decode ms = rs"
    and loop: "message_loop al data (length rs) 0 (ps, qu) = run_res (message_switch al) (ps, qu) ms"
    using message_loop_run [of rs 0 data al "(ps, qu)"] assms(2,3) by auto
  have "unat (n div of_nat MESSAGE_SIZE) = length rs"
    using assms(5) by (simp add: unat_div MESSAGE_SIZE_def)
  then have "nat (int_of_size (n div of_nat MESSAGE_SIZE)) = length rs"
    using assms(6) by (subst int_of_size_small) simp_all
  then have parse: "message_parse al ps qu data n = run_res (message_switch al) (ps, qu) ms"
    using assms(4) by (simp add: message_parse_def loop word_less_nat_alt)
  have len: "length ms = length rs" using ms by (metis length_map)
  have "foldl (\<lambda>a m. serve a (decode m)) a ms = foldl serve a rs" for a
    by (simp add: ms [symmetric] foldl_map)
  moreover have "returns (run_res (message_switch al) (ps, qu) ms)
    (\<lambda>s'. msg_inv al P s' \<and> ledger_of s' = foldl (\<lambda>a m. serve a (decode m)) (ledger_of (ps, qu)) ms)"
    using assms len ms by (intro protocol.run_refines ledger_run_ok) (simp_all add: ledger_of_def)
  ultimately show ?thesis
    by (simp add: parse ledger_of_def)
qed

text \<open>The requests in a byte string: nine bytes each, the incomplete rest ignored.\<close>

definition request_of :: "char list \<Rightarrow> request" where
  "request_of bs = decode \<lparr>msg_type = bs ! 0, msg_first_word = load32 (take 4 (drop 1 bs)),
     msg_second_word = load32 (take 4 (drop 5 bs))\<rparr>"

function requests :: "char list \<Rightarrow> request list" where
  "requests bs = (if length bs < 9 then [] else request_of (take 9 bs) # requests (drop 9 bs))"
  by pat_completeness auto

termination requests
  by (relation "measure length") auto

declare requests.simps [simp del]

lemma be32_load32: "length bs = 4 \<Longrightarrow> be32 (ntohl (load32 bs)) = bs"
  by (simp add: be32_def ntohl_load32 store32_load32)

lemma encode_request_of:
  assumes "length bs = 9"
  shows "encode (request_of bs) = bs" and "request_wf (request_of bs)"
proof -
  let ?a = "take 4 (drop 1 bs)" and ?b = "take 4 (drop 5 bs)"
  have "bs = bs ! 0 # drop 1 bs"
    using assms by (cases bs) auto
  moreover have "drop 1 bs = ?a @ ?b"
    using assms append_take_drop_id [of 4 "drop 1 bs"] by (simp add: min_def)
  ultimately have bs: "bs = bs ! 0 # ?a @ ?b" by simp
  have "be32 (ntohl (load32 ?a)) = ?a" "be32 (ntohl (load32 ?b)) = ?b"
    using assms by (simp_all add: be32_load32)
  then show "encode (request_of bs) = bs" and "request_wf (request_of bs)"
    using bs by (auto simp: request_of_def decode_def Let_def)
qed

lemma requests_encode:
  "length (requests bs) = length bs div 9 \<and> list_all request_wf (requests bs) \<and>
   concat (map encode (requests bs)) = take (9 * (length bs div 9)) bs"
proof (induction bs rule: requests.induct)
  case (1 bs)
  show ?case
  proof (cases "length bs < 9")
    case True
    then show ?thesis by (simp add: requests.simps [of bs])
  next
    case False
    then have len: "length bs div 9 = Suc ((length bs - 9) div 9)"
      by (simp add: le_div_geq)
    have "take (9 + 9 * ((length bs - 9) div 9)) bs = take 9 bs @ take (9 * ((length bs - 9) div 9)) (drop 9 bs)"
      by (rule take_add)
    then show ?thesis
      using 1 [OF False] encode_request_of [of "take 9 bs"] False len
      by (simp add: requests.simps [of bs])
  qed
qed

lemma request_of_encode:
  assumes "request_wf r"
  shows "request_of (encode r) = r"
proof -
  have "take 4 (drop 1 (encode r)) = be32 a \<and> take 4 (drop 5 (encode r)) = be32 b \<and> encode r ! 0 = c"
    if "encode r = c # be32 a @ be32 b" for a b c
    using that by simp
  then show ?thesis
    using assms by (cases r) (simp_all add: request_of_def decode_def ntohl_be32)
qed

lemma requests_of_encoded: "list_all request_wf rs \<Longrightarrow> requests (concat (map encode rs)) = rs"
  by (induction rs) (simp_all add: requests.simps [of "[]"] requests.simps [of "encode _ @ _"] request_of_encode)

section \<open>Properties\<close>

text \<open>C9: parsing a buffer of requests does to the prices and to the bytes queued for the client exactly
  what the service does with the requests one by one; unknown types change nothing and a
  trailing incomplete message is ignored. No request makes it fault.\<close>

theorem message_parse_serves:
  assumes "ps_inv ps" and "q_inv qu" and "alloc_ok al" and "list_all request_wf rs"
    and "take (9 * length rs) data = concat (map encode rs)"
    and "0 < unat n" and "unat n div 9 = length rs"
    and "length (ps_cells ps) + length rs \<le> 2 ^ 31 - 1" and "length (q_bytes qu) + 4 * length rs \<le> 2 ^ 40"
  shows "returns (message_parse al ps qu data n)
    (\<lambda>(ps', qu'). ps_inv ps' \<and> q_inv qu' \<and>
       (ps_cells ps', q_bytes qu') = foldl serve (ps_cells ps, q_bytes qu) rs)"
proof -
  have "msg_inv al (\<lambda>_. True) (ps, qu)"
    using assms(1-3) by (simp add: msg_inv_def fresh_all_def q_all_def)
  from message_parse_ok [OF this assms(4-9)]
  have "returns (message_parse al ps qu data n) (\<lambda>s'. msg_inv al (\<lambda>_. True) s' \<and>
      ledger_of s' = foldl serve (ps_cells ps, q_bytes qu) rs)"
    by (simp add: list_all_iff)
  then show ?thesis
    by (rule returns_mono) (auto simp: msg_inv_def ledger_of_def)
qed

definition sample_requests :: "request list" where
  "sample_requests = [Insert 12300 101, Other CHR ''x'' 0 0, Insert 12345 (-9), Query 12288 16384]"

lemma sample_serve:
  "foldl serve (ps_cells sample_prices, q_bytes small_queue) sample_requests =
    (ps_cells sample_prices @ [\<lparr>ap_timestamp = 12300, ap_price = 101\<rparr>], ''abcd'' @ be32 101)"
  by (simp add: sample_requests_def ps_cells_def sample_prices_def small_queue_def q_bytes_def
      add_first_def mean_price_def in_period_def price_pair_def)

theorem message_parse_serves_witness:
  "returns (message_parse zero_alloc sample_prices small_queue
      (concat (map encode sample_requests) @ ''I12'') 39)
    (\<lambda>(ps', qu'). q_bytes qu' = ''abcd'' @ be32 101 \<and> length (ps_cells ps') = 5)"
proof -
  have len: "length sample_requests = 4" by (simp add: sample_requests_def)
  have "returns (message_parse zero_alloc sample_prices small_queue
      (concat (map encode sample_requests) @ ''I12'') 39)
    (\<lambda>(ps', qu'). ps_inv ps' \<and> q_inv qu' \<and> (ps_cells ps', q_bytes qu')
       = foldl serve (ps_cells sample_prices, q_bytes small_queue) sample_requests)"
  proof (rule message_parse_serves [OF sample_prices_inv(1) small_queue_inv zero_alloc_ok])
    show "take (9 * length sample_requests) (concat (map encode sample_requests) @ ''I12'')
        = concat (map encode sample_requests)"
      by (simp add: sample_requests_def)
    show "length (q_bytes small_queue) + 4 * length sample_requests \<le> 2 ^ 40"
      by (simp add: len small_queue_def q_bytes_def)
  qed (simp_all add: len sample_prices_inv(2), simp add: sample_requests_def)
  then show ?thesis
    unfolding sample_serve by (rule returns_mono) (auto simp: sample_prices_inv(2))
qed

lemma be32_rev_load32: "length bs = 4 \<Longrightarrow> be32 (load32 (rev bs)) = bs"
  by (simp add: be32_def store32_load32)

text \<open>A timestamp that no other price has: the mean over just that second is the price itself.\<close>

lemma mean_price_single:
  assumes "\<forall>c \<in> set cs. ap_timestamp c \<noteq> ap_timestamp p"
  shows "mean_price (sint (ap_timestamp p)) (sint (ap_timestamp p)) (map price_pair (cs @ [p])) = sint (ap_price p)"
proof -
  have "in_period (sint (ap_timestamp p)) (sint (ap_timestamp p)) (map price_pair cs) = []"
    using assms by (auto simp: in_period_def price_pair_def filter_empty_conv dest: signed_word_eqI)
  then have "in_period (sint (ap_timestamp p)) (sint (ap_timestamp p)) (map price_pair (cs @ [p])) = [sint (ap_price p)]"
    by (simp add: in_period_def price_pair_def)
  then show ?thesis by (simp add: mean_price_def)
qed

text \<open>C35: what was stored through the wire is read back through the wire, byte for byte: for a client whose prices have no entry for a
  timestamp, an insert message with any four bytes for the timestamp and any four for the price, followed by a query of just that
  timestamp, stores the two numbers whose bytes, most significant first, these are, and answers with the same four bytes of
  the price (sizes below \<open>2 ^ 31\<close> prices and \<open>2 ^ 40\<close> queued bytes, and memory that does not run out).\<close>

theorem price_bytes_come_back:
  assumes "ps_inv ps" and "q_inv qu" and "alloc_ok al" and "length tb = 4" and "length pb = 4"
    and "\<forall>c \<in> set (ps_cells ps). ap_timestamp c \<noteq> load32 (rev tb)"
    and "length (ps_cells ps) + 3 \<le> 2 ^ 31" and "length (q_bytes qu) + 8 \<le> 2 ^ 40"
  shows "returns (message_parse al ps qu (CHR ''I'' # tb @ pb @ CHR ''Q'' # tb @ tb @ slack) 18)
    (\<lambda>(ps', qu'). ps_cells ps' = ps_cells ps @ [\<lparr>ap_timestamp = load32 (rev tb), ap_price = load32 (rev pb)\<rparr>] \<and>
       q_bytes qu' = q_bytes qu @ pb)"
proof -
  let ?t = "load32 (rev tb)" and ?p = "load32 (rev pb)"
  let ?cell = "\<lparr>ap_timestamp = ?t, ap_price = ?p\<rparr>" and ?rs = "[Insert ?t ?p, Query ?t ?t]"
  have "mean_price (sint ?t) (sint ?t) (map price_pair (ps_cells ps @ [?cell])) = sint ?p"
    using mean_price_single [of "ps_cells ps" ?cell] assms(6) by simp
  moreover have "?t \<notin> ap_timestamp ` set (ps_cells ps)" using assms(6) by auto
  ultimately have run: "foldl serve (ps_cells ps, q_bytes qu) ?rs = (ps_cells ps @ [?cell], q_bytes qu @ pb)"
    using be32_rev_load32 [OF assms(5)] by (simp add: add_first_def)
  have "returns (message_parse al ps qu (CHR ''I'' # tb @ pb @ CHR ''Q'' # tb @ tb @ slack) 18)
    (\<lambda>s'. msg_inv al (\<lambda>_. True) s' \<and> ledger_of s' = foldl serve (ps_cells ps, q_bytes qu) ?rs)"
  proof (rule message_parse_ok)
    show "msg_inv al (\<lambda>_. True) (ps, qu)"
      using assms(1-3) by (simp add: msg_inv_def fresh_all_def q_all_def)
    show "take (9 * length ?rs) (CHR ''I'' # tb @ pb @ CHR ''Q'' # tb @ tb @ slack) = concat (map encode ?rs)"
      using assms(4,5) be32_rev_load32 by simp
  qed (use assms(7,8) in \<open>simp_all add: list_all_iff\<close>)
  then show ?thesis
    unfolding run by (rule returns_mono) (auto simp: ledger_of_def)
qed

theorem price_bytes_come_back_witness:
  "returns (message_parse zero_alloc sample_prices small_queue
      (CHR ''I'' # [NUL, NUL, CHR ''0'', CHR ''0''] @ ''%abc'' @ CHR ''Q'' # [NUL, NUL, CHR ''0'', CHR ''0''] @ [NUL, NUL, CHR ''0'', CHR ''0''] @ ''!'') 18)
    (\<lambda>(ps', qu'). q_bytes qu' = ''abcd'' @ ''%abc'')"
proof -
  let ?tb = "[NUL, NUL, CHR ''0'', CHR ''0'']"
  have "returns (message_parse zero_alloc sample_prices small_queue
      (CHR ''I'' # ?tb @ ''%abc'' @ CHR ''Q'' # ?tb @ ?tb @ ''!'') 18)
    (\<lambda>(ps', qu'). ps_cells ps' = ps_cells sample_prices @ [\<lparr>ap_timestamp = load32 (rev ?tb), ap_price = load32 (rev ''%abc'')\<rparr>] \<and>
       q_bytes qu' = q_bytes small_queue @ ''%abc'')"
    by (rule price_bytes_come_back [OF sample_prices_inv(1) small_queue_inv zero_alloc_ok])
      (simp_all add: ps_cells_def sample_prices_def small_queue_def q_bytes_def load32_def NUL_def)
  then show ?thesis
    by (rule returns_mono) (auto simp: small_queue_def q_bytes_def)
qed

end
