(* ===== verification/Means.thy ===== *)
theory Means
  imports Server Sessions Messages
begin

text \<open>
  The price server \<open>means-to-an-end/main.c\<close>: a session for each connection, requests collected until a
  whole number of them has arrived, answers through one send queue. \<open>means_event\<close> is the body of the
  loop over the events, \<open>means_wait\<close> one round of the outer loop with its time-out, \<open>means_main\<close> the
  program over any finite sequence of returns of \<open>epoll_wait\<close>.
\<close>

section \<open>The program\<close>

record means_state =
  m_ca :: session_list
  m_sdqu :: queue
  m_k :: kernel

text \<open>The end of a client: remove its session, deregister and close.\<close>

definition means_drop :: "int \<Rightarrow> int \<Rightarrow> means_state \<Rightarrow> means_state res" where
  "means_drop epollfd fd s =
     rbind (clients_session_remove (m_ca s) fd) (\<lambda>(_, ca).
     rbind (drop_connection epollfd fd (m_k s)) (\<lambda>k. Inr (s\<lparr>m_ca := ca, m_k := k\<rparr>)))"

text \<open>
  A complete buffer: parse it and send the answers. The result is the state and whether the sending
  failed; \<open>cur\<close> is \<open>*ca\<close>.
\<close>

definition means_process ::
  "allocator \<Rightarrow> int \<Rightarrow> clients_session \<Rightarrow> queue \<Rightarrow> means_state \<Rightarrow> (bool \<times> means_state) res" where
  "means_process al fd cur qu s =
     (case queue_pop_no_copy qu of (sz, data, qu) \<Rightarrow>
        (case data of
           None \<Rightarrow> Inl Uninitialised
         | Some mem \<Rightarrow>
             (case cs_asset cur of
                None \<Rightarrow> Inl Assert_failed
              | Some ps \<Rightarrow>
                  rbind (message_parse al ps (m_sdqu s) mem (word_of_int sz)) (\<lambda>(ps, sdqu).
                  (let s = s\<lparr>m_ca := sl_put (cur\<lparr>cs_asset := Some ps, cs_recv_qu := Some qu\<rparr>) (m_ca s)\<rparr> in
                   case queue_pop_no_copy sdqu of (sdsz, sddata, sdqu) \<Rightarrow>
                     if sdsz > 0 then
                       (case sddata of
                          None \<Rightarrow> Inl Uninitialised
                        | Some sdmem \<Rightarrow> rbind (sendall fd sdmem sdsz (m_k s)) (\<lambda>(rs, _, k).
                            Inr (rs \<noteq> 0, s\<lparr>m_sdqu := sdqu, m_k := k\<rparr>)))
                     else Inr (False, s\<lparr>m_sdqu := sdqu\<rparr>))))))"

definition means_event :: "allocator \<Rightarrow> int \<Rightarrow> int \<Rightarrow> means_state \<Rightarrow> int \<Rightarrow> means_state res" where
  "means_event al epollfd listen_fd s fd =
     (if fd = listen_fd
      then rbind (fd_accept_and_epoll_add (epci epollfd fd) (m_k s)) (\<lambda>(new_fd, k).
           rbind (clients_session_add al (m_ca s) new_fd) (\<lambda>ca. Inr (s\<lparr>m_ca := ca, m_k := k\<rparr>)))
      else rbind (clients_session_find (m_ca s) fd) (\<lambda>(client_found, ca).
        if \<not> client_found then Inl Assert_failed
        else rbind (deref (sl_heap ca) (sl_cur ca)) (\<lambda>cur.
          (case cs_recv_qu cur of
             None \<Rightarrow> Inl Assert_failed
           | Some qu \<Rightarrow>
               rbind (recv_request al fd qu (m_k s)) (\<lambda>(r, qu, k).
               (let cur = cur\<lparr>cs_recv_qu := Some qu\<rparr>;
                    s = s\<lparr>m_ca := sl_put cur ca, m_k := k\<rparr> in
                if r < -1 then means_drop epollfd fd s
                else rbind (case queue_peek qu of (sz, _) \<Rightarrow>
                       if sz > 0 \<and> sz mod int MESSAGE_SIZE = 0
                       then means_process al fd cur qu s else Inr (False, s)) (\<lambda>(failed, s).
                     if failed then means_drop epollfd fd s
                     else if r = -1 then Inr s
                     else means_drop epollfd fd s)))))))"

text \<open>
  The clean-up at the time-out: what is left of the program's state when it exits. Closing the epoll
  instance ends the registrations it held.
\<close>

record means_end =
  me_ca :: session_list
  me_sdqu :: "queue option"
  me_k :: kernel

definition close_epoll :: "int \<Rightarrow> kernel \<Rightarrow> kernel" where
  "close_epoll epollfd k = (close_call epollfd k)\<lparr>k_interest := []\<rparr>"

definition means_cleanup :: "int \<Rightarrow> int \<Rightarrow> means_state \<Rightarrow> means_end res" where
  "means_cleanup epollfd listen_fd s =
     (let k = close_call listen_fd (close_epoll epollfd (m_k s)); sdqu = queue_free (Some (m_sdqu s)) in
      rbind (if sl_cur (m_ca s) \<noteq> None then clients_session_free_all (m_ca s) else Inr (m_ca s))
        (\<lambda>ca. Inr \<lparr>me_ca = ca, me_sdqu = sdqu, me_k = k\<rparr>))"

text \<open>One round of the outer loop either comes back or, after the clean-up, exits successfully.\<close>

datatype means_outcome = Running means_state | Exited means_end

definition means_wait :: "allocator \<Rightarrow> int \<Rightarrow> int \<Rightarrow> means_state \<Rightarrow> wait \<Rightarrow> means_outcome res" where
  "means_wait al epollfd listen_fd s w =
     (case w of
        Wait_error \<Rightarrow> Inl Exit_failure
      | Timeout \<Rightarrow> rbind (means_cleanup epollfd listen_fd s) (\<lambda>e. Inr (Exited e))
      | Events fds \<Rightarrow> rbind (run_res (means_event al epollfd listen_fd) s fds) (\<lambda>s. Inr (Running s)))"

primrec means_loop :: "allocator \<Rightarrow> int \<Rightarrow> int \<Rightarrow> wait list \<Rightarrow> means_state \<Rightarrow> means_outcome res" where
  "means_loop al epollfd listen_fd [] s = Inr (Running s)"
| "means_loop al epollfd listen_fd (w # ws) s =
     rbind (means_wait al epollfd listen_fd s w) (\<lambda>out. case out of
         Running s \<Rightarrow> means_loop al epollfd listen_fd ws s
       | Exited e \<Rightarrow> Inr (Exited e))"

definition means_main ::
  "allocator \<Rightarrow> server_env \<Rightarrow> logger \<Rightarrow> kernel \<Rightarrow> wait list \<Rightarrow> means_outcome res" where
  "means_main al env L k waits =
     rbind (server_start env L k) (\<lambda>(listen_fd, L, k).
     rbind (queue_init al None 65536) (\<lambda>qu. case qu of
         None \<Rightarrow> Inl Null_deref
       | Some q \<Rightarrow> means_loop al (env_epollfd env) listen_fd waits
           \<lparr>m_ca = no_sessions, m_sdqu = q, m_k = k\<rparr>))"

section \<open>The price service\<close>

text \<open>
  What the peers see: bytes sent, bytes to come, registered connections, connections waiting, and for
  each client its prices and the bytes received but not yet processed.
\<close>

type_synonym means_view =
  "(int \<Rightarrow> char list) \<times> (int \<Rightarrow> rx list) \<times> int set \<times> int list \<times> session_view list"

definition means_view :: "means_state \<Rightarrow> means_view" where
  "means_view s = (k_out (m_k s), k_rx (m_k s), registered (m_k s), k_accept (m_k s), sl_table (m_ca s))"

text \<open>A complete set of requests: a whole number of messages.\<close>

definition complete :: "char list \<Rightarrow> bool" where
  "complete bs \<longleftrightarrow> bs \<noteq> [] \<and> length bs mod 9 = 0"

definition answer :: "asset_price list \<Rightarrow> char list \<Rightarrow> ledger" where
  "answer cs bs = (if complete bs then foldl serve (cs, []) (requests bs) else (cs, []))"

definition means_service :: "int \<Rightarrow> means_view \<Rightarrow> int \<Rightarrow> means_view" where
  "means_service listen_fd v fd =
     (case v of (out, rx, conns, acc, t) \<Rightarrow>
        if fd = listen_fd then (out, rx, insert (hd acc) conns, tl acc, t @ [(hd acc, [], [])])
        else (case the (map_of t fd) of (cs, pending) \<Rightarrow>
          (let bs = pending @ drained (rx fd); a = answer cs bs in
           (if stop_code (rx fd) < -1 then out else out(fd := out fd @ snd a),
            rx(fd := remaining (rx fd)),
            if stop_code (rx fd) = -1 then conns else conns - {fd},
            acc,
            if stop_code (rx fd) = -1 then set_row fd (fst a, if complete bs then [] else bs) t
            else filter (\<lambda>e. fst e \<noteq> fd) t))))"

definition means_ok :: "int \<Rightarrow> means_view \<Rightarrow> int \<Rightarrow> bool" where
  "means_ok listen_fd v fd =
     (case v of (out, rx, conns, acc, t) \<Rightarrow>
        if fd = listen_fd then acc \<noteq> [] \<and> 0 < hd acc \<and> hd acc \<notin> conns
        else 0 < fd \<and> fd \<in> fst ` set t \<and>
          (case the (map_of t fd) of (cs, pending) \<Rightarrow>
             (let bs = pending @ drained (rx fd) in
              length cs + length bs < 2 ^ 31 \<and> list_all no_percent (snd (answer cs bs)))))"

text \<open>There is a session for exactly the registered connections; the send queue is empty between events.\<close>

definition means_inv :: "allocator \<Rightarrow> int \<Rightarrow> means_state \<Rightarrow> bool" where
  "means_inv al listen_fd s \<longleftrightarrow>
     sl_rows (m_ca s) \<and> q_inv (m_sdqu s) \<and> q_bytes (m_sdqu s) = [] \<and> q_all no_percent (m_sdqu s) \<and>
     alloc_ok al \<and> fresh_all no_percent al \<and> k_ctl_fails (m_k s) = [] \<and> k_tx (m_k s) = (\<lambda>_. []) \<and>
     listen_fd \<in> registered (m_k s) \<and>
     fst ` set (sl_table (m_ca s)) = registered (m_k s) - {listen_fd}"

section \<open>The server implements the service\<close>

lemma means_drop_ok:
  assumes "sl_rows (m_ca s)" and "0 < fd" and "fd \<in> fst ` set (sl_table (m_ca s))"
    and "fd \<in> registered (m_k s)" and "k_ctl_fails (m_k s) = []"
  shows "returns (means_drop e fd s) (\<lambda>s'. sl_rows (m_ca s') \<and>
    sl_table (m_ca s') = filter (\<lambda>r. fst r \<noteq> fd) (sl_table (m_ca s)) \<and> m_sdqu s' = m_sdqu s \<and>
    registered (m_k s') = registered (m_k s) - {fd} \<and> k_out (m_k s') = k_out (m_k s) \<and>
    k_rx (m_k s') = k_rx (m_k s) \<and> k_tx (m_k s') = k_tx (m_k s) \<and> k_ctl_fails (m_k s') = [] \<and>
    k_accept (m_k s') = k_accept (m_k s))"
proof -
  have "sl_table (m_ca s) \<noteq> []" using assms(3) by auto
  then obtain b ca where "clients_session_remove (m_ca s) fd = Inr (b, ca)" "sl_rows ca"
    "sl_table ca = filter (\<lambda>r. fst r \<noteq> fd) (sl_table (m_ca s))"
    using sl_remove_law [OF assms(1,2)] by (auto simp: returns_iff)
  moreover obtain k where "drop_connection e fd (m_k s) = Inr k" "registered k = registered (m_k s) - {fd}"
    "k_out k = k_out (m_k s)" "k_rx k = k_rx (m_k s)" "k_tx k = k_tx (m_k s)" "k_ctl_fails k = []"
    "k_accept k = k_accept (m_k s)"
    using drop_connection_ok [OF assms(4,5), of e] by (auto simp: returns_iff)
  ultimately show ?thesis by (simp add: means_drop_def)
qed

text \<open>What \<open>message_parse\<close> makes of the bytes of a complete buffer.\<close>

lemma message_parse_complete:
  assumes "ps_inv ps" and "q_inv qu" and "q_inv out" and "q_bytes out = []" and "q_all P out"
    and "alloc_ok al" and "fresh_all P al" and "complete (q_bytes qu)"
    and "length (ps_cells ps) + length (q_bytes qu) < 2 ^ 31"
    and "list_all P (snd (answer (ps_cells ps) (q_bytes qu)))"
  obtains ps' out' where "message_parse al ps out (q_data qu) (word_of_int (int (length (q_bytes qu)))) = Inr (ps', out')"
    and "ps_inv ps'" and "q_inv out'" and "q_all P out'"
    and "ps_cells ps' = fst (answer (ps_cells ps) (q_bytes qu))" and "q_bytes out' = snd (answer (ps_cells ps) (q_bytes qu))"
proof -
  let ?bs = "q_bytes qu" and ?rs = "requests (q_bytes qu)"
  have bytes: "take (length ?bs) (q_data qu) = ?bs"
    using q_inv_length [OF assms(2)] by (simp add: q_bytes_def)
  have nine: "9 * (length ?bs div 9) = length ?bs"
    using assms(8) mult_div_mod_eq [of 9 "length ?bs"] unfolding complete_def by linarith
  have rs: "length ?rs = length ?bs div 9" "list_all request_wf ?rs" "concat (map encode ?rs) = ?bs"
    using requests_encode [of ?bs] nine by simp_all
  have n: "unat (word_of_int (int (length ?bs)) :: size_t) = length ?bs"
    using assms(9) by (simp add: unat_of_nat)
  have ans: "answer (ps_cells ps) ?bs = foldl serve (ps_cells ps, []) ?rs" using assms(8) by (simp add: answer_def)
  have "returns (message_parse al ps out (q_data qu) (word_of_int (int (length ?bs))))
    (\<lambda>s'. msg_inv al P s' \<and> ledger_of s' = foldl serve (ps_cells ps, q_bytes out) ?rs)"
  proof (rule message_parse_ok)
    show "msg_inv al P (ps, out)" using assms(1,3,5-7) by (simp add: msg_inv_def)
    show "take (9 * length ?rs) (q_data qu) = concat (map encode ?rs)" unfolding rs(1,3) nine by (rule bytes)
    show "0 < unat (word_of_int (int (length ?bs)) :: size_t)" using assms(8) unfolding n by (simp add: complete_def)
    show "unat (word_of_int (int (length ?bs)) :: size_t) div 9 = length ?rs" unfolding n by (simp add: rs(1))
    show "length (ps_cells ps) + length ?rs \<le> 2 ^ 31 - 1" and "length (q_bytes out) + 4 * length ?rs \<le> 2 ^ 40"
      using nine assms(9) by (simp_all add: rs(1) assms(4))
  qed (use assms(4,10) ans rs(2) in simp_all)
  then show ?thesis
    using that assms(4) ans by (auto simp: returns_iff msg_inv_def ledger_of_def prod_eq_iff)
qed

lemma answer_grows:
  assumes "complete bs"
  shows "length (snd (answer cs bs)) \<le> 4 * (length bs div 9)"
proof -
  have "9 * (length bs div 9) = length bs"
    using assms mult_div_mod_eq [of 9 "length bs"] unfolding complete_def by linarith
  then show ?thesis
    using assms serve_run_grows [of "(cs, [])" "requests bs"] requests_encode [of bs] by (simp add: answer_def)
qed

text \<open>
  Processing a complete buffer, up to what \<open>sendall\<close> does with the answers: \<open>P\<close> is what is known
  of the bytes of the send queue.
\<close>

lemma means_process_run:
  assumes "selected (m_ca s) cur" and "cs_client_id cur = fd" and "cs_recv_qu cur = Some qu"
    and "q_inv (m_sdqu s)" and "q_bytes (m_sdqu s) = []" and "q_all P (m_sdqu s)"
    and "alloc_ok al" and "fresh_all P al" and "complete (q_bytes qu)" and "ps_cells (the (cs_asset cur)) = cs"
    and "length cs + length (q_bytes qu) < 2 ^ 31" and "list_all P (snd (answer cs (q_bytes qu)))"
  obtains ca sdqu where "means_process al fd cur qu s =
      (if snd (answer cs (q_bytes qu)) = [] then Inr (False, s\<lparr>m_ca := ca, m_sdqu := flushed sdqu\<rparr>)
       else rbind (sendall fd (q_data sdqu) (int (length (snd (answer cs (q_bytes qu))))) (m_k s)) (\<lambda>(rs, _, k).
         Inr (rs \<noteq> 0, s\<lparr>m_ca := ca, m_sdqu := flushed sdqu, m_k := k\<rparr>)))"
    and "sl_rows ca" and "sl_table ca = set_row fd (fst (answer cs (q_bytes qu)), []) (sl_table (m_ca s))"
    and "q_inv sdqu" and "q_all P sdqu" and "q_bytes sdqu = snd (answer cs (q_bytes qu))"
proof -
  let ?bs = "q_bytes qu"
  have "session_ok cur" using selectedD(3) [OF assms(1)] .
  then obtain ps where ps: "cs_asset cur = Some ps" "ps_inv ps" "ps_cells ps = cs" "q_inv qu" "0 < cs_client_id cur"
    using assms(3,10) by (auto simp: session_ok_def split: option.splits)
  have small: "length ?bs < 2 ^ 31" using assms(11) by simp
  have pop: "queue_pop_no_copy qu = (int (length ?bs), Some (q_data qu), flushed qu)"
    using pop_flushed [OF ps(4) small] assms(9) by (simp add: complete_def)
  obtain ps' sdqu where parse: "message_parse al ps (m_sdqu s) (q_data qu) (word_of_int (int (length ?bs))) = Inr (ps', sdqu)"
    and inv': "ps_inv ps'" "q_inv sdqu" "q_all P sdqu"
    and led': "ps_cells ps' = fst (answer cs ?bs)" "q_bytes sdqu = snd (answer cs ?bs)"
    using message_parse_complete [OF ps(2,4) assms(4-9)] assms(11,12) unfolding ps(3) by metis
  let ?cur = "cur\<lparr>cs_asset := Some ps', cs_recv_qu := Some (flushed qu)\<rparr>"
  have "session_ok ?cur" using inv' ps by (simp add: session_ok_def)
  from sl_put_selected [OF assms(1) this]
  have sel: "sl_rows (sl_put ?cur (m_ca s))"
    "sl_table (sl_put ?cur (m_ca s)) = set_row fd (fst (answer cs ?bs), []) (sl_table (m_ca s))"
    using assms(2) ps(4) led'(1) by (auto simp: view_of_def dest: selectedD(1))
  have "length (snd (answer cs ?bs)) \<le> 4 * (length ?bs div 9)"
    using answer_grows [OF assms(9)] .
  also have "\<dots> \<le> length ?bs" by simp
  finally have "length (q_bytes sdqu) < 2 ^ 31" using small led'(2) by simp
  note pop' = pop_flushed [OF inv'(2) this, unfolded led'(2)]
  have "means_process al fd cur qu s =
      (if snd (answer cs ?bs) = [] then Inr (False, s\<lparr>m_ca := sl_put ?cur (m_ca s), m_sdqu := flushed sdqu\<rparr>)
       else rbind (sendall fd (q_data sdqu) (int (length (snd (answer cs ?bs)))) (m_k s)) (\<lambda>(rs, _, k).
         Inr (rs \<noteq> 0, s\<lparr>m_ca := sl_put ?cur (m_ca s), m_sdqu := flushed sdqu, m_k := k\<rparr>)))"
    by (simp add: means_process_def pop ps(1) parse [unfolded of_int_of_nat_eq] Let_def pop')
  from that [OF this sel inv'(2,3) led'(2)] show ?thesis .
qed

lemma means_process_ok:
  assumes "selected (m_ca s) cur" and "cs_client_id cur = fd" and "fd \<noteq> 0" and "cs_recv_qu cur = Some qu"
    and "q_inv (m_sdqu s)" and "q_bytes (m_sdqu s) = []" and "q_all no_percent (m_sdqu s)"
    and "alloc_ok al" and "fresh_all no_percent al" and "k_tx (m_k s) = (\<lambda>_. [])"
    and "complete (q_bytes qu)" and "ps_cells (the (cs_asset cur)) = cs"
    and "length cs + length (q_bytes qu) < 2 ^ 31" and "list_all no_percent (snd (answer cs (q_bytes qu)))"
  shows "returns (means_process al fd cur qu s) (\<lambda>(failed, s'). \<not> failed \<and> sl_rows (m_ca s') \<and>
    sl_table (m_ca s') = set_row fd (fst (answer cs (q_bytes qu)), []) (sl_table (m_ca s)) \<and>
    q_inv (m_sdqu s') \<and> q_bytes (m_sdqu s') = [] \<and> q_all no_percent (m_sdqu s') \<and>
    m_k s' = put_out fd (snd (answer cs (q_bytes qu))) (m_k s))"
proof -
  obtain ca sdqu where run: "means_process al fd cur qu s =
      (if snd (answer cs (q_bytes qu)) = [] then Inr (False, s\<lparr>m_ca := ca, m_sdqu := flushed sdqu\<rparr>)
       else rbind (sendall fd (q_data sdqu) (int (length (snd (answer cs (q_bytes qu))))) (m_k s)) (\<lambda>(rs, _, k).
         Inr (rs \<noteq> 0, s\<lparr>m_ca := ca, m_sdqu := flushed sdqu, m_k := k\<rparr>)))"
    and ca: "sl_rows ca" "sl_table ca = set_row fd (fst (answer cs (q_bytes qu)), []) (sl_table (m_ca s))"
    and sdqu: "q_inv sdqu" "q_all no_percent sdqu" "q_bytes sdqu = snd (answer cs (q_bytes qu))"
    by (rule means_process_run [OF assms(1,2,4-9,11-14)])
  have "q_all no_percent (flushed sdqu)" using sdqu(2) by (simp add: q_all_def)
  moreover have "sendall fd (q_data sdqu) (int (length (q_bytes sdqu))) (m_k s)
      = Inr (0, int (length (q_bytes sdqu)), put_out fd (q_bytes sdqu) (m_k s))" if "q_bytes sdqu \<noteq> []"
    using sendall_queue [OF sdqu(1) that sdqu(2) assms(3)] assms(10) by simp
  ultimately show ?thesis
    using run ca sdqu by auto
qed

lemma means_event_accepts:
  assumes "means_inv al lfd s" and "means_ok lfd (means_view s) lfd"
  shows "returns (means_event al e lfd s lfd)
    (\<lambda>s'. means_inv al lfd s' \<and> means_view s' = means_service lfd (means_view s) lfd)"
proof -
  from assms(2) obtain fd fds where acc: "k_accept (m_k s) = fd # fds" "0 < fd" "fd \<notin> registered (m_k s)"
    by (cases "k_accept (m_k s)") (auto simp: means_ok_def means_view_def)
  have inv: "sl_rows (m_ca s)" "alloc_ok al" "k_ctl_fails (m_k s) = []" "lfd \<in> registered (m_k s)"
    "fst ` set (sl_table (m_ca s)) = registered (m_k s) - {lfd}"
    using assms(1) by (simp_all add: means_inv_def)
  obtain k' where k': "fd_accept_and_epoll_add (epci e lfd) (m_k s) = Inr (fd, k')"
    and post: "registered k' = insert fd (registered (m_k s))" "k_accept k' = fds"
      "k_out k' = k_out (m_k s)" "k_rx k' = k_rx (m_k s)" "k_ctl_fails k' = []" "k_tx k' = k_tx (m_k s)"
    using accept_and_add_ok [OF acc(1) _ acc(3) inv(3), of "epci e lfd"] acc(2) by (auto simp: returns_iff)
  have "fd \<notin> fst ` set (sl_table (m_ca s))" using acc(3) inv(5) by simp
  then obtain ca where "clients_session_add al (m_ca s) fd = Inr ca" "sl_rows ca"
    "sl_table ca = sl_table (m_ca s) @ [(fd, [], [])]"
    using sl_add_law [of "m_ca s" al fd] inv(1,2) acc(2) by (auto simp: returns_iff)
  moreover have "fd \<noteq> lfd" using acc(3) inv(4) by blast
  ultimately show ?thesis
    using assms(1) acc k' post inv(5)
    by (auto simp: means_event_def means_inv_def means_view_def means_service_def)
qed

lemma fst_filter_keys: "fst ` set (filter (\<lambda>e. fst e \<noteq> fd) t) = fst ` set t - {fd}"
  by auto

text \<open>An event of a client, once its session is selected and its bytes are in the session's queue.\<close>

lemma means_event_body:
  assumes "fd \<noteq> lfd" and "clients_session_find (m_ca s) fd = Inr (True, ca)" and "selected ca cur"
    and "cs_recv_qu cur = Some qu0" and "recv_request al fd qu0 (m_k s) = Inr (r, qu, k)"
    and "q_inv qu" and "length (q_bytes qu) < 2 ^ 31"
    and "cur1 = cur\<lparr>cs_recv_qu := Some qu\<rparr>" and "s1 = s\<lparr>m_ca := sl_put cur1 ca, m_k := k\<rparr>"
  shows "means_event al e lfd s fd =
     (if r < -1 then means_drop e fd s1
      else rbind (if complete (q_bytes qu) then means_process al fd cur1 qu s1 else Inr (False, s1)) (\<lambda>(failed, s).
        if failed then means_drop e fd s else if r = -1 then Inr s else means_drop e fd s))"
proof -
  have "unat (q_size qu) < 2 ^ 31" using q_inv_length [OF assms(6)] assms(7) by simp
  note peek = queue_peek_ok [OF assms(6) this]
  have test: "(int (length (q_bytes qu)) > 0 \<and> int (length (q_bytes qu)) mod int MESSAGE_SIZE = 0) = complete (q_bytes qu)"
  proof -
    have "int (length (q_bytes qu)) mod 9 = int (length (q_bytes qu) mod 9)" by (simp add: zmod_int)
    then show ?thesis by (simp add: complete_def MESSAGE_SIZE_def)
  qed
  show ?thesis
    unfolding means_event_def if_not_P [OF assms(1)] assms(2) rbind_Inr prod.case selectedD(2) [OF assms(3)]
      assms(4) option.case assms(5) Let_def assms(8,9) peek test
    by simp
qed

text \<open>Dropping a client takes its connection and its row out of what the peers see.\<close>

lemma means_drop_inv:
  assumes "means_inv al lfd s" and "0 < fd" and "fd \<noteq> lfd" and "fd \<in> fst ` set (sl_table (m_ca s))"
  shows "returns (means_drop e fd s) (\<lambda>s'. means_inv al lfd s' \<and> means_view s' = (k_out (m_k s), k_rx (m_k s),
    registered (m_k s) - {fd}, k_accept (m_k s), filter (\<lambda>e. fst e \<noteq> fd) (sl_table (m_ca s))))"
proof -
  have keys: "fst ` set (sl_table (m_ca s)) = registered (m_k s) - {lfd}" using assms(1) by (simp add: means_inv_def)
  then have "fst ` set (filter (\<lambda>e. fst e \<noteq> fd) (sl_table (m_ca s))) = registered (m_k s) - {fd} - {lfd}"
    unfolding fst_filter_keys by blast
  moreover have "fd \<in> registered (m_k s)" using assms(4) keys by blast
  ultimately show ?thesis
    using means_drop_ok [of s fd e] assms by (auto simp: returns_iff means_inv_def means_view_def)
qed

text \<open>Processing, if the requests are complete, leaves the session's row with the new prices.\<close>

lemma means_answers_inv:
  assumes "selected (m_ca s) cur" and "cs_client_id cur = fd" and "0 < fd" and "cs_recv_qu cur = Some qu"
    and "means_inv al lfd s" and "ps_cells (the (cs_asset cur)) = cs" and "q_bytes qu = bs"
    and "length cs + length bs < 2 ^ 31" and "list_all no_percent (snd (answer cs bs))"
  obtains s1 where "(if complete bs then means_process al fd cur qu s else Inr (False, s)) = Inr (False, s1)"
    and "means_inv al lfd s1" and "means_view s1 = ((k_out (m_k s))(fd := k_out (m_k s) fd @ snd (answer cs bs)), k_rx (m_k s),
      registered (m_k s), k_accept (m_k s), set_row fd (fst (answer cs bs), if complete bs then [] else bs) (sl_table (m_ca s)))"
proof (cases "complete bs")
  case True
  have inv: "q_inv (m_sdqu s)" "q_bytes (m_sdqu s) = []" "q_all no_percent (m_sdqu s)" "alloc_ok al"
    "fresh_all no_percent al" "k_tx (m_k s) = (\<lambda>_. [])"
    using assms(5) by (simp_all add: means_inv_def)
  obtain s1 where "means_process al fd cur qu s = Inr (False, s1)" "sl_rows (m_ca s1)"
    "sl_table (m_ca s1) = set_row fd (fst (answer cs bs), []) (sl_table (m_ca s))"
    "q_inv (m_sdqu s1)" "q_bytes (m_sdqu s1) = []" "q_all no_percent (m_sdqu s1)"
    "m_k s1 = put_out fd (snd (answer cs bs)) (m_k s)"
    using means_process_ok [OF assms(1,2) _ assms(4) inv _ assms(6), unfolded assms(7), OF _ True assms(8,9)] assms(3)
    by (auto simp: returns_iff)
  then show ?thesis
    using that [of s1] True assms(5) by (simp add: means_inv_def means_view_def)
next
  case False
  have "sl_rows (m_ca s)" "map_of (sl_table (m_ca s)) fd = Some (cs, bs)"
    using selectedD(1,4) [OF assms(1)] assms(2,4,6,7) by (simp_all add: view_of_def)
  then have "set_row fd (cs, bs) (sl_table (m_ca s)) = sl_table (m_ca s)"
    by (intro set_row_same) (simp_all add: sl_rows_def)
  then show ?thesis
    using that [of s] False assms(5) by (simp add: answer_def means_view_def)
qed

text \<open>The second half of an event, once the bytes are in the session's queue.\<close>

lemma means_rest_ok:
  assumes "selected (m_ca s) cur" and "cs_client_id cur = fd" and "0 < fd" and "cs_recv_qu cur = Some qu"
    and "means_inv al lfd s" and "ps_cells (the (cs_asset cur)) = cs" and "q_bytes qu = bs"
    and "length cs + length bs < 2 ^ 31" and "list_all no_percent (snd (answer cs bs))" and "fd \<noteq> lfd"
  shows "returns (rbind (if complete bs then means_process al fd cur qu s else Inr (False, s)) (\<lambda>(failed, s).
      if failed then means_drop e fd s else if r = -1 then Inr s else means_drop e fd s))
    (\<lambda>s'. means_inv al lfd s' \<and> means_view s' = ((k_out (m_k s))(fd := k_out (m_k s) fd @ snd (answer cs bs)), k_rx (m_k s),
       if r = -1 then registered (m_k s) else registered (m_k s) - {fd}, k_accept (m_k s),
       if r = -1 then set_row fd (fst (answer cs bs), if complete bs then [] else bs) (sl_table (m_ca s))
       else filter (\<lambda>e. fst e \<noteq> fd) (sl_table (m_ca s))))"
proof -
  obtain s1 where run: "(if complete bs then means_process al fd cur qu s else Inr (False, s)) = Inr (False, s1)"
    and s1: "means_inv al lfd s1" "means_view s1 = ((k_out (m_k s))(fd := k_out (m_k s) fd @ snd (answer cs bs)), k_rx (m_k s),
      registered (m_k s), k_accept (m_k s), set_row fd (fst (answer cs bs), if complete bs then [] else bs) (sl_table (m_ca s)))"
    using means_answers_inv [OF assms(1-9)] .
  have "fd \<in> fst ` set (sl_table (m_ca s1))"
    using s1(2) selectedD(5) [OF assms(1)] assms(2) by (simp add: means_view_def)
  from means_drop_inv [OF s1(1) assms(3,10) this, of e] show ?thesis
    unfolding run using s1 by (auto simp: means_view_def elim!: returns_mono)
qed

text \<open>The first half: the session is found, and what the socket delivers goes to its queue.\<close>

lemma means_event_hears:
  assumes "means_inv al lfd s" and "0 < fd" and "map_of (sl_table (m_ca s)) fd = Some (cs, pending)" and "fd \<noteq> lfd"
    and "bs = pending @ drained (k_rx (m_k s) fd)" and "length bs < 2 ^ 31" and "k1 = set_rx fd (remaining (k_rx (m_k s) fd)) (m_k s)"
    and "stop = stop_code (k_rx (m_k s) fd)"
  obtains s1 cur qu where "means_event al e lfd s fd =
     (if stop < -1 then means_drop e fd s1
      else rbind (if complete bs then means_process al fd cur qu s1 else Inr (False, s1)) (\<lambda>(failed, s).
        if failed then means_drop e fd s else if stop = -1 then Inr s else means_drop e fd s))"
    and "means_inv al lfd s1" and "m_k s1 = k1" and "sl_table (m_ca s1) = set_row fd (cs, bs) (sl_table (m_ca s))"
    and "selected (m_ca s1) cur" and "cs_client_id cur = fd" and "cs_recv_qu cur = Some qu"
    and "ps_cells (the (cs_asset cur)) = cs" and "q_bytes qu = bs"
proof -
  have inv: "sl_rows (m_ca s)" "alloc_ok al" using assms(1) by (simp_all add: means_inv_def)
  have "fd \<in> fst ` set (sl_table (m_ca s))" using assms(3) by (force dest: map_of_SomeD)
  then obtain ca cur where find: "clients_session_find (m_ca s) fd = Inr (True, ca)" and sel: "selected ca cur"
    and cur: "cs_client_id cur = fd" and table: "sl_table ca = sl_table (m_ca s)"
    using find_selects [OF inv(1) assms(2)] by blast
  obtain qu0 where qu0: "cs_recv_qu cur = Some qu0" "q_inv qu0"
    using selectedD(3) [OF sel] by (auto simp: session_ok_def split: option.splits)
  have row: "ps_cells (the (cs_asset cur)) = cs" "q_bytes qu0 = pending"
    using selectedD(4) [OF sel] cur table qu0(1) assms(3) by (simp_all add: view_of_def)
  obtain qu where recv: "recv_request al fd qu0 (m_k s) = Inr (stop, qu, k1)"
    and qu: "q_inv qu" "q_bytes qu = bs"
    using recv_request_drains [OF assms(2) qu0(2) inv(2), of "m_k s"] assms(5-8) row(2)
    by (auto simp: returns_iff)
  define cur1 where "cur1 = cur\<lparr>cs_recv_qu := Some qu\<rparr>"
  define s1 where "s1 = s\<lparr>m_ca := sl_put cur1 ca, m_k := k1\<rparr>"
  have "session_ok cur1" using selectedD(3) [OF sel] qu(1) by (simp add: session_ok_def cur1_def)
  from sl_put_selected [OF sel this] have sel1: "selected (m_ca s1) cur1"
    and table1: "sl_table (m_ca s1) = set_row fd (cs, bs) (sl_table (m_ca s))"
    using row(1) by (simp_all add: cur1_def s1_def view_of_def qu(2) cur table)
  have inv1: "means_inv al lfd s1"
    using assms(1) selectedD(1) [OF sel1] table1 by (simp add: means_inv_def s1_def assms(7))
  have "length (q_bytes qu) < 2 ^ 31" using assms(6) by (simp add: qu(2))
  from means_event_body [OF assms(4) find sel qu0(1) recv qu(1) this cur1_def s1_def, of e, unfolded qu(2)]
  show ?thesis
    using that [of s1 cur1 qu] inv1 table1 sel1 qu(2) row(1) cur by (simp add: cur1_def s1_def)
qed

lemma means_event_serves:
  assumes "means_inv al lfd s" and "means_ok lfd (means_view s) fd" and "fd \<noteq> lfd"
  shows "returns (means_event al e lfd s fd)
    (\<lambda>s'. means_inv al lfd s' \<and> means_view s' = means_service lfd (means_view s) fd)"
proof -
  let ?rx = "k_rx (m_k s) fd"
  have ok: "0 < fd" "fd \<in> fst ` set (sl_table (m_ca s))"
    using assms(2,3) by (simp_all add: means_ok_def means_view_def)
  then obtain cs pending where row: "map_of (sl_table (m_ca s)) fd = Some (cs, pending)"
    by (metis map_of_eq_None_iff not_None_eq prod.collapse)
  define bs where "bs = pending @ drained ?rx"
  define stop where "stop = stop_code ?rx"
  define k1 where "k1 = set_rx fd (remaining ?rx) (m_k s)"
  have bounds: "length cs + length bs < 2 ^ 31" "list_all no_percent (snd (answer cs bs))"
    using assms(2,3) row by (simp_all add: means_ok_def means_view_def bs_def Let_def)
  then have "length bs < 2 ^ 31" by simp
  note hears = means_event_hears [OF assms(1) ok(1) row assms(3) bs_def this k1_def stop_def, of e]
  obtain s1 cur qu where event: "means_event al e lfd s fd = (if stop < -1 then means_drop e fd s1
      else rbind (if complete bs then means_process al fd cur qu s1 else Inr (False, s1)) (\<lambda>(failed, s).
        if failed then means_drop e fd s else if stop = -1 then Inr s else means_drop e fd s))"
    and s1: "means_inv al lfd s1" "m_k s1 = k1" "sl_table (m_ca s1) = set_row fd (cs, bs) (sl_table (m_ca s))"
    and cur: "selected (m_ca s1) cur" "cs_client_id cur = fd" "cs_recv_qu cur = Some qu"
      "ps_cells (the (cs_asset cur)) = cs" "q_bytes qu = bs"
    by (rule hears)
  have "fd \<in> fst ` set (sl_table (m_ca s1))" using ok(2) s1(3) by simp
  note drop = means_drop_inv [OF s1(1) ok(1) assms(3) this, of e]
  note rest = means_rest_ok [OF cur(1,2) ok(1) cur(3) s1(1) cur(4,5) bounds assms(3), of e stop]
  have view: "means_service lfd (means_view s) fd = (if stop < -1 then k_out (m_k s)
      else (k_out (m_k s))(fd := k_out (m_k s) fd @ snd (answer cs bs)), k_rx k1,
      if stop = -1 then registered (m_k s) else registered (m_k s) - {fd}, k_accept (m_k s),
      if stop = -1 then set_row fd (fst (answer cs bs), if complete bs then [] else bs) (sl_table (m_ca s))
      else filter (\<lambda>e. fst e \<noteq> fd) (sl_table (m_ca s)))"
    using assms(3) row by (simp add: means_view_def means_service_def Let_def bs_def stop_def k1_def)
  show ?thesis
  proof (cases "stop < -1")
    case True
    then show ?thesis using drop s1(2,3) by (simp add: event view k1_def)
  next
    case False
    then show ?thesis
      unfolding event if_not_P [OF False] view using rest s1(2,3) by (auto simp: k1_def elim!: returns_mono)
  qed
qed

lemma means_event_ok:
  assumes "means_inv al lfd s" and "means_ok lfd (means_view s) fd"
  shows "returns (means_event al e lfd s fd)
    (\<lambda>s'. means_inv al lfd s' \<and> means_view s' = means_service lfd (means_view s) fd)"
  using assms means_event_accepts means_event_serves by (cases "fd = lfd") blast+

interpretation means: stepper "means_event al e lfd" "means_inv al lfd" means_view "means_ok lfd"
  "means_service lfd" for al e lfd
  by unfold_locales (rule means_event_ok)

text \<open>
  The outer loop: returns of \<open>epoll_wait\<close> with events are the inner loop; the first time-out frees
  everything and ends the program.
\<close>

lemma means_loop_events:
  "means_loop al e lfd (map Events fdss @ ws) s =
     rbind (run_res (means_event al e lfd) s (concat fdss)) (means_loop al e lfd ws)"
  by (induction fdss arbitrary: s) (simp_all add: means_wait_def run_res_append rbind_assoc)

definition cleaned_up :: "int \<Rightarrow> int \<Rightarrow> means_state \<Rightarrow> means_end \<Rightarrow> bool" where
  "cleaned_up e lfd s r \<longleftrightarrow>
     k_closed (me_k r) = lfd # e # k_closed (m_k s) \<and> registered (me_k r) = {} \<and> k_out (me_k r) = k_out (m_k s) \<and>
     me_sdqu r = None \<and> sl_cur (me_ca r) = None \<and>
     (\<forall>a. h_mem (sl_heap (me_ca r)) a =
       (if a \<in> set (addresses (sl_heap (m_ca s)) (sl_cur (m_ca s))) then None else h_mem (sl_heap (m_ca s)) a))"

lemma means_cleanup_ok:
  assumes "sl_inv (m_ca s)"
  shows "returns (means_cleanup e lfd s) (cleaned_up e lfd s)"
proof -
  have frame: "k_closed (close_call lfd (close_epoll e k)) = lfd # e # k_closed k"
    "registered (close_call lfd (close_epoll e k)) = {}" "k_out (close_call lfd (close_epoll e k)) = k_out k" for k
    by (simp_all add: close_call_def close_epoll_def registered_def)
  show ?thesis
  proof (cases "sl_cur (m_ca s)")
    case None
    then show ?thesis
      by (simp add: means_cleanup_def cleaned_up_def frame queue_free_def addresses_def walk_from_def)
  next
    case (Some a)
    then obtain ca where "clients_session_free_all (m_ca s) = Inr ca" "sl_cur ca = None"
      "\<forall>a. h_mem (sl_heap ca) a =
        (if a \<in> set (addresses (sl_heap (m_ca s)) (sl_cur (m_ca s))) then None else h_mem (sl_heap (m_ca s)) a)"
      using free_all_ok [OF assms] by (auto simp: returns_iff)
    with Some show ?thesis by (simp add: means_cleanup_def cleaned_up_def frame queue_free_def)
  qed
qed

section \<open>Properties\<close>

text \<open>C2: over any sequence of admissible events the price server never faults and does what the price service does: each
  client has its own ledger, its requests are answered in order from its own prices once a whole
  number of messages has arrived however they were split on the way, and there is a session for exactly the
  registered connections. An event is admissible when it is about the listening socket and a connection with a new, positive descriptor waits there,
  or about a connected client whose prices and unprocessed bytes together number less than \<open>2 ^ 31\<close> and whose answers contain no byte 0x25 (a percent
  sign: a mean such as 0x25640000 is a conversion for the logger, and \<open>sendall\<close> faults). Assumed of the environment: fresh memory and
  the spare bytes of the send queue hold no such byte, every send takes the whole message, epoll_ctl and the allocation of memory do not fail. Theory Hostile
  says what holds without any of this.\<close>

theorem means_refines_service:
  assumes "means_inv al lfd s" and "run_ok (means_ok lfd) (means_service lfd) (means_view s) fds"
  shows "returns (run_res (means_event al e lfd) s fds)
    (\<lambda>s'. means_inv al lfd s' \<and> means_view s' = foldl (means_service lfd) (means_view s) fds)"
  using assms by (rule means.run_refines)

definition session_requests :: "request list" where
  "session_requests = [Insert 12300 101, Query 12288 16384]"

definition session_bytes :: "char list" where
  "session_bytes = concat (map encode session_requests)"

definition means_sample :: means_state where
  "means_sample = \<lparr>m_ca = no_sessions, m_sdqu = queue_reset small_queue,
     m_k = quiet_kernel\<lparr>k_interest := [(4, [EPOLLIN])], k_accept := [7],
       k_rx := (\<lambda>_. [])(7 := [RxData (take 5 session_bytes), RxErr 11, RxData (drop 5 session_bytes), RxEof])\<rparr>\<rparr>"

lemma means_sample_inv: "means_inv zero_alloc 4 means_sample"
  using queue_reset_ok [OF small_queue_inv] no_sessions_rows
  by (simp add: means_inv_def means_sample_def zero_alloc_ok quiet_kernel_def registered_def)
    (simp add: q_all_def small_queue_def no_percent_def fresh_all_def zero_alloc_def NUL_def)

lemma session_bytes_facts:
  "session_bytes \<noteq> []" "length session_bytes = 18" "requests session_bytes = session_requests"
  by (simp_all add: session_bytes_def session_requests_def requests_of_encoded
      requests_of_encoded [of "[Insert _ _, Query _ _]", simplified])

lemma sample_answers:
  "answer [] session_bytes = ([\<lparr>ap_timestamp = 12300, ap_price = 101\<rparr>], be32 101)"
  "answer [] (take 5 session_bytes) = ([], [])"
  by (simp_all add: answer_def complete_def session_bytes_facts)
    (simp add: session_requests_def add_first_def mean_price_def in_period_def price_pair_def)

lemma no_percent_101: "list_all no_percent (be32 101)"
  by code_simp

lemma means_sample_service:
  "foldl (means_service 4) (means_view means_sample) [4, 7, 7] =
    ((\<lambda>_. [])(7 := be32 101), (\<lambda>_. [])(7 := [RxEof]), {4}, [], [])"
  and means_sample_session: "foldl (means_service 4) (means_view means_sample) [4, 7] =
    ((\<lambda>_. [])(7 := []), (\<lambda>_. [])(7 := [RxData (drop 5 session_bytes), RxEof]), {7, 4}, [], [(7, [], take 5 session_bytes)])"
  and means_sample_ok: "run_ok (means_ok 4) (means_service 4) (means_view means_sample) [4, 7, 7]"
proof -
  define v0 where "v0 = means_view means_sample"
  define v1 where "v1 = means_service 4 v0 4"
  define v2 where "v2 = means_service 4 v1 7"
  have rx: "take 5 session_bytes \<noteq> []" "drop 5 session_bytes \<noteq> []" "\<not> complete (take 5 session_bytes)"
    using session_bytes_facts by (auto simp: complete_def)
  have v0: "v0 = ((\<lambda>_. []), (\<lambda>_. [])(7 := [RxData (take 5 session_bytes), RxErr 11, RxData (drop 5 session_bytes), RxEof]),
      {4}, [7], [])"
    using no_sessions_rows(2) by (simp add: v0_def means_view_def means_sample_def quiet_kernel_def registered_def)
  have v1: "v1 = ((\<lambda>_. []), (\<lambda>_. [])(7 := [RxData (take 5 session_bytes), RxErr 11, RxData (drop 5 session_bytes), RxEof]),
      {7, 4}, [], [(7, [], [])])"
    by (simp add: v1_def v0 means_service_def)
  have v2: "v2 = ((\<lambda>_. [])(7 := []), (\<lambda>_. [])(7 := [RxData (drop 5 session_bytes), RxEof]),
      {7, 4}, [], [(7, [], take 5 session_bytes)])"
    using rx by (simp add: v2_def v1 means_service_def EAGAIN_def EWOULDBLOCK_def sample_answers set_row_def)
  have v3: "means_service 4 v2 7 = ((\<lambda>_. [])(7 := be32 101), (\<lambda>_. [])(7 := [RxEof]), {4}, [], [])"
    using rx by (simp add: v2 means_service_def sample_answers)
  show "foldl (means_service 4) (means_view means_sample) [4, 7, 7] =
    ((\<lambda>_. [])(7 := be32 101), (\<lambda>_. [])(7 := [RxEof]), {4}, [], [])"
    using v3 by (simp add: v0_def [symmetric] v1_def [symmetric] v2_def [symmetric])
  show "foldl (means_service 4) (means_view means_sample) [4, 7] =
    ((\<lambda>_. [])(7 := []), (\<lambda>_. [])(7 := [RxData (drop 5 session_bytes), RxEof]), {7, 4}, [], [(7, [], take 5 session_bytes)])"
    using v2 by (simp add: v0_def [symmetric] v1_def [symmetric] v2_def [symmetric])
  show "run_ok (means_ok 4) (means_service 4) (means_view means_sample) [4, 7, 7]"
    using rx no_percent_101 session_bytes_facts(2)
    by (simp add: v0_def [symmetric] v1_def [symmetric] v2_def [symmetric])
      (simp add: v0 v1 v2 means_ok_def sample_answers EAGAIN_def EWOULDBLOCK_def)
qed

theorem means_refines_service_witness:
  "returns (run_res (means_event zero_alloc 5 4) means_sample [4, 7, 7])
    (\<lambda>s'. k_out (m_k s') 7 = be32 101 \<and> registered (m_k s') = {4} \<and> sl_table (m_ca s') = [])"
  using means_refines_service [OF means_sample_inv means_sample_ok, of 5]
  unfolding means_sample_service by (rule returns_mono) (simp add: means_view_def)

text \<open>C28: the whole price server, started on an otherwise empty epoll instance. As long as \<open>epoll_wait\<close> returns events it
  keeps running and has done what the price service does with them. At the first time-out it cleans up and exits successfully:
  both its own descriptors are closed, so nothing is registered any more, nothing more is sent, the send queue is
  freed, and of the heap exactly the structs of the sessions are freed, each once; later returns are not waited for. An error of
  \<open>epoll_wait\<close> makes it exit with a failure. Assumed: no byte 0x25 (a percent sign) in the answers due to any client nor in fresh memory,
  sends take whole messages, epoll_ctl and the allocation of memory do not fail, a connection with a positive descriptor
  waits at an event of the listening socket, other events are about connected clients with less than \<open>2 ^ 31\<close> bytes and prices.\<close>

theorem means_main_serves_then_exits:
  assumes "server_start env L k = Inr (lfd, L', k0)" and "alloc_ok al" and "fresh_all no_percent al"
    and "k_ctl_fails k0 = []" and "k_tx k0 = (\<lambda>_. [])" and "registered k0 = {lfd}"
    and "run_ok (means_ok lfd) (means_service lfd) (k_out k0, k_rx k0, {lfd}, k_accept k0, []) (concat fdss)"
  shows "\<exists>s r. means_main al env L k (map Events fdss) = Inr (Running s) \<and> means_inv al lfd s \<and>
    means_view s = foldl (means_service lfd) (k_out k0, k_rx k0, {lfd}, k_accept k0, []) (concat fdss) \<and>
    means_main al env L k (map Events fdss @ Timeout # ws) = Inr (Exited r) \<and>
    k_closed (me_k r) = lfd # env_epollfd env # k_closed (m_k s) \<and> registered (me_k r) = {} \<and>
    k_out (me_k r) = k_out (m_k s) \<and> me_sdqu r = None \<and> sl_cur (me_ca r) = None \<and>
    (\<forall>a. h_mem (sl_heap (me_ca r)) a =
      (if a \<in> set (addresses (sl_heap (m_ca s)) (sl_cur (m_ca s))) then None else h_mem (sl_heap (m_ca s)) a)) \<and>
    means_main al env L k (map Events fdss @ Wait_error # ws) = Inl Exit_failure"
proof -
  obtain q where init: "queue_init al None 65536 = Inr (Some q)" and q: "q_inv q" "q_bytes q = []"
    using queue_init_ok [of al 65536] assms(2) by (auto simp: returns_iff)
  let ?s = "\<lparr>m_ca = no_sessions, m_sdqu = q, m_k = k0\<rparr>"
  have "means_inv al lfd ?s"
    using assms q queue_init_all [OF init assms(3)] no_sessions_rows by (simp add: means_inv_def)
  moreover have view: "means_view ?s = (k_out k0, k_rx k0, {lfd}, k_accept k0, [])"
    using assms(6) no_sessions_rows(2) by (simp add: means_view_def)
  ultimately obtain s where run: "run_res (means_event al (env_epollfd env) lfd) ?s (concat fdss) = Inr s"
    and s: "means_inv al lfd s" "means_view s = foldl (means_service lfd) (means_view ?s) (concat fdss)"
    using means.run_refines [of al lfd ?s "concat fdss" "env_epollfd env"] assms(7) by (auto simp: returns_iff)
  have "sl_inv (m_ca s)" using s(1) by (simp add: means_inv_def sl_rows_def)
  then obtain r where r: "means_cleanup (env_epollfd env) lfd s = Inr r" "cleaned_up (env_epollfd env) lfd s r"
    using means_cleanup_ok [of s "env_epollfd env" lfd] by (auto simp: returns_iff)
  have main: "means_main al env L k (map Events fdss @ ws) = means_loop al (env_epollfd env) lfd ws s" for ws
    by (simp add: means_main_def assms(1) init means_loop_events run)
  from main [of "[]"] main [of "Timeout # ws"] main [of "Wait_error # ws"] show ?thesis
    using s r unfolding view by (auto simp: means_wait_def cleaned_up_def)
qed

definition price_kernel :: kernel where
  "price_kernel = quiet_kernel\<lparr>k_accept := [7],
       k_rx := (\<lambda>_. [])(7 := [RxData (take 5 session_bytes), RxErr 11, RxData (drop 5 session_bytes), RxEof])\<rparr>"

theorem means_main_serves_then_exits_witness:
  "\<exists>s r. means_main zero_alloc sample_env log_initial price_kernel (map Events [[4], [7]]) = Inr (Running s) \<and>
    sl_table (m_ca s) = [(7, [], take 5 session_bytes)] \<and> addresses (sl_heap (m_ca s)) (sl_cur (m_ca s)) \<noteq> [] \<and>
    means_main zero_alloc sample_env log_initial price_kernel (map Events [[4], [7]] @ [Timeout]) = Inr (Exited r) \<and>
    (\<forall>a \<in> set (addresses (sl_heap (m_ca s)) (sl_cur (m_ca s))). h_mem (sl_heap (me_ca r)) a = None) \<and>
    registered (me_k r) = {}"
proof -
  obtain L' k0 where start: "server_start sample_env log_initial price_kernel = Inr (4, L', k0)"
    and k0: "k_out k0 = (\<lambda>_. [])" "k_rx k0 = k_rx price_kernel" "registered k0 = {4}" "k_accept k0 = [7]"
      "k_ctl_fails k0 = []" "k_tx k0 = (\<lambda>_. [])"
    using sample_start [of price_kernel] by (auto simp: quiet_kernel_def price_kernel_def)
  have view: "(k_out k0, k_rx k0, {4}, k_accept k0, []) = means_view means_sample"
    using no_sessions_rows(2)
    by (simp add: k0 price_kernel_def means_view_def means_sample_def quiet_kernel_def registered_def)
  have fresh: "fresh_all no_percent zero_alloc"
    by (simp add: no_percent_def fresh_all_def zero_alloc_def NUL_def)
  have ok: "run_ok (means_ok 4) (means_service 4) (k_out k0, k_rx k0, {4}, k_accept k0, []) (concat [[4], [7]])"
    unfolding view using means_sample_ok by simp
  have served: "foldl (means_service 4) (k_out k0, k_rx k0, {4}, k_accept k0, []) (concat [[4], [7]])
      = ((\<lambda>_. [])(7 := []), (\<lambda>_. [])(7 := [RxData (drop 5 session_bytes), RxEof]), {7, 4}, [], [(7, [], take 5 session_bytes)])"
    unfolding view using means_sample_session by simp
  have ne: "addresses (sl_heap ca) (sl_cur ca) \<noteq> []" if "sl_table ca = [x]" for ca x
    using that by (auto simp: sl_table_def views_def)
  show ?thesis
    using means_main_serves_then_exits [OF start zero_alloc_ok fresh k0(5,6,3) ok, of "[]"] ne
    unfolding served by (fastforce simp: means_view_def)
qed

end
