(* ===== verification/Chat.thy ===== *)
theory Chat
  imports Dll Server
begin

text \<open>
  \<open>budget-chat/client.c\<close>: the clients of the chat in a doubly linked list, their names and receive
  queues, and the chat protocol: joining, messages, leaving. The loops over all clients are \<open>traverse\<close> with
  the body of the loop as a definition of its own.
\<close>

section \<open>State\<close>

text \<open>\<open>char name[33]\<close> is a list of 33 bytes, \<open>struct queue *recv_qu\<close> the queue or \<open>NULL\<close>.\<close>

record client = links +
  c_id :: int
  c_name :: "char list"
  c_name_size :: size_t
  c_recv_qu :: "queue option"

text \<open>\<open>req->name\<close> points into the buffer of the client's queue; \<open>NULL\<close> is \<open>None\<close>.\<close>

record name_request =
  nr_name :: "char list option"
  nr_size :: size_t
  nr_valid :: bool
  nr_response :: "char list"

definition CLIENT_MAX_NAME :: nat where "CLIENT_MAX_NAME = 32"

definition CLIENT_MAX_MESSAGE_SIZE :: nat where "CLIENT_MAX_MESSAGE_SIZE = 1024"

definition CLIENT_MAX_COMPOSED_MESSAGE_SIZE :: nat where
  "CLIENT_MAX_COMPOSED_MESSAGE_SIZE = CLIENT_MAX_MESSAGE_SIZE + CLIENT_MAX_NAME + 2"

definition CLIENT_WELCOME_PROMPT :: "char list" where
  "CLIENT_WELCOME_PROMPT = ''Welcome to budgetchat! What shall I call you?''"

definition CLIENT_MEMBERS :: "char list" where
  "CLIENT_MEMBERS = ''* The room contains: ''"

text \<open>
  \<open>sprintf\<close> and \<open>snprintf\<close> into an array of \<open>n\<close> bytes: the text, cut by \<open>snprintf\<close>, a NUL, and bytes that
  nothing reads but the copy that \<open>sendall\<close> makes for its trace, which overwrites them.
\<close>

definition sprintf_buf :: "nat \<Rightarrow> char list \<Rightarrow> char list res" where
  "sprintf_buf n s =
     (if length s < n then Inr (s @ NUL # replicate (n - length s - 1) NUL) else Inl Out_of_bounds)"

definition snprintf_buf :: "nat \<Rightarrow> char list \<Rightarrow> char list" where
  "snprintf_buf n s = take (n - 1) s @ NUL # replicate (n - length s - 1) NUL"

definition left_note :: "char list \<Rightarrow> char list" where
  "left_note name = ''* '' @ [CHR 0x27] @ name @ [CHR 0x27] @ '' has left the chat''"

definition joined_note :: "char list \<Rightarrow> char list" where
  "joined_note name = ''* '' @ [CHR 0x27] @ name @ [CHR 0x27] @ '' has joined the chat''"

definition named :: "client \<Rightarrow> bool" where
  "named c \<longleftrightarrow> (case c_name c of [] \<Rightarrow> False | x # _ \<Rightarrow> x \<noteq> NUL)"

section \<open>The list\<close>

definition client_first :: "client heap \<Rightarrow> ptr \<Rightarrow> ptr res" where
  "client_first h pc = (if pc = None then Inl Assert_failed else walk_from n_prev h pc)"

definition clients_last :: "client heap \<Rightarrow> ptr \<Rightarrow> ptr res" where
  "clients_last h pc = (if pc = None then Inl Assert_failed else walk_from n_next h pc)"

text \<open>
  A loop over all clients from the one \<open>client_first\<close> finds, whose id (\<open>c->id\<close>) and that of the
  caller (\<open>me->id\<close>) the body may use.
\<close>

definition for_each_client ::
  "client heap \<Rightarrow> ptr \<Rightarrow> (int \<Rightarrow> int \<Rightarrow> client \<Rightarrow> 's \<Rightarrow> (bool \<times> 's) res) \<Rightarrow> 's \<Rightarrow> 's res" where
  "for_each_client h c body s =
     rbind (client_first h c) (\<lambda>p.
     rbind (deref h c) (\<lambda>me.
     rbind (deref h p) (\<lambda>first.
       case p of None \<Rightarrow> Inl Null_deref
       | Some a \<Rightarrow> traverse (Suc (h_brk h)) (body (c_id me) (c_id first)) h s a)))"

text \<open>
  The struct has 72 bytes, \<open>malloc\<close> does not clear them: name and \<open>name_size\<close> are indeterminate but
  for the first byte of the name. \<open>rodata\<close> is what follows the string literal of the prompt in memory; \<open>sendall\<close> reads one byte
  of it.
\<close>

definition client_open ::
  "allocator \<Rightarrow> char list \<Rightarrow> int \<Rightarrow> client heap \<Rightarrow> kernel \<Rightarrow> (ptr \<times> client heap \<times> kernel) res" where
  "client_open al rodata fd h k =
     (case al 72 of
        None \<Rightarrow> Inl Null_deref
      | Some junk \<Rightarrow>
          rbind (queue_init al None 1024) (\<lambda>qu.
          case h_new \<lparr>n_next = None, n_prev = None, c_id = fd, c_name = NUL # map junk [5..<37],
                      c_name_size = horner_sum of_char 256 (map junk [40..<48]), c_recv_qu = qu\<rparr> h of
            (pc, h) \<Rightarrow>
              rbind (sendall fd (CLIENT_WELCOME_PROMPT @ NUL # rodata) 45 k) (\<lambda>(r, l, k).
                if r \<noteq> 0 then Inl Assert_failed
                else if l \<noteq> 45 then Inl Assert_failed
                else Inr (pc, h, k))))"

text \<open>The message goes to \<open>c->id\<close>, where \<open>c\<close> has been moved to the first client.\<close>

definition broadcast_body ::
  "char list \<Rightarrow> size_t \<Rightarrow> int \<Rightarrow> int \<Rightarrow> client \<Rightarrow> kernel \<Rightarrow> (bool \<times> kernel) res" where
  "broadcast_body msg sz me_id c_id' last_c k =
     (if c_id last_c \<noteq> me_id \<and> named last_c
      then rbind (sendall c_id' msg (int_of_size sz) k) (\<lambda>(r, _, k).
             if r \<noteq> 0 then Inl Assert_failed else Inr (False, k))
      else Inr (False, k))"

definition client_broadcast_message_from ::
  "client heap \<Rightarrow> ptr \<Rightarrow> char list \<Rightarrow> size_t \<Rightarrow> kernel \<Rightarrow> kernel res" where
  "client_broadcast_message_from h c msg sz k =
     (if c = None then Inl Assert_failed else for_each_client h c (broadcast_body msg sz) k)"

definition broadcast_all_body ::
  "char list \<Rightarrow> size_t \<Rightarrow> int \<Rightarrow> int \<Rightarrow> client \<Rightarrow> kernel \<Rightarrow> (bool \<times> kernel) res" where
  "broadcast_all_body msg sz me_id c_id' last_c k =
     (if named last_c
      then rbind (sendall c_id' msg (int_of_size sz) k) (\<lambda>(r, _, k).
             if r \<noteq> 0 then Inl Assert_failed else Inr (False, k))
      else Inr (False, k))"

definition client_broadcast_message_to_all ::
  "client heap \<Rightarrow> ptr \<Rightarrow> char list \<Rightarrow> size_t \<Rightarrow> kernel \<Rightarrow> kernel res" where
  "client_broadcast_message_to_all h c msg sz k =
     (if c = None then Inl Assert_failed else for_each_client h c (broadcast_all_body msg sz) k)"

text \<open>The pointer left to the caller is the previous client, or the next one, or \<open>NULL\<close>.\<close>

definition client_close :: "ptr \<Rightarrow> client heap \<Rightarrow> kernel \<Rightarrow> (ptr \<times> client heap \<times> kernel) res" where
  "client_close pc h k =
     (case pc of
        None \<Rightarrow> Inl Assert_failed
      | Some a \<Rightarrow>
          rbind (deref h pc) (\<lambda>curr.
          if c_recv_qu curr = None then Inl Assert_failed
          else rbind (c_string (c_name curr)) (\<lambda>name.
               let s = left_note name in
               rbind (sprintf_buf 128 s) (\<lambda>newuser.
               rbind (client_broadcast_message_from h pc newuser (of_nat (length s)) k) (\<lambda>k.
               rbind (unlink h a) (\<lambda>h.
               let curr' = curr\<lparr>c_recv_qu := queue_free (c_recv_qu curr)\<rparr> in
               Inr (neighbour curr', h_free a h, k)))))))"

definition client_find :: "client heap \<Rightarrow> ptr \<Rightarrow> int \<Rightarrow> (bool \<times> ptr) res" where
  "client_find h pc idv =
     (if pc = None then Inr (False, pc)
      else if \<not> idv > 0 then Inl Assert_failed
      else rbind (client_first h pc) (\<lambda>p.
           case p of
             None \<Rightarrow> Inl Null_deref
           | Some a \<Rightarrow>
               rbind (search (Suc (h_brk h)) (\<lambda>n. c_id n = idv) h a) (\<lambda>r.
                 case r of None \<Rightarrow> Inr (False, p) | Some b \<Rightarrow> Inr (True, Some b))))"

section \<open>Names\<close>

text \<open>\<open>strncmp(a, b, n)\<close> is 0; reading past either object is a fault.\<close>

fun strncmp_zero :: "char list \<Rightarrow> char list \<Rightarrow> nat \<Rightarrow> bool res" where
  "strncmp_zero xs ys 0 = Inr True"
| "strncmp_zero (x # xs) (y # ys) (Suc n) =
     (if x \<noteq> y then Inr False else if x = NUL then Inr True else strncmp_zero xs ys n)"
| "strncmp_zero _ _ (Suc n) = Inl Out_of_bounds"

definition name_body ::
  "char list \<Rightarrow> size_t \<Rightarrow> int \<Rightarrow> int \<Rightarrow> client \<Rightarrow> bool \<Rightarrow> (bool \<times> bool) res" where
  "name_body name sz me_id c_id' last_c found =
     (if c_id last_c \<noteq> me_id \<and> named last_c
      then rbind (strncmp_zero (c_name last_c) name (unat sz)) (\<lambda>eq. Inr (eq, eq))
      else Inr (False, found))"

definition client_name_exists ::
  "client heap \<Rightarrow> ptr \<Rightarrow> name_request \<Rightarrow> (bool \<times> name_request) res" where
  "client_name_exists h c req =
     (if c = None then Inl Assert_failed
      else (case nr_name req of
              None \<Rightarrow> Inl Null_deref
            | Some name \<Rightarrow>
                rbind (for_each_client h c (name_body name (nr_size req)) False) (\<lambda>found.
                  Inr (found, if found then req\<lparr>nr_valid := False\<rparr> else req))))"

text \<open>\<open>isalnum\<close> in the C locale.\<close>

definition isalnum :: "char \<Rightarrow> bool" where
  "isalnum ch \<longleftrightarrow>
     (let n = (of_char ch :: nat) in 48 \<le> n \<and> n \<le> 57 \<or> 65 \<le> n \<and> n \<le> 90 \<or> 97 \<le> n \<and> n \<le> 122)"

fun all_alnum :: "nat \<Rightarrow> char list \<Rightarrow> bool res" where
  "all_alnum 0 mem = Inr True"
| "all_alnum (Suc n) [] = Inl Out_of_bounds"
| "all_alnum (Suc n) (ch # mem) = (if isalnum ch then all_alnum n mem else Inr False)"

definition EMPTY_NAME :: "char list" where "EMPTY_NAME = ''Empty username provided''"
definition LONG_NAME :: "char list" where
  "LONG_NAME = ''Name provided exceeds limit for number of characters: 32''"
definition BAD_NAME :: "char list" where "BAD_NAME = ''Username must only contain alphanumeric characters''"
definition TAKEN_NAME :: "char list" where "TAKEN_NAME = ''Username is already taken''"

text \<open>
  \<open>size--\<close> on an empty queue wraps around. The terminating NUL is written one byte too far: the byte
  \<open>name[size]\<close> keeps its value.
\<close>

definition client_validate_username ::
  "client heap \<Rightarrow> ptr \<Rightarrow> name_request \<Rightarrow> (bool \<times> name_request \<times> client heap) res" where
  "client_validate_username h c req =
     (if c = None then Inl Assert_failed
      else rbind (deref h c) (\<lambda>me.
      case c_recv_qu me of None \<Rightarrow> Inl Assert_failed | Some qu \<Rightarrow>
      (case queue_pop_no_copy qu of (popped, name, qu) \<Rightarrow>
      let req = req\<lparr>nr_valid := False\<rparr>; sz = (of_int popped :: size_t) - 1 in
      rbind (h_set c (\<lambda>n. n\<lparr>c_recv_qu := Some qu\<rparr>) h) (\<lambda>h.
      if sz < 1 then Inr (False, req\<lparr>nr_response := EMPTY_NAME\<rparr>, h)
      else if unat sz \<ge> CLIENT_MAX_NAME then Inr (False, req\<lparr>nr_response := LONG_NAME\<rparr>, h)
      else (case name of None \<Rightarrow> Inl Null_deref | Some mem \<Rightarrow>
        rbind (all_alnum (unat sz) mem) (\<lambda>good.
        if \<not> good then Inr (False, req\<lparr>nr_response := BAD_NAME\<rparr>, h)
        else rbind (client_name_exists h c (req\<lparr>nr_name := name, nr_size := sz\<rparr>)) (\<lambda>(taken, req).
          if taken then Inr (False, req\<lparr>nr_response := TAKEN_NAME\<rparr>, h)
          else rbind (peek mem 0 (unat sz)) (\<lambda>bs.
               rbind (poke (c_name me) 0 bs) (\<lambda>nm.
               rbind (poke nm (unat sz + 1) [NUL]) (\<lambda>nm.
               rbind (h_set c (\<lambda>n. n\<lparr>c_name := nm, c_name_size := sz\<rparr>) h) (\<lambda>h.
               Inr (True, req, h))))))))))))"

section \<open>Joining and talking\<close>

text \<open>\<open>first\<close> is false throughout, so that a separator comes before every name.\<close>

definition members_body ::
  "allocator \<Rightarrow> int \<Rightarrow> int \<Rightarrow> client \<Rightarrow> queue \<Rightarrow> (bool \<times> queue) res" where
  "members_body al me_id c_id' last_c qu =
     (if c_id last_c \<noteq> me_id \<and> named last_c
      then rbind (queue_push al qu ('', '' @ [NUL]) 2) (\<lambda>qu.
           rbind (queue_push al qu (c_name last_c) (c_name_size last_c)) (\<lambda>qu. Inr (False, qu)))
      else Inr (False, qu))"

definition client_collect_list_of_names_other_names ::
  "allocator \<Rightarrow> client heap \<Rightarrow> ptr \<Rightarrow> client heap res" where
  "client_collect_list_of_names_other_names al h c =
     (if c = None then Inl Assert_failed
      else rbind (deref h c) (\<lambda>me.
      case c_recv_qu me of None \<Rightarrow> Inl Assert_failed | Some qu \<Rightarrow>
      rbind (queue_push al qu (CLIENT_MEMBERS @ [NUL]) 21) (\<lambda>qu.
      rbind (for_each_client h c (members_body al) qu) (\<lambda>qu.
      h_set c (\<lambda>n. n\<lparr>c_recv_qu := Some qu\<rparr>) h))))"

text \<open>
  The response of an invalid name is a C string in an array of 128 bytes. \<open>&size\<close> is a \<open>size_t *\<close>,
  of which \<open>sendall\<close> reads the lower half as an \<open>int\<close>.
\<close>

definition client_handle_newclient ::
  "allocator \<Rightarrow> name_request \<Rightarrow> client heap \<Rightarrow> ptr \<Rightarrow> kernel \<Rightarrow> (int \<times> client heap \<times> kernel) res" where
  "client_handle_newclient al junk h c k =
     (if c = None then Inl Assert_failed
      else rbind (client_validate_username h c junk) (\<lambda>(valid, req, h).
      rbind (deref h c) (\<lambda>me.
      if \<not> valid
      then rbind (sprintf_buf 128 (nr_response req)) (\<lambda>buf.
           rbind (sendall (c_id me) buf (int (length (nr_response req))) k) (\<lambda>(r, _, k).
             if r \<noteq> 0 then Inl Assert_failed else Inr (-1, h, k)))
      else rbind (client_collect_list_of_names_other_names al h c) (\<lambda>h.
           rbind (deref h c) (\<lambda>me.
           case c_recv_qu me of None \<Rightarrow> Inl Assert_failed | Some qu \<Rightarrow>
           (case queue_pop_no_copy qu of (popped, msg, qu) \<Rightarrow>
           rbind (h_set c (\<lambda>n. n\<lparr>c_recv_qu := Some qu\<rparr>) h) (\<lambda>h.
           case msg of None \<Rightarrow> Inl Uninitialised | Some mem \<Rightarrow>
           rbind (sendall (c_id me) mem (int_of_size (of_int popped)) k) (\<lambda>(r, _, k).
           if r \<noteq> 0 then Inl Assert_failed
           else rbind (c_string (c_name me)) (\<lambda>name.
                let s = joined_note name in
                rbind (sprintf_buf 128 s) (\<lambda>newuser.
                rbind (client_broadcast_message_from h c newuser (of_nat (length s)) k) (\<lambda>k.
                Inr (1, h, k))))))))))))"

text \<open>
  The message is printed with \<open>%s\<close>: what is sent is the buffer of the queue up to the first NUL,
  not the message, and the length is that of the text before it was cut.
\<close>

definition client_handle_request ::
  "allocator \<Rightarrow> name_request \<Rightarrow> client heap \<Rightarrow> ptr \<Rightarrow> kernel \<Rightarrow> (int \<times> client heap \<times> kernel) res" where
  "client_handle_request al junk h c k =
     rbind (deref h c) (\<lambda>me.
     if \<not> named me then client_handle_newclient al junk h c k
     else (case c_recv_qu me of None \<Rightarrow> Inl Assert_failed | Some qu \<Rightarrow>
       (case queue_pop_no_copy qu of (popped, msg, qu) \<Rightarrow>
       let sz = (of_int popped :: size_t) - 1 in
       rbind (h_set c (\<lambda>n. n\<lparr>c_recv_qu := Some qu\<rparr>) h) (\<lambda>h.
       if sz = 0 then Inr (0, h, k)
       else if unat sz > CLIENT_MAX_MESSAGE_SIZE then Inr (0, h, k)
       else (case msg of None \<Rightarrow> Inl Uninitialised | Some mem \<Rightarrow>
            rbind (c_string (c_name me)) (\<lambda>name.
            rbind (c_string mem) (\<lambda>rest.
            let s = ''['' @ name @ ''] '' @ rest;
                mesg = snprintf_buf CLIENT_MAX_COMPOSED_MESSAGE_SIZE s in
            rbind (client_broadcast_message_from h c mesg (of_nat (length s)) k) (\<lambda>k.
            Inr (1, h, k)))))))))"

section \<open>Loops over the clients\<close>

definition clients :: "client heap \<Rightarrow> nat list \<Rightarrow> client list" where
  "clients h xs = map (\<lambda>a. the (h_mem h a)) xs"

lemma for_each_client_dll:
  assumes "dll h xs" and "a \<in> set xs"
  shows "for_each_client h (Some a) body s =
    until_stop (body (c_id (the (h_mem h a))) (c_id (hd (clients h xs)))) s (clients h xs)"
proof -
  have live: "deref h (Some b) = Inr (the (h_mem h b))" if "b \<in> set xs" for b
    using lseg_live [of "h_mem h" None xs None b] assms(1) that by (auto simp: dll_def)
  have ne: "xs \<noteq> []" using assms(2) by auto
  then have "hd (clients h xs) = the (h_mem h (hd xs))" by (simp add: clients_def hd_map)
  then show ?thesis
    using live [OF assms(2)] live [OF hd_in_set [OF ne]] walk_from_first [OF assms]
      traverse_dll [OF assms(1) ne, of "body (c_id (the (h_mem h a))) (c_id (the (h_mem h (hd xs))))" s]
    by (simp add: for_each_client_def client_first_def clients_def del: traverse.simps)
qed

text \<open>A text that prints without arguments and fits, in a buffer with one more byte, is sent as it is.\<close>

definition sends :: "int \<Rightarrow> char list \<Rightarrow> size_t \<Rightarrow> char list \<Rightarrow> bool" where
  "sends fd mem sz bs \<longleftrightarrow> (\<forall>k. k_tx k fd = [] \<longrightarrow>
     (\<exists>l. sendall fd mem (int_of_size sz) k = Inr (0, l, put_out fd bs k)))"

lemma sends_text:
  assumes "fd \<noteq> 0" and "s \<noteq> []" and "length s < 2 ^ 31" and "list_all no_percent s" and "length s + 2 \<le> length mem"
    and "take (length s + 1) mem = s @ [NUL]"
  shows "sends fd mem (of_nat (length s)) s"
proof -
  have "unat (of_nat (length s) :: size_t) = length s" using assms(3) by (intro unat_of_nat_small) simp
  then have len: "int_of_size (of_nat (length s)) = int (length s)"
    using assms(3) by (simp add: int_of_size_small)
  have taken: "take (length s) mem = s"
    using arg_cong [OF assms(6), of "take (length s)"] by (simp add: min_def)
  have fmt: "fmt_ok (cs @ NUL # ds)" if "list_all no_percent cs" for cs ds
    using that by (induction cs) (simp_all add: no_percent_def)
  obtain x rest where mem: "mem = s @ NUL # x # rest"
  proof -
    have "mem = (s @ [NUL]) @ drop (length s + 1) mem"
      by (metis assms(6) append_take_drop_id)
    moreover have "drop (length s + 1) mem \<noteq> []" using assms(5) by simp
    ultimately show ?thesis
      using that by (cases "drop (length s + 1) mem") simp_all
  qed
  have "(take (length s + 2) mem)[length s + 1 := NUL] = s @ [NUL, NUL]"
    by (simp add: mem list_update_append)
  then have "fmt_ok ((take (length s + 2) mem)[length s + 1 := NUL])"
    using fmt [OF assms(4), of "[NUL]"] by simp
  then show ?thesis
    using sendall_whole [of fd "length s" mem] assms taken by (simp add: sends_def len)
qed

lemma sprintf_buf_text:
  assumes "length s + 2 \<le> n"
  shows "\<exists>mem. sprintf_buf n s = Inr mem \<and> length s + 2 \<le> length mem \<and> take (length s + 1) mem = s @ [NUL]"
  using assms by (intro exI [of _ "s @ NUL # replicate (n - length s - 1) NUL"]) (simp add: sprintf_buf_def)

lemma snprintf_buf_text:
  assumes "length s + 2 \<le> n"
  shows "length s + 2 \<le> length (snprintf_buf n s) \<and> take (length s + 1) (snprintf_buf n s) = s @ [NUL]"
  using assms by (simp add: snprintf_buf_def)

section \<open>Broadcasts\<close>

definition others :: "int \<Rightarrow> client list \<Rightarrow> client list" where
  "others me ns = filter (\<lambda>n. c_id n \<noteq> me \<and> named n) ns"

lemma broadcast_loop:
  "sends first msg sz bs \<Longrightarrow> k_tx k first = [] \<Longrightarrow>
   until_stop (broadcast_body msg sz me first) k ns =
     Inr (put_out first (concat (replicate (length (others me ns)) bs)) k)"
proof (induction ns arbitrary: k)
  case (Cons n ns)
  show ?case
  proof (cases "c_id n \<noteq> me \<and> named n")
    case True
    obtain l where "sendall first msg (int_of_size sz) k = Inr (0, l, put_out first bs k)"
      using Cons.prems by (auto simp: sends_def)
    then show ?thesis
      using True Cons.IH [of "put_out first bs k"] Cons.prems by (simp add: broadcast_body_def others_def)
  next
    case False
    then show ?thesis
      using Cons by (auto simp: broadcast_body_def others_def)
  qed
qed (simp add: others_def)

lemma broadcast_ok:
  assumes "dll h xs" and "a \<in> set xs" and "sends (c_id (hd (clients h xs))) msg sz bs"
    and "k_tx k (c_id (hd (clients h xs))) = []"
  shows "client_broadcast_message_from h (Some a) msg sz k =
    Inr (put_out (c_id (hd (clients h xs)))
      (concat (replicate (length (others (c_id (the (h_mem h a))) (clients h xs))) bs)) k)"
  using broadcast_loop [OF assms(3,4)]
  by (simp add: client_broadcast_message_from_def for_each_client_dll [OF assms(1,2)])

lemma broadcast_all_loop:
  "sends first msg sz bs \<Longrightarrow> k_tx k first = [] \<Longrightarrow>
   until_stop (broadcast_all_body msg sz me first) k ns =
     Inr (put_out first (concat (replicate (length (filter named ns)) bs)) k)"
proof (induction ns arbitrary: k)
  case (Cons n ns)
  show ?case
  proof (cases "named n")
    case True
    obtain l where "sendall first msg (int_of_size sz) k = Inr (0, l, put_out first bs k)"
      using Cons.prems by (auto simp: sends_def)
    then show ?thesis
      using True Cons.IH [of "put_out first bs k"] Cons.prems by (simp add: broadcast_all_body_def)
  qed (use Cons in \<open>simp add: broadcast_all_body_def\<close>)
qed simp

section \<open>Leaving\<close>

lemma note_lengths: "length (left_note nm) = length nm + 22" "length (joined_note nm) = length nm + 24"
  by (simp_all add: left_note_def joined_note_def)

lemma note_chars:
  "list_all no_percent nm \<Longrightarrow> list_all no_percent (left_note nm) \<and> list_all no_percent (joined_note nm)"
  by (simp add: left_note_def joined_note_def no_percent_def)

text \<open>A note about a client of the list, sent to the first client once for each other one with a name.\<close>

lemma note_broadcast:
  assumes "dll h xs" and "a \<in> set xs" and "c_id (hd (clients h xs)) \<noteq> 0" and "k_tx k (c_id (hd (clients h xs))) = []"
    and "list_all no_percent s" and "s \<noteq> []" and "length s \<le> 126"
  shows "rbind (sprintf_buf 128 s) (\<lambda>buf. rbind (client_broadcast_message_from h (Some a) buf (of_nat (length s)) k) f)
    = f (put_out (c_id (hd (clients h xs)))
        (concat (replicate (length (others (c_id (the (h_mem h a))) (clients h xs))) s)) k)"
proof -
  obtain buf where buf: "sprintf_buf 128 s = Inr buf" "length s + 2 \<le> length buf" "take (length s + 1) buf = s @ [NUL]"
    using sprintf_buf_text [of s 128] assms(7) by auto
  have "sends (c_id (hd (clients h xs))) buf (of_nat (length s)) s"
    using assms(3,5,6,7) buf(2,3) by (intro sends_text) simp_all
  from broadcast_ok [OF assms(1,2) this assms(4)] show ?thesis
    by (simp only: buf(1) rbind_Inr)
qed

lemma close_ok:
  assumes "dll h (xs @ a # ys)" and "h_mem h a = Some n" and "c_recv_qu n \<noteq> None" and "c_string (c_name n) = Inr nm"
    and "list_all no_percent nm" and "length nm \<le> 33" and "first = c_id (hd (clients h (xs @ a # ys)))" and "first \<noteq> 0"
    and "k_tx k first = []"
  shows "returns (client_close (Some a) h k) (\<lambda>(p, h', k'). dll h' (xs @ ys) \<and>
    payloads h' (xs @ ys) = payloads h (xs @ ys) \<and> h_mem h' a = None \<and> points_into p (xs @ ys) \<and>
    k' = put_out first (concat (replicate (length (others (c_id n) (clients h (xs @ a # ys)))) (left_note nm))) k)"
proof -
  have links: "n_prev n = last_or None xs" "n_next n = head_or ys None"
    using assms(1,2) by (auto elim: dll_split)
  obtain h' where h': "unlink h a = Inr h'" "dll (h_free a h') (xs @ ys)"
    "payloads (h_free a h') (xs @ ys) = payloads h (xs @ ys)"
    using unlink_ok [OF assms(1)] by (auto simp: returns_iff)
  have "points_into (neighbour (n\<lparr>c_recv_qu := q\<rparr>)) (xs @ ys)" for q
    using links by (intro neighbour_points_into) simp_all
  moreover have note_rule: "rbind (sprintf_buf 128 (left_note nm)) (\<lambda>buf.
      rbind (client_broadcast_message_from h (Some a) buf (of_nat (length (left_note nm))) k) f)
    = f (put_out first (concat (replicate (length (others (c_id n) (clients h (xs @ a # ys)))) (left_note nm))) k)" for f
    using note_broadcast [OF assms(1), of a k "left_note nm" f] assms note_chars [OF assms(5)] note_lengths [of nm]
    by (simp add: left_note_def)
  ultimately show ?thesis
    using assms(2-4) h' unfolding client_close_def Let_def
    by (simp only: option.case deref_simps rbind_Inr if_False note_rule) simp
qed

section \<open>Choosing a name\<close>

lemma isalnum_chars: "isalnum ch \<Longrightarrow> ch \<noteq> NUL \<and> no_percent ch"
  by (auto simp: isalnum_def NUL_def no_percent_def Let_def)

lemma all_alnum_take: "m \<le> length mem \<Longrightarrow> all_alnum m mem = Inr (list_all isalnum (take m mem))"
  by (induction m mem rule: all_alnum.induct) simp_all

lemma strncmp_zero_take:
  "m \<le> length xs \<Longrightarrow> m \<le> length ys \<Longrightarrow> NUL \<notin> set (take m ys) \<Longrightarrow>
   strncmp_zero xs ys m = Inr (take m xs = take m ys)"
  by (induction xs ys m rule: strncmp_zero.induct) auto

lemma name_loop:
  assumes "\<forall>n \<in> set ns. unat sz \<le> length (c_name n)" and "unat sz \<le> length mem" and "NUL \<notin> set (take (unat sz) mem)"
  shows "until_stop (name_body mem sz me first) False ns =
    Inr (\<exists>n \<in> set (others me ns). take (unat sz) (c_name n) = take (unat sz) mem)"
  using assms(1)
  by (induction ns) (auto simp: name_body_def others_def strncmp_zero_take [OF _ assms(2,3)])

text \<open>What other clients see of a client is its id and its name; an update of a queue does not change it.\<close>

definition people :: "client list \<Rightarrow> (int \<times> char list) list" where
  "people ns = map (\<lambda>n. (c_id n, c_name n)) ns"

definition other_names :: "int \<Rightarrow> (int \<times> char list) list \<Rightarrow> char list list" where
  "other_names me ps = map snd (filter (\<lambda>(i, nm). i \<noteq> me \<and> nm \<noteq> [] \<and> hd nm \<noteq> NUL) ps)"

lemma named_hd: "named n \<longleftrightarrow> c_name n \<noteq> [] \<and> hd (c_name n) \<noteq> NUL"
  by (simp add: named_def split: list.split)

lemma others_names: "map c_name (others me ns) = other_names me (people ns)"
  by (induction ns) (auto simp: others_def other_names_def people_def named_hd)

lemma others_length: "length (others me ns) = length (other_names me (people ns))"
  using arg_cong [OF others_names [of me ns], of length] by simp

lemma dll_put:
  assumes "dll h xs" and "h_mem h a = Some n" and "n_prev n' = n_prev n" and "n_next n' = n_next n"
  shows "dll (h_put a n' h) xs"
  using assms by (simp add: dll_def lseg_same_links)

lemma clients_put:
  "clients (h_put a n h) xs = map (\<lambda>b. if b = a then n else the (h_mem h b)) xs"
  by (simp add: clients_def)

lemma people_put:
  assumes "h_mem h a = Some n" and "c_id n' = c_id n" and "c_name n' = c_name n"
  shows "people (clients (h_put a n' h) xs) = people (clients h xs)"
  using assms by (auto simp: clients_put people_def clients_def)

text \<open>The verdict on a received line (its last byte is dropped), given the names of the others.\<close>

definition name_verdict :: "char list list \<Rightarrow> char list \<Rightarrow> char list option" where
  "name_verdict names bs =
     (if bs = [] \<or> 32 < length bs then Some LONG_NAME
      else if length bs = 1 then Some EMPTY_NAME
      else if \<not> list_all isalnum (butlast bs) then Some BAD_NAME
      else if list_ex (\<lambda>nm. take (length bs - 1) nm = butlast bs) names then Some TAKEN_NAME
      else None)"

definition stored_name :: "char list \<Rightarrow> char list \<Rightarrow> char list" where
  "stored_name old nm = nm @ [old ! length nm] @ [NUL] @ drop (length nm + 2) old"

lemma popped_size:
  assumes "bs \<noteq> []" and "length bs < 2 ^ 31"
  shows "unat (of_int (int (length bs)) - 1 :: size_t) = length bs - 1"
proof -
  have n: "unat (of_nat (length bs) :: size_t) = length bs" using assms(2) by (intro unat_of_nat_small) simp
  moreover have "unat (1 :: size_t) \<le> unat (of_nat (length bs) :: size_t)"
    using assms(1) n by (cases bs) simp_all
  ultimately show ?thesis
    by (simp add: unat_diff_small)
qed

lemma store_name_ok:
  assumes "length nm + 2 \<le> length old"
  shows "rbind (poke old 0 nm) (\<lambda>b. rbind (poke b (length nm + 1) [NUL]) f) = f (stored_name old nm)"
proof -
  have "drop (length nm) old = old ! length nm # drop (length nm + 1) old"
    using assms by (simp add: Cons_nth_drop_Suc)
  moreover have "Suc (length nm) \<le> length old - Suc 0" using assms by simp
  ultimately show ?thesis
    using assms by (simp add: poke_def stored_name_def)
qed

lemma name_exists_ok:
  assumes "dll h xs" and "a \<in> set xs" and "h_mem h a = Some n"
    and "\<forall>nd \<in> set (clients h xs). unat sz \<le> length (c_name nd)" and "unat sz \<le> length mem"
    and "NUL \<notin> set (take (unat sz) mem)" and "nr_name r = Some mem" and "nr_size r = sz" and "\<not> nr_valid r"
  shows "client_name_exists h (Some a) r = Inr (list_ex (\<lambda>nm. take (unat sz) nm = take (unat sz) mem)
    (other_names (c_id n) (people (clients h xs))), r)"
proof -
  have "for_each_client h (Some a) (name_body mem sz) False =
    Inr (\<exists>nd \<in> set (others (c_id n) (clients h xs)). take (unat sz) (c_name nd) = take (unat sz) mem)"
    using name_loop [OF assms(4-6), of "c_id n"] by (simp add: for_each_client_dll [OF assms(1,2)] assms(3))
  moreover have "(\<exists>nd \<in> set (others (c_id n) (clients h xs)). take (unat sz) (c_name nd) = take (unat sz) mem)
    = list_ex (\<lambda>nm. take (unat sz) nm = take (unat sz) mem) (other_names (c_id n) (people (clients h xs)))"
    by (simp add: list_ex_iff flip: others_names)
  ultimately show ?thesis
    using assms(7-9) by (auto simp: client_name_exists_def)
qed

text \<open>The client after its line has been popped, and the code that then looks at the line.\<close>

abbreviation popped :: "client \<Rightarrow> queue \<Rightarrow> client" where
  "popped n q \<equiv> n\<lparr>c_recv_qu := Some (flushed q)\<rparr>"

lemma validate_start:
  assumes "h_mem h a = Some n" and "c_recv_qu n = Some q" and "q_inv q" and "length (q_bytes q) < 2 ^ 31"
    and "sz = of_int (int (length (q_bytes q))) - 1" and "h1 = h_put a (popped n q) h"
    and "name = (if q_bytes q = [] then None else Some (q_data q))"
  shows "client_validate_username h (Some a) req =
     (if sz < 1 then Inr (False, req\<lparr>nr_valid := False, nr_response := EMPTY_NAME\<rparr>, h1)
      else if unat sz \<ge> CLIENT_MAX_NAME then Inr (False, req\<lparr>nr_valid := False, nr_response := LONG_NAME\<rparr>, h1)
      else (case name of None \<Rightarrow> Inl Null_deref | Some mem \<Rightarrow>
        rbind (all_alnum (unat sz) mem) (\<lambda>good.
        if \<not> good then Inr (False, req\<lparr>nr_valid := False, nr_response := BAD_NAME\<rparr>, h1)
        else rbind (client_name_exists h1 (Some a) (req\<lparr>nr_valid := False, nr_name := name, nr_size := sz\<rparr>)) (\<lambda>(taken, req).
          if taken then Inr (False, req\<lparr>nr_response := TAKEN_NAME\<rparr>, h1)
          else rbind (peek mem 0 (unat sz)) (\<lambda>bs.
               rbind (poke (c_name n) 0 bs) (\<lambda>nm.
               rbind (poke nm (unat sz + 1) [NUL]) (\<lambda>nm.
               rbind (h_set (Some a) (\<lambda>n. n\<lparr>c_name := nm, c_name_size := sz\<rparr>) h1) (\<lambda>h.
               Inr (True, req, h)))))))))"
proof -
  have pop: "queue_pop_no_copy q = (int (length (q_bytes q)), name, flushed q)"
    using pop_flushed [OF assms(3,4)] assms(7) by simp
  show ?thesis
    unfolding client_validate_username_def deref_simps(2) [OF assms(1)] rbind_Inr assms(2) option.case pop
      prod.case Let_def h_set_live [OF assms(1)] assms(6) [symmetric] assms(5) [symmetric]
    by simp
qed

lemma validate_length:
  assumes "h_mem h a = Some n" and "c_recv_qu n = Some q" and "q_inv q" and "q_bytes q = bs" and "length bs < 2 ^ 31"
    and "length bs < 2 \<or> 32 < length bs"
  shows "client_validate_username h (Some a) req =
    Inr (False, req\<lparr>nr_valid := False, nr_response := if length bs = 1 then EMPTY_NAME else LONG_NAME\<rparr>, h_put a (popped n q) h)"
proof -
  define sz where "sz = (of_int (int (length bs)) :: size_t) - 1"
  note start = validate_start [OF assms(1-3), unfolded assms(4), OF assms(5) sz_def refl refl]
  show ?thesis
  proof (cases "bs = []")
    case True
    then have "sz = -1" by (simp add: sz_def)
    then have "unat sz = 2 ^ 64 - 1" by (simp add: unsigned_minus_1_eq_mask mask_eq_exp_minus_1)
    then have "\<not> sz < 1" "CLIENT_MAX_NAME \<le> unat sz" by (simp_all add: CLIENT_MAX_NAME_def word_less_nat_alt)
    then show ?thesis using True by (simp add: start)
  next
    case False
    have unat: "unat sz = length bs - 1" unfolding sz_def using False assms(5) by (rule popped_size)
    have "sz < 1 \<longleftrightarrow> length bs = 1" using False unfolding word_less_nat_alt unat by (cases bs) auto
    moreover have "length bs = 1 \<or> 32 < length bs" using False assms(6) by (cases bs) auto
    ultimately show ?thesis using unat by (auto simp: start CLIENT_MAX_NAME_def)
  qed
qed

lemma line_in_buffer:
  assumes "q_inv q" and "q_bytes q = bs" and "n \<le> length bs"
  shows "n \<le> length (q_data q)" and "take n (q_data q) = take n bs"
proof -
  have "length bs \<le> length (q_data q)" "take (length bs) (q_data q) = bs"
    using assms(1,2) q_inv_length [OF assms(1)] by (auto simp: q_inv_def q_bytes_def)
  then show "n \<le> length (q_data q)" "take n (q_data q) = take n bs"
    using assms(3) take_take [of n "length bs" "q_data q"] by (simp_all add: min_absorb1)
qed

lemma validate_line:
  assumes "dll h xs" and "a \<in> set xs" and "\<forall>nd \<in> set (clients h xs). length (c_name nd) = 33"
    and "h_mem h a = Some n" and "c_recv_qu n = Some q" and "q_inv q" and "q_bytes q = bs"
    and "2 \<le> length bs" and "length bs \<le> 32" and "nm = butlast bs"
    and "r = req\<lparr>nr_valid := False, nr_name := Some (q_data q), nr_size := of_nat (length bs - 1)\<rparr>"
  shows "client_validate_username h (Some a) req =
    Inr (if \<not> list_all isalnum nm then (False, req\<lparr>nr_valid := False, nr_response := BAD_NAME\<rparr>, h_put a (popped n q) h)
      else if list_ex (\<lambda>old. take (length bs - 1) old = nm) (other_names (c_id n) (people (clients h xs)))
      then (False, r\<lparr>nr_response := TAKEN_NAME\<rparr>, h_put a (popped n q) h)
      else (True, r, h_put a (n\<lparr>c_recv_qu := Some (flushed q), c_name := stored_name (c_name n) nm,
              c_name_size := of_nat (length bs - 1)\<rparr>) h))"
proof -
  define sz where "sz = (of_int (int (length bs)) :: size_t) - 1"
  define h1 where "h1 = h_put a (popped n q) h"
  have bs: "bs \<noteq> []" "length bs < 2 ^ 31" using assms(8,9) by auto
  have unat: "unat sz = length bs - 1" unfolding sz_def using bs by (rule popped_size)
  have sz: "sz = of_nat (length bs - 1)" "\<not> sz < 1" "\<not> CLIENT_MAX_NAME \<le> unat sz"
    using bs(1) assms(8,9) unfolding CLIENT_MAX_NAME_def word_less_nat_alt unat
    by (cases bs, auto simp: sz_def)
  have line: "take (unat sz) (q_data q) = nm" "unat sz \<le> length (q_data q)"
    using line_in_buffer [OF assms(6,7), of "unat sz"] unat by (simp_all add: assms(10) butlast_conv_take)
  note branch = validate_start [OF assms(4,5,6), unfolded assms(7), OF bs(2) sz_def h1_def refl,
    unfolded if_not_P [OF sz(2)] if_not_P [OF sz(3)] if_not_P [OF bs(1)] option.case
      all_alnum_take [OF line(2)] line(1) rbind_Inr]
  show ?thesis
  proof (cases "list_all isalnum nm")
    case False
    then show ?thesis by (simp add: branch h1_def)
  next
    case True
    then have nul: "NUL \<notin> set (take (unat sz) (q_data q))" using isalnum_chars line(1) by (auto simp: list_all_iff)
    have len: "length (c_name n) = 33" using assms(2,3,4) by (auto simp: clients_def)
    have h1: "dll h1 xs" "h_mem h1 a = Some (popped n q)" "people (clients h1 xs) = people (clients h xs)"
      "\<forall>nd \<in> set (clients h1 xs). unat sz \<le> length (c_name nd)"
      using assms(1,3,4,9) len unat dll_put [OF assms(1,4)] people_put [OF assms(4)]
      by (auto simp: h1_def clients_put clients_def)
    let ?r = "req\<lparr>nr_valid := False, nr_name := Some (q_data q), nr_size := sz\<rparr>"
    have "client_name_exists h1 (Some a) ?r =
      Inr (list_ex (\<lambda>old. take (length bs - 1) old = nm) (other_names (c_id n) (people (clients h xs))), ?r)"
      using name_exists_ok [OF h1(1) assms(2) h1(2,4) line(2) nul, of ?r] h1(3) line(1) unat
      by simp
    moreover have peeked: "peek (q_data q) 0 (unat sz) = Inr nm" using line by (simp add: peek_in)
    moreover have room: "length nm + 2 \<le> length (c_name n)" "length nm = unat sz" using len assms(9,10) unat by auto
    ultimately have "client_validate_username h (Some a) req =
      (if list_ex (\<lambda>old. take (length bs - 1) old = nm) (other_names (c_id n) (people (clients h xs)))
       then Inr (False, ?r\<lparr>nr_response := TAKEN_NAME\<rparr>, h1)
       else Inr (True, ?r, h_put a (popped n q\<lparr>c_name := stored_name (c_name n) nm, c_name_size := sz\<rparr>) h1))"
      using True
      by (simp only: branch if_False if_True not_True_eq_False rbind_Inr prod.case
          store_name_ok [OF room(1), unfolded room(2)] h_set_live [OF h1(2)])
    then show ?thesis
      using True by (simp add: assms(11) sz(1) h1_def)
  qed
qed

lemma validate_ok:
  assumes "dll h xs" and "a \<in> set xs" and "\<forall>nd \<in> set (clients h xs). length (c_name nd) = 33"
    and "h_mem h a = Some n" and "c_recv_qu n = Some q" and "q_inv q" and "q_bytes q = bs" and "length bs < 2 ^ 31"
    and "v = name_verdict (other_names (c_id n) (people (clients h xs))) bs"
  shows "returns (client_validate_username h (Some a) req) (\<lambda>(valid, req', h').
    valid = (v = None) \<and> (\<forall>msg. v = Some msg \<longrightarrow> nr_response req' = msg) \<and>
    h' = h_put a (if v = None
      then n\<lparr>c_recv_qu := Some (flushed q), c_name := stored_name (c_name n) (butlast bs),
             c_name_size := of_nat (length bs - 1)\<rparr>
      else popped n q) h)"
proof (cases "2 \<le> length bs \<and> length bs \<le> 32")
  case True
  then show ?thesis
    using assms(9) by (auto simp: validate_line [OF assms(1-7) _ _ refl refl] name_verdict_def)
next
  case False
  then have long: "length bs < 2 \<or> 32 < length bs" by linarith
  then have "v = Some (if length bs = 1 then EMPTY_NAME else LONG_NAME)"
    unfolding assms(9) by (cases bs) (auto simp: name_verdict_def)
  then show ?thesis by (auto simp: validate_length [OF assms(4-8) long])
qed

section \<open>Joining\<close>

lemma push_ok:
  assumes "q_inv q" and "alloc_ok al" and "fresh_all P al" and "q_all P q" and "unat sz \<le> length data"
    and "list_all P (take (unat sz) data)" and "length (q_bytes q) + unat sz \<le> 2 ^ 40"
  shows "returns (queue_push al q data sz)
    (\<lambda>q'. q_inv q' \<and> q_all P q' \<and> laid al q q' \<and> q_bytes q' = q_bytes q @ take (unat sz) data)"
proof (cases "sz = 0")
  case True
  then show ?thesis using assms by (simp add: queue_push_zero laid_refl)
next
  case False
  have size: "unat (q_size q) + unat sz \<le> 2 ^ 40" using assms(1,7) by (simp add: q_inv_length)
  from queue_push_ok [OF assms(1,2) size assms(5) False]
  show ?thesis
    by (rule returns_mono)
      (use queue_push_all [OF _ assms(3,4)] push_laid [OF _ assms(1,2) size assms(5)] assms(6) in \<open>auto simp: list_all_iff\<close>)
qed

text \<open>
  A name as the protocol stores it: 1 to 31 alphanumeric bytes, then one more byte of any value,
  then a NUL.
\<close>

definition name_wf :: "client \<Rightarrow> bool" where
  "name_wf n \<longleftrightarrow> length (c_name n) = 33 \<and> (named n \<longrightarrow>
     (let m = unat (c_name_size n) in 1 \<le> m \<and> m \<le> 31 \<and> list_all isalnum (take m (c_name n)) \<and>
        c_name n ! (m + 1) = NUL))"

definition member_text :: "client \<Rightarrow> char list" where
  "member_text n = '', '' @ take (unat (c_name_size n)) (c_name n)"

lemma member_text_length: "name_wf n \<Longrightarrow> named n \<Longrightarrow> length (member_text n) \<le> 33"
  by (simp add: name_wf_def member_text_def Let_def)

lemma members_loop:
  assumes "alloc_ok al" and "fresh_all no_percent al"
  shows "q_inv q \<Longrightarrow> q_all no_percent q \<Longrightarrow> \<forall>n \<in> set ns. name_wf n \<Longrightarrow>
    length (q_bytes q) + 33 * length ns \<le> 2 ^ 40 \<Longrightarrow>
    returns (until_stop (members_body al me first) q ns)
      (\<lambda>q'. q_inv q' \<and> q_all no_percent q' \<and> laid al q q' \<and>
         q_bytes q' = q_bytes q @ concat (map member_text (others me ns)))"
proof (induction ns arbitrary: q)
  case (Cons n ns)
  show ?case
  proof (cases "c_id n \<noteq> me \<and> named n")
    case False
    then show ?thesis
      using Cons.IH [of q] Cons.prems by (auto simp: members_body_def others_def)
  next
    case True
    have wf: "unat (c_name_size n) \<le> 31" "list_all isalnum (take (unat (c_name_size n)) (c_name n))"
      "length (c_name n) = 33"
      using Cons.prems(3) True by (auto simp: name_wf_def Let_def)
    have "list_all no_percent '', ''" by (simp add: no_percent_def)
    then obtain q1 where q1: "queue_push al q ('', '' @ [NUL]) 2 = Inr q1" "q_inv q1" "q_all no_percent q1"
      "laid al q q1" "q_bytes q1 = q_bytes q @ '', ''"
      using push_ok [OF Cons.prems(1) assms Cons.prems(2), of 2 "'', '' @ [NUL]"] Cons.prems(4)
      by (auto simp: returns_iff)
    have "list_all no_percent (take (unat (c_name_size n)) (c_name n))"
      using wf(2) isalnum_chars by (auto simp: list_all_iff)
    then obtain q2 where q2: "queue_push al q1 (c_name n) (c_name_size n) = Inr q2" "q_inv q2" "q_all no_percent q2"
      "laid al q1 q2" "q_bytes q2 = q_bytes q1 @ take (unat (c_name_size n)) (c_name n)"
      using push_ok [OF q1(2) assms q1(3), of "c_name_size n" "c_name n"] wf(1,3) Cons.prems(4) q1(5)
      by (auto simp: returns_iff)
    have "length (q_bytes q2) + 33 * length ns \<le> 2 ^ 40"
      using Cons.prems(4) q1(5) q2(5) wf(1) by simp
    moreover have "laid al q q2" using laid_trans [OF q1(4) q2(4)] q2(5) by simp
    then have "laid al q q3" if "laid al q2 q3" "q_bytes q3 = q_bytes q2 @ bs" for q3 bs
      using laid_trans [OF _ that(1)] that(2) by simp
    ultimately show ?thesis
      using True q1 q2 Cons.IH [OF q2(2,3)] Cons.prems(3)
      by (auto simp: members_body_def others_def member_text_def elim!: returns_mono)
  qed
qed (simp add: others_def laid_refl)

lemma collect_ok:
  assumes "dll h xs" and "a \<in> set xs" and "h_mem h a = Some n" and "c_recv_qu n = Some q" and "q_inv q"
    and "alloc_ok al" and "fresh_all no_percent al" and "q_all no_percent q"
    and "\<forall>nd \<in> set (clients h xs). name_wf nd" and "length (q_bytes q) + 21 + 33 * length xs \<le> 2 ^ 40"
  shows "returns (client_collect_list_of_names_other_names al h (Some a))
    (\<lambda>h'. \<exists>q'. h' = h_put a (n\<lparr>c_recv_qu := Some q'\<rparr>) h \<and> q_inv q' \<and> q_all no_percent q' \<and> laid al q q' \<and>
       q_bytes q' = q_bytes q @ CLIENT_MEMBERS @ concat (map member_text (others (c_id n) (clients h xs))))"
proof -
  have "take 21 (CLIENT_MEMBERS @ [NUL]) = CLIENT_MEMBERS" "length CLIENT_MEMBERS = 21"
    "list_all no_percent CLIENT_MEMBERS"
    by (simp_all add: CLIENT_MEMBERS_def no_percent_def)
  moreover have "unat (21 :: size_t) = 21" by simp
  ultimately obtain q1 where q1: "queue_push al q (CLIENT_MEMBERS @ [NUL]) 21 = Inr q1" "q_inv q1"
    "q_all no_percent q1" "laid al q q1" "q_bytes q1 = q_bytes q @ CLIENT_MEMBERS"
    using push_ok [OF assms(5-8), of 21 "CLIENT_MEMBERS @ [NUL]"] assms(10) by (auto simp: returns_iff)
  have "length (q_bytes q1) + 33 * length (clients h xs) \<le> 2 ^ 40"
    using assms(10) q1(5) by (simp add: clients_def CLIENT_MEMBERS_def)
  from members_loop [OF assms(6,7) q1(2,3) assms(9) this, of "c_id n" "c_id (hd (clients h xs))"]
  obtain q2 where q2: "until_stop (members_body al (c_id n) (c_id (hd (clients h xs)))) q1 (clients h xs) = Inr q2"
    "q_inv q2" "q_all no_percent q2" "laid al q1 q2"
    "q_bytes q2 = q_bytes q1 @ concat (map member_text (others (c_id n) (clients h xs)))"
    by (auto simp: returns_iff)
  moreover have "laid al q q2" using laid_trans [OF q1(4) q2(4)] q2(5) by simp
  ultimately show ?thesis
    using assms(3,4) q1
    by (auto simp: client_collect_list_of_names_other_names_def for_each_client_dll [OF assms(1,2)]
        h_set_live returns_iff)
qed

text \<open>An update of a client that keeps its links and its id.\<close>

definition same_place :: "client \<Rightarrow> client \<Rightarrow> bool" where
  "same_place n n' \<longleftrightarrow> n_prev n' = n_prev n \<and> n_next n' = n_next n \<and> c_id n' = c_id n"

lemma put_client:
  assumes "dll h xs" and "a \<in> set xs" and "h_mem h a = Some n" and "same_place n n'"
  shows "dll (h_put a n' h) xs" and "c_id (hd (clients (h_put a n' h) xs)) = c_id (hd (clients h xs))"
    and "others (c_id n) (clients (h_put a n' h) xs) = others (c_id n) (clients h xs)"
proof -
  show "dll (h_put a n' h) xs" using assms by (simp add: dll_put same_place_def)
  show "c_id (hd (clients (h_put a n' h) xs)) = c_id (hd (clients h xs))"
    using assms by (cases xs) (auto simp: clients_def same_place_def)
  have "others (c_id n) (map (\<lambda>b. the (if b = a then Some n' else h_mem h b)) ys)
      = others (c_id n) (map (\<lambda>b. the (h_mem h b)) ys)" for ys
    using assms(3,4) by (induction ys) (auto simp: others_def same_place_def)
  then show "others (c_id n) (clients (h_put a n' h) xs) = others (c_id n) (clients h xs)"
    by (simp add: clients_def fun_upd_def)
qed

definition shown_name :: "char list \<Rightarrow> char list \<Rightarrow> char list" where
  "shown_name old nm = (if old ! length nm = NUL then nm else nm @ [old ! length nm])"

lemma c_string_stored:
  "list_all isalnum nm \<Longrightarrow> c_string (stored_name old nm) = Inr (shown_name old nm)"
proof -
  assume "list_all isalnum nm"
  then have "\<forall>ch \<in> set nm. ch \<noteq> NUL" using isalnum_chars by (auto simp: list_all_iff)
  then show ?thesis
    by (simp add: c_string_def stored_name_def shown_name_def takeWhile_append2)
qed

lemma name_wf_stored:
  assumes "list_all isalnum nm" and "1 \<le> length nm" and "length nm \<le> 31" and "length old = 33"
  shows "name_wf (n\<lparr>c_recv_qu := qu, c_name := stored_name old nm, c_name_size := of_nat (length nm)\<rparr>)"
proof -
  have "unat (of_nat (length nm) :: size_t) = length nm" using assms(3) by (intro unat_of_nat_small) simp
  then show ?thesis
    using assms by (simp add: name_wf_def Let_def stored_name_def nth_append)
qed

lemma int_of_size_popped: "n < 2 ^ 31 \<Longrightarrow> int_of_size (of_int (int n)) = int n"
proof -
  assume n: "n < 2 ^ 31"
  then have "unat (of_nat n :: size_t) = n" by (intro unat_of_nat_small) simp
  then show ?thesis using int_of_size_small [of "of_nat n"] n by simp
qed

lemma members_length:
  "\<forall>n \<in> set ns. name_wf n \<Longrightarrow> length (concat (map member_text (others me ns))) \<le> 33 * length ns"
proof (induction ns)
  case (Cons n ns)
  then show ?case using member_text_length [of n] by (auto simp: others_def)
qed (simp add: others_def)

text \<open>The client once it has a name, with what has become of its queue.\<close>

definition joined :: "client \<Rightarrow> char list \<Rightarrow> queue \<Rightarrow> client" where
  "joined n bs q = n\<lparr>c_recv_qu := Some q, c_name := stored_name (c_name n) (butlast bs),
     c_name_size := of_nat (length bs - 1)\<rparr>"

lemma joined_fields [simp]:
  "c_id (joined n bs q) = c_id n" "c_recv_qu (joined n bs q) = Some q"
  "c_name (joined n bs q) = stored_name (c_name n) (butlast bs)" "(joined n bs q)\<lparr>c_recv_qu := Some q'\<rparr> = joined n bs q'"
  "same_place n (joined n bs q)" "n_next (joined n bs q) = n_next n" "n_prev (joined n bs q) = n_prev n"
  by (simp_all add: joined_def same_place_def)

lemma name_verdict_None:
  "name_verdict names bs = None \<longleftrightarrow> 2 \<le> length bs \<and> length bs \<le> 32 \<and> list_all isalnum (butlast bs) \<and>
     \<not> list_ex (\<lambda>nm. take (length bs - 1) nm = butlast bs) names"
  by (cases bs) (auto simp: name_verdict_def Suc_le_eq)

lemma joined_wf:
  assumes "name_verdict names bs = None" and "length (c_name n) = 33"
  shows "name_wf (joined n bs q)"
proof -
  have "list_all isalnum (butlast bs)" "1 \<le> length (butlast bs)" "length (butlast bs) \<le> 31"
    using assms(1) by (auto simp: name_verdict_None)
  from name_wf_stored [OF this assms(2), of "Some q" n] show ?thesis by (simp only: joined_def length_butlast)
qed

text \<open>The list of the other names goes through the client's own, empty, queue.\<close>

lemma join_members_ok:
  assumes "dll h xs" and "a \<in> set xs" and "h_mem h a = Some m" and "c_recv_qu m = Some q" and "q_inv q" and "q_bytes q = []"
    and "alloc_ok al" and "fresh_all no_percent al" and "q_all no_percent q" and "\<forall>nd \<in> set (clients h xs). name_wf nd"
    and "c_id m \<noteq> 0" and "k_tx k (c_id m) = []" and "33 * length xs + 21 < 2 ^ 31"
  obtains q1 where "client_collect_list_of_names_other_names al h (Some a) = Inr (h_put a (m\<lparr>c_recv_qu := Some q1\<rparr>) h)"
    and "q_inv q1" and "q_all no_percent q1" and "laid al q q1"
    and "q_bytes q1 = CLIENT_MEMBERS @ concat (map member_text (others (c_id m) (clients h xs)))"
    and "queue_pop_no_copy q1 = (int (length (q_bytes q1)), Some (q_data q1), flushed q1)"
    and "sendall (c_id m) (q_data q1) (int_of_size (of_int (int (length (q_bytes q1))))) k
      = Inr (0, int (length (q_bytes q1)), put_out (c_id m) (q_bytes q1) k)"
proof -
  have "length (q_bytes q) + 21 + 33 * length xs \<le> 2 ^ 40" using assms(6,13) by simp
  from collect_ok [OF assms(1-5,7-10) this] assms(6) obtain q1 where
    coll: "client_collect_list_of_names_other_names al h (Some a) = Inr (h_put a (m\<lparr>c_recv_qu := Some q1\<rparr>) h)"
    and q1: "q_inv q1" "q_all no_percent q1" "laid al q q1"
      "q_bytes q1 = CLIENT_MEMBERS @ concat (map member_text (others (c_id m) (clients h xs)))"
    by (auto simp: returns_iff)
  have "length (concat (map member_text (others (c_id m) (clients h xs)))) \<le> 33 * length xs"
    using members_length [OF assms(10), of "c_id m"] by (simp add: clients_def)
  then have size: "length (q_bytes q1) < 2 ^ 31" "q_bytes q1 \<noteq> []"
    using assms(13) q1(4) by (simp_all add: CLIENT_MEMBERS_def)
  have "queue_pop_no_copy q1 = (int (length (q_bytes q1)), Some (q_data q1), flushed q1)"
    using pop_flushed [OF q1(1) size(1)] size(2) by simp
  moreover have "sendall (c_id m) (q_data q1) (int_of_size (of_int (int (length (q_bytes q1))))) k
      = Inr (0, int (length (q_bytes q1)), put_out (c_id m) (q_bytes q1) k)"
    using sendall_queue [OF q1(1) size(2) q1(2) assms(11,12)] int_of_size_popped [OF size(1)] by simp
  ultimately show ?thesis using that [OF coll q1] by blast
qed

lemma join_ok:
  assumes "dll h xs" and "a \<in> set xs" and "h_mem h a = Some n" and "c_recv_qu n = Some q" and "q_inv q"
    and "q_bytes q = bs" and "\<forall>nd \<in> set (clients h xs). name_wf nd"
    and "name_verdict (other_names (c_id n) (people (clients h xs))) bs = None"
    and "alloc_ok al" and "fresh_all no_percent al" and "q_all no_percent q" and "no_percent (c_name n ! (length bs - 1))"
    and "c_id n \<noteq> 0" and "c_id (hd (clients h xs)) \<noteq> 0" and "k_tx k = (\<lambda>_. [])" and "33 * length xs + 21 < 2 ^ 31"
  shows "returns (client_handle_newclient al junk h (Some a) k) (\<lambda>(r, h', k'). r = 1 \<and>
    (\<exists>q1. q_inv q1 \<and> q_all no_percent q1 \<and> laid al (flushed q) q1 \<and>
       q_bytes q1 = CLIENT_MEMBERS @ concat (map member_text (others (c_id n) (clients h xs))) \<and>
       h' = h_put a (joined n bs (flushed q1)) h) \<and>
    k' = put_out (c_id (hd (clients h xs)))
        (concat (replicate (length (others (c_id n) (clients h xs))) (joined_note (shown_name (c_name n) (butlast bs)))))
      (put_out (c_id n) (CLIENT_MEMBERS @ concat (map member_text (others (c_id n) (clients h xs)))) k))"
proof -
  let ?first = "c_id (hd (clients h xs))" and ?shown = "shown_name (c_name n) (butlast bs)"
  let ?j = "joined n bs" and ?os = "others (c_id n) (clients h xs)"
  have bs: "2 \<le> length bs" "length bs \<le> 32" "list_all isalnum (butlast bs)" "length bs < 2 ^ 31"
    using assms(8) by (simp_all add: name_verdict_None)
  have lens: "\<forall>nd \<in> set (clients h xs). length (c_name nd) = 33" and len: "length (c_name n) = 33"
    using assms(2,3,7) by (auto simp: clients_def name_wf_def)
  note place = put_client [OF assms(1,2,3) joined_fields(5) [of n bs]]
  have wf: "\<forall>nd \<in> set (clients (h_put a (?j q') h) xs). name_wf nd" for q'
    using joined_wf [OF assms(8) len] assms(7) by (auto simp: clients_def)
  obtain req where valid: "client_validate_username h (Some a) junk = Inr (True, req, h_put a (?j (flushed q)) h)"
    using validate_ok [OF assms(1,2) lens assms(3-6) bs(4) refl, of junk] assms(8)
    by (auto simp: returns_iff joined_def)
  have fq: "q_inv (flushed q)" "q_bytes (flushed q) = []" "q_all no_percent (flushed q)"
    using assms(5,11) by (simp_all add: q_all_def)
  have mem: "h_mem (h_put a (?j q') h) a = Some (?j q')" for q' by simp
  have id: "c_id (?j q') \<noteq> 0" "k_tx k (c_id (?j q')) = []" for q' using assms(13,15) by simp_all
  obtain q1 where coll: "client_collect_list_of_names_other_names al (h_put a (?j (flushed q)) h) (Some a)
      = Inr (h_put a (?j q1) h)"
    and q1: "q_inv q1" "q_all no_percent q1" "laid al (flushed q) q1" "q_bytes q1 = CLIENT_MEMBERS @ concat (map member_text ?os)"
    and pop: "queue_pop_no_copy q1 = (int (length (q_bytes q1)), Some (q_data q1), flushed q1)"
    and send: "sendall (c_id n) (q_data q1) (int_of_size (of_int (int (length (q_bytes q1))))) k
      = Inr (0, int (length (q_bytes q1)), put_out (c_id n) (q_bytes q1) k)"
    by (rule join_members_ok [OF place(1) assms(2) mem joined_fields(2) fq(1,2) assms(9,10) fq(3) wf id assms(16)])
      (simp add: place(3))
  define k1 where "k1 = put_out (c_id n) (q_bytes q1) k"
  have "list_all no_percent (butlast bs)" using bs(3) isalnum_chars by (auto simp: list_all_iff)
  then have chars: "list_all no_percent ?shown" "length ?shown \<le> 33"
    using assms(12) bs by (auto simp: shown_name_def)
  define ann where "ann = joined_note ?shown"
  have note_rule: "rbind (sprintf_buf 128 ann) (\<lambda>buf.
      rbind (client_broadcast_message_from (h_put a (?j (flushed q1)) h) (Some a) buf (of_nat (length ann)) k1) f)
    = f (put_out ?first (concat (replicate (length ?os) ann)) k1)" for f
    using note_broadcast [OF place(1) [of "flushed q1"] assms(2), of k1 ann f] chars note_chars [OF chars(1)]
      note_lengths(2) [of ?shown] assms(14,15)
    by (simp add: place(2,3) k1_def ann_def) (simp add: joined_note_def)
  have run: "client_handle_newclient al junk h (Some a) k
    = Inr (1, h_put a (?j (flushed q1)) h, put_out ?first (concat (replicate (length ?os) ann)) k1)"
    unfolding client_handle_newclient_def valid rbind_Inr prod.case deref_simps(2) [OF mem] coll
      joined_fields option.case pop h_set_live [OF mem] h_put_twice send [folded k1_def] c_string_stored [OF bs(3)] Let_def
      ann_def [symmetric] note_rule
    by simp
  show ?thesis
    unfolding run using q1 by (auto simp: k1_def ann_def intro!: exI [of _ q1])
qed

section \<open>Talking\<close>

definition message_text :: "char list \<Rightarrow> char list \<Rightarrow> char list" where
  "message_text nm rest = ''['' @ nm @ ''] '' @ rest"

lemma message_ok:
  assumes "dll h xs" and "a \<in> set xs" and "h_mem h a = Some n" and "named n" and "c_recv_qu n = Some q" and "q_inv q"
    and "2 \<le> length (q_bytes q)" and "length (q_bytes q) \<le> 1025" and "c_string (c_name n) = Inr nm"
    and "c_string (q_data q) = Inr rest" and "length (message_text nm rest) \<le> 1056"
    and "list_all no_percent nm" and "list_all no_percent rest"
    and "first = c_id (hd (clients h xs))" and "first \<noteq> 0" and "k_tx k first = []"
  shows "client_handle_request al junk h (Some a) k = Inr (1, h_put a (n\<lparr>c_recv_qu := Some (flushed q)\<rparr>) h,
    put_out first (concat (replicate (length (others (c_id n) (clients h xs))) (message_text nm rest))) k)"
proof -
  let ?n = "n\<lparr>c_recv_qu := Some (flushed q)\<rparr>" and ?bs = "q_bytes q" and ?s = "message_text nm rest"
  have "same_place n ?n" by (simp add: same_place_def)
  note place = put_client [OF assms(1-3) this]
  have ne: "?bs \<noteq> []" "length ?bs < 2 ^ 31" using assms(7,8) by auto
  have pop: "queue_pop_no_copy q = (int (length ?bs), Some (q_data q), flushed q)"
    using pop_flushed [OF assms(6) ne(2)] ne(1) by simp
  define sz where "sz = (of_int (int (length ?bs)) :: size_t) - 1"
  have "unat sz = length ?bs - 1" unfolding sz_def using ne by (rule popped_size)
  then have sz: "\<not> sz = 0" "\<not> unat sz > CLIENT_MAX_MESSAGE_SIZE"
    using assms(7,8) by (auto simp: CLIENT_MAX_MESSAGE_SIZE_def)
  define buf where "buf = snprintf_buf CLIENT_MAX_COMPOSED_MESSAGE_SIZE ?s"
  have "length ?s + 2 \<le> length buf \<and> take (length ?s + 1) buf = ?s @ [NUL]"
    unfolding buf_def
    by (rule snprintf_buf_text)
      (use assms(11) in \<open>simp add: CLIENT_MAX_COMPOSED_MESSAGE_SIZE_def CLIENT_MAX_MESSAGE_SIZE_def CLIENT_MAX_NAME_def\<close>)
  moreover have "list_all no_percent ?s" "?s \<noteq> []"
    using assms(12,13) by (simp_all add: message_text_def no_percent_def)
  ultimately have "sends first buf (of_nat (length ?s)) ?s"
    using assms(11,15) by (intro sends_text) simp_all
  then have cast: "client_broadcast_message_from (h_put a ?n h) (Some a) buf (of_nat (length ?s)) k
    = Inr (put_out first (concat (replicate (length (others (c_id n) (clients h xs))) ?s)) k)"
    using broadcast_ok [OF place(1) assms(2), of buf "of_nat (length ?s)" ?s k] assms(14,16) place(2,3) by simp
  show ?thesis
    using assms(4) cast
    unfolding client_handle_request_def deref_simps(2) [OF assms(3)] rbind_Inr assms(5) option.case pop prod.case
      Let_def h_set_live [OF assms(3)] sz_def [symmetric] if_not_P [OF sz(1)] if_not_P [OF sz(2)] assms(9,10)
      message_text_def [symmetric] buf_def [symmetric]
    by simp
qed

section \<open>Properties\<close>

text \<open>Three clients: two with names, and one that has sent its name.\<close>

definition chat_queue :: "char list \<Rightarrow> char list \<Rightarrow> queue" where
  "chat_queue bs stale = \<lparr>q_data = bs @ stale, q_capacity = of_nat (length (bs @ stale)),
     q_size = of_nat (length bs), q_free = of_nat (length stale), q_head = length bs\<rparr>"

definition chat_client :: "ptr \<Rightarrow> ptr \<Rightarrow> int \<Rightarrow> char list \<Rightarrow> queue \<Rightarrow> client" where
  "chat_client prev nxt i nm q = \<lparr>n_next = nxt, n_prev = prev, c_id = i, c_name = nm @ replicate (33 - length nm) NUL,
     c_name_size = of_nat (length nm), c_recv_qu = Some q\<rparr>"

definition ann_queue :: queue where "ann_queue = chat_queue ''hi.'' (''room'' @ [NUL, NUL])"

definition cat_queue :: queue where "cat_queue = chat_queue ''cat.'' [NUL, NUL, NUL, NUL]"

definition chat_heap :: "client heap" where
  "chat_heap = \<lparr>h_mem = [3 \<mapsto> chat_client None (Some 4) 7 ''ann'' ann_queue,
     4 \<mapsto> chat_client (Some 3) (Some 5) 8 ''bob'' ann_queue, 5 \<mapsto> chat_client (Some 4) None 9 [] cat_queue], h_brk = 6\<rparr>"

lemma ann_queue_inv: "q_inv ann_queue" "q_bytes ann_queue = ''hi.''" "q_all no_percent ann_queue"
  by (simp_all add: ann_queue_def chat_queue_def q_inv_def q_bytes_def q_all_def no_percent_def NUL_def)

lemma cat_queue_inv: "q_inv cat_queue" "q_bytes cat_queue = ''cat.''" "q_all no_percent cat_queue"
  by (simp_all add: cat_queue_def chat_queue_def q_inv_def q_bytes_def q_all_def no_percent_def NUL_def)

lemma chat_heap_dll: "dll chat_heap [3, 4, 5]"
  by (simp add: dll_def chat_heap_def chat_client_def)

lemma chat_heap_mem:
  "h_mem chat_heap 3 = Some (chat_client None (Some 4) 7 ''ann'' ann_queue)"
  "h_mem chat_heap 4 = Some (chat_client (Some 3) (Some 5) 8 ''bob'' ann_queue)"
  "h_mem chat_heap 5 = Some (chat_client (Some 4) None 9 [] cat_queue)"
  by (simp_all add: chat_heap_def)

lemma chat_heap_clients: "clients chat_heap [3, 4, 5] = [chat_client None (Some 4) 7 ''ann'' ann_queue,
    chat_client (Some 3) (Some 5) 8 ''bob'' ann_queue, chat_client (Some 4) None 9 [] cat_queue]"
  by (simp add: clients_def chat_heap_mem)

lemma chat_named: "named (chat_client p q i nm qu) \<longleftrightarrow> nm \<noteq> [] \<and> hd nm \<noteq> NUL"
  by (cases nm) (simp_all add: named_def chat_client_def numeral_eq_Suc)

lemma chat_client_fields [simp]:
  "c_id (chat_client p q i nm qu) = i" "c_recv_qu (chat_client p q i nm qu) = Some qu"
  by (simp_all add: chat_client_def)

text \<open>C22: both broadcasts go to the first client of the list instead: a message to all others arrives there as many times as there
  are others with a name, a message to all once for each client with a name, and nobody else is sent anything.\<close>

theorem broadcasts_reach_first_only:
  assumes "dll h xs" and "a \<in> set xs" and "first = c_id (hd (clients h xs))" and "first \<noteq> 0" and "k_tx k first = []"
    and "s \<noteq> []" and "length s < 2 ^ 31" and "list_all no_percent s" and "msg = s @ NUL # x # rest"
  shows "returns (client_broadcast_message_from h (Some a) msg (of_nat (length s)) k)
    (\<lambda>k'. k' = put_out first (concat (replicate (length (others (c_id (the (h_mem h a))) (clients h xs))) s)) k) \<and>
   returns (client_broadcast_message_to_all h (Some a) msg (of_nat (length s)) k)
    (\<lambda>k'. k' = put_out first (concat (replicate (length (filter named (clients h xs))) s)) k)"
proof -
  have "sends first msg (of_nat (length s)) s"
    unfolding assms(9) using assms(4,6,7,8) by (intro sends_text) simp_all
  then show ?thesis
    using broadcast_ok [OF assms(1,2), of msg "of_nat (length s)" s k] assms(3,5)
      broadcast_all_loop [of first msg "of_nat (length s)" s k "c_id (the (h_mem h a))" "clients h xs"]
    by (simp add: client_broadcast_message_to_all_def for_each_client_dll [OF assms(1,2)])
qed

theorem broadcasts_reach_first_only_witness:
  "returns (client_broadcast_message_from chat_heap (Some 4) (''hello'' @ NUL # NUL # []) (of_nat (length ''hello'')) quiet_kernel)
    (\<lambda>k'. k_out k' 7 = ''hello'' \<and> k_out k' 8 = []) \<and>
   returns (client_broadcast_message_to_all chat_heap (Some 4) (''hello'' @ NUL # NUL # []) (of_nat (length ''hello'')) quiet_kernel)
    (\<lambda>k'. k_out k' 7 = ''hellohello'' \<and> k_out k' 8 = [])"
proof -
  let ?msg = "''hello'' @ NUL # NUL # []"
  have "returns (client_broadcast_message_from chat_heap (Some 4) ?msg (of_nat (length ''hello'')) quiet_kernel)
    (\<lambda>k'. k' = put_out 7 (concat (replicate (length (others (c_id (the (h_mem chat_heap 4))) (clients chat_heap [3, 4, 5]))) ''hello'')) quiet_kernel) \<and>
   returns (client_broadcast_message_to_all chat_heap (Some 4) ?msg (of_nat (length ''hello'')) quiet_kernel)
    (\<lambda>k'. k' = put_out 7 (concat (replicate (length (filter named (clients chat_heap [3, 4, 5]))) ''hello'')) quiet_kernel)"
    by (rule broadcasts_reach_first_only [OF chat_heap_dll _ _ _ _ _ _ _ refl])
      (simp_all add: chat_heap_clients quiet_kernel_def no_percent_def)
  then show ?thesis
    by (elim conjE, intro conjI; elim returns_mono)
      (simp_all add: chat_heap_clients chat_heap_mem others_def chat_named quiet_kernel_def NUL_def)
qed

text \<open>C16: choosing a name: a line is accepted exactly if it is 1 to 31 alphanumeric characters (and one more byte) of
  which no other client's name is an extension; the stored name is then shown as chosen, up to one stray byte. Otherwise the
  client gets the matching reason and keeps its name. The names of the list stay well-formed, nobody else changes.\<close>

theorem validate_username_decides:
  assumes "dll h xs" and "a \<in> set xs" and "\<forall>nd \<in> set (clients h xs). name_wf nd"
    and "h_mem h a = Some n" and "c_recv_qu n = Some q" and "q_inv q" and "length (q_bytes q) < 2 ^ 31"
  shows "returns (client_validate_username h (Some a) req) (\<lambda>(valid, req', h').
    dll h' xs \<and> (\<forall>nd \<in> set (clients h' xs). name_wf nd) \<and> (\<forall>b. b \<noteq> a \<longrightarrow> h_mem h' b = h_mem h b) \<and>
    (case name_verdict (other_names (c_id n) (people (clients h xs))) (q_bytes q) of
       None \<Rightarrow> valid \<and> c_string (c_name (the (h_mem h' a))) = Inr (shown_name (c_name n) (butlast (q_bytes q)))
     | Some msg \<Rightarrow> \<not> valid \<and> nr_response req' = msg \<and> c_name (the (h_mem h' a)) = c_name n))"
proof -
  let ?bs = "q_bytes q"
  define v where "v = name_verdict (other_names (c_id n) (people (clients h xs))) ?bs"
  define n' where "n' = (if v = None
      then n\<lparr>c_recv_qu := Some (flushed q), c_name := stored_name (c_name n) (butlast ?bs),
             c_name_size := of_nat (length ?bs - 1)\<rparr>
      else n\<lparr>c_recv_qu := Some (flushed q)\<rparr>)"
  have "\<forall>nd \<in> set (clients h xs). length (c_name nd) = 33" using assms(3) by (simp add: name_wf_def)
  from validate_ok [OF assms(1,2) this assms(4-6) refl assms(7) v_def, of req]
  have run: "returns (client_validate_username h (Some a) req) (\<lambda>(valid, req', h').
    valid = (v = None) \<and> (\<forall>msg. v = Some msg \<longrightarrow> nr_response req' = msg) \<and> h' = h_put a n' h)"
    by (simp only: n'_def)
  have n: "name_wf n" using assms(2-4) by (auto simp: clients_def)
  have "same_place n n'" by (simp add: n'_def same_place_def)
  note place = put_client [OF assms(1,2,4) this]
  have wf: "name_wf n'"
  proof (cases v)
    case None
    then have "2 \<le> length ?bs" "length ?bs \<le> 32" "list_all isalnum (butlast ?bs)"
      by (simp_all add: v_def name_verdict_None)
    then show ?thesis
      using name_wf_stored [of "butlast ?bs" "c_name n" "Some (flushed q)" n] n None
      by (simp add: n'_def) (simp add: name_wf_def)
  next
    case (Some msg)
    then show ?thesis using n by (simp add: n'_def name_wf_def named_def)
  qed
  have shown: "c_string (c_name n') = Inr (shown_name (c_name n) (butlast ?bs))" if "v = None"
    using that by (simp add: n'_def c_string_stored name_verdict_None v_def)
  have kept: "c_name n' = c_name n" if "v = Some msg" for msg using that by (simp add: n'_def)
  have all: "\<forall>nd \<in> set (clients (h_put a n' h) xs). name_wf nd"
    using wf assms(3) by (auto simp: clients_def)
  show ?thesis
    unfolding v_def [symmetric]
    by (rule returns_mono [OF run]) (use place(1) all shown kept in \<open>auto split: option.split\<close>)
qed

lemma chat_heap_wf: "\<forall>nd \<in> set (clients chat_heap [3, 4, 5]). name_wf nd"
  by (simp add: chat_heap_clients name_wf_def chat_named)
    (simp add: chat_client_def Let_def isalnum_def)

lemma cat_verdict:
  "name_verdict (other_names 9 (people (clients chat_heap [3, 4, 5]))) ''cat.'' = None"
  by (simp add: chat_heap_clients name_verdict_None people_def other_names_def)
    (simp add: chat_client_def isalnum_def NUL_def)

theorem validate_username_decides_witness:
  "returns (client_validate_username chat_heap (Some 5) \<lparr>nr_name = None, nr_size = 0, nr_valid = True, nr_response = []\<rparr>)
    (\<lambda>(valid, req', h'). valid \<and> c_string (c_name (the (h_mem h' 5))) = Inr ''cat'')"
proof -
  let ?n = "chat_client (Some 4) None 9 [] cat_queue"
  let ?req = "\<lparr>nr_name = None, nr_size = 0, nr_valid = True, nr_response = []\<rparr>"
  have "returns (client_validate_username chat_heap (Some 5) ?req) (\<lambda>(valid, req', h').
    dll h' [3, 4, 5] \<and> (\<forall>nd \<in> set (clients h' [3, 4, 5]). name_wf nd) \<and> (\<forall>b. b \<noteq> 5 \<longrightarrow> h_mem h' b = h_mem chat_heap b) \<and>
    (case name_verdict (other_names (c_id ?n) (people (clients chat_heap [3, 4, 5]))) (q_bytes cat_queue) of
       None \<Rightarrow> valid \<and> c_string (c_name (the (h_mem h' 5))) = Inr (shown_name (c_name ?n) (butlast (q_bytes cat_queue)))
     | Some msg \<Rightarrow> \<not> valid \<and> nr_response req' = msg \<and> c_name (the (h_mem h' 5)) = c_name ?n))"
    by (rule validate_username_decides [OF chat_heap_dll _ chat_heap_wf])
      (simp_all add: chat_heap_mem cat_queue_inv)
  moreover have "shown_name (c_name ?n) ''cat'' = ''cat''"
    by (simp add: shown_name_def chat_client_def)
  ultimately show ?thesis
    by (elim returns_mono) (auto simp: cat_verdict cat_queue_inv)
qed

text \<open>C12: a client that chooses an acceptable name is sent the room's other names, each with a separator before it, the
  first one too; the note about it goes to the first client only, once for each of the others; and its queue is empty
  again and its name stored.\<close>

theorem join_announces:
  assumes "dll h xs" and "a \<in> set xs" and "h_mem h a = Some n" and "c_recv_qu n = Some q" and "q_inv q"
    and "q_bytes q = bs" and "\<forall>nd \<in> set (clients h xs). name_wf nd"
    and "name_verdict (other_names (c_id n) (people (clients h xs))) bs = None"
    and "alloc_ok al" and "fresh_all no_percent al" and "q_all no_percent q" and "no_percent (c_name n ! (length bs - 1))"
    and "c_id n \<noteq> 0" and "c_id (hd (clients h xs)) \<noteq> 0" and "k_tx k = (\<lambda>_. [])" and "33 * length xs + 21 < 2 ^ 31"
  shows "returns (client_handle_newclient al junk h (Some a) k) (\<lambda>(r, h', k'). r = 1 \<and>
    (\<exists>q'. q_inv q' \<and> q_bytes q' = [] \<and>
       h' = h_put a (n\<lparr>c_recv_qu := Some q', c_name := stored_name (c_name n) (butlast bs),
                      c_name_size := of_nat (length bs - 1)\<rparr>) h) \<and>
    k' = put_out (c_id (hd (clients h xs)))
        (concat (replicate (length (others (c_id n) (clients h xs))) (joined_note (shown_name (c_name n) (butlast bs)))))
      (put_out (c_id n) (CLIENT_MEMBERS @ concat (map member_text (others (c_id n) (clients h xs)))) k))"
proof -
  obtain q1 h' k' where run: "client_handle_newclient al junk h (Some a) k = Inr (1, h', k')" and "q_inv q1"
    and h': "h' = h_put a (joined n bs (flushed q1)) h"
    and k': "k' = put_out (c_id (hd (clients h xs)))
        (concat (replicate (length (others (c_id n) (clients h xs))) (joined_note (shown_name (c_name n) (butlast bs)))))
      (put_out (c_id n) (CLIENT_MEMBERS @ concat (map member_text (others (c_id n) (clients h xs)))) k)"
    using join_ok [OF assms, of junk] by (auto simp: returns_iff)
  then have "q_inv (flushed q1) \<and> q_bytes (flushed q1) = []" by simp
  then show ?thesis unfolding run returns_iff h' k' joined_def by blast
qed

theorem join_announces_witness:
  "returns (client_handle_newclient zero_alloc \<lparr>nr_name = None, nr_size = 0, nr_valid = True, nr_response = []\<rparr>
      chat_heap (Some 5) quiet_kernel)
    (\<lambda>(r, h', k'). r = 1 \<and> k_out k' 9 = ''* The room contains: , ann, bob'' \<and>
       k_out k' 7 = joined_note ''cat'' @ joined_note ''cat'' \<and> k_out k' 8 = [])"
proof -
  let ?n = "chat_client (Some 4) None 9 [] cat_queue"
  let ?req = "\<lparr>nr_name = None, nr_size = 0, nr_valid = True, nr_response = []\<rparr>"
  define os where "os = others (c_id ?n) (clients chat_heap [3, 4, 5])"
  have fresh: "fresh_all no_percent zero_alloc"
    by (simp add: fresh_all_def zero_alloc_def no_percent_def NUL_def)
  have os: "os = [chat_client None (Some 4) 7 ''ann'' ann_queue, chat_client (Some 3) (Some 5) 8 ''bob'' ann_queue]"
    by (simp add: os_def chat_heap_clients others_def chat_named NUL_def)
  have "returns (client_handle_newclient zero_alloc ?req chat_heap (Some 5) quiet_kernel) (\<lambda>(r, h', k'). r = 1 \<and>
    (\<exists>q'. q_inv q' \<and> q_bytes q' = [] \<and>
       h' = h_put 5 (?n\<lparr>c_recv_qu := Some q', c_name := stored_name (c_name ?n) (butlast ''cat.''),
                      c_name_size := of_nat (length ''cat.'' - 1)\<rparr>) chat_heap) \<and>
    k' = put_out (c_id (hd (clients chat_heap [3, 4, 5])))
        (concat (replicate (length (others (c_id ?n) (clients chat_heap [3, 4, 5])))
          (joined_note (shown_name (c_name ?n) (butlast ''cat.'')))))
      (put_out (c_id ?n) (CLIENT_MEMBERS @ concat (map member_text (others (c_id ?n) (clients chat_heap [3, 4, 5])))) quiet_kernel))"
  proof (rule join_announces [OF chat_heap_dll _ _ _ cat_queue_inv(1,2) chat_heap_wf _ zero_alloc_ok fresh cat_queue_inv(3)])
    show "name_verdict (other_names (c_id ?n) (people (clients chat_heap [3, 4, 5]))) ''cat.'' = None"
      by (simp add: cat_verdict)
    show "no_percent (c_name ?n ! (length ''cat.'' - 1))"
      by (simp add: chat_client_def no_percent_def NUL_def)
  qed (simp_all add: chat_heap_mem chat_heap_clients quiet_kernel_def)
  moreover have "shown_name (c_name ?n) ''cat'' = ''cat''"
    by (simp add: shown_name_def chat_client_def)
  moreover have "concat (map member_text os) = '', ann, bob''"
    by (simp add: os member_text_def chat_client_def)
  ultimately show ?thesis
    unfolding os_def [symmetric]
    by (elim returns_mono) (auto simp: os chat_heap_clients quiet_kernel_def CLIENT_MEMBERS_def)
qed

text \<open>C21: what a message becomes: not the message but the whole buffer of the queue up to the first NUL is sent, with the
  name before it, so that bytes of earlier contents follow the message; it goes to the first client only, once for each
  other client with a name.\<close>

theorem message_sends_buffer:
  assumes "dll h xs" and "a \<in> set xs" and "h_mem h a = Some n" and "named n" and "c_recv_qu n = Some q" and "q_inv q"
    and "2 \<le> length (q_bytes q)" and "length (q_bytes q) \<le> 1025" and "c_string (c_name n) = Inr nm"
    and "q_data q = q_bytes q @ stale @ NUL # after" and "NUL \<notin> set (q_bytes q @ stale)"
    and "length nm + length (q_bytes q @ stale) \<le> 1053"
    and "list_all no_percent nm" and "list_all no_percent (q_bytes q @ stale)"
    and "first = c_id (hd (clients h xs))" and "first \<noteq> 0" and "k_tx k first = []"
  shows "client_handle_request al junk h (Some a) k = Inr (1, h_put a (n\<lparr>c_recv_qu := Some (flushed q)\<rparr>) h,
    put_out first (concat (replicate (length (others (c_id n) (clients h xs)))
      (''['' @ nm @ ''] '' @ q_bytes q @ stale))) k)"
proof -
  have "\<forall>ch \<in> set (q_bytes q @ stale). ch \<noteq> NUL" using assms(11) by auto
  then have "takeWhile (\<lambda>ch. ch \<noteq> NUL) ((q_bytes q @ stale) @ NUL # after) = q_bytes q @ stale"
    by (subst takeWhile_append2) auto
  then have "c_string (q_data q) = Inr (q_bytes q @ stale)"
    unfolding assms(10) by (simp add: c_string_def)
  from message_ok [OF assms(1-9) this _ assms(13,14,15,16,17)] show ?thesis
    using assms(12) by (simp add: message_text_def)
qed

theorem message_sends_buffer_witness:
  "\<exists>h'. client_handle_request zero_alloc \<lparr>nr_name = None, nr_size = 0, nr_valid = True, nr_response = []\<rparr>
      chat_heap (Some 4) quiet_kernel = Inr (1, h', put_out 7 ''[bob] hi.room'' quiet_kernel)"
proof -
  let ?n = "chat_client (Some 3) (Some 5) 8 ''bob'' ann_queue"
  have "client_handle_request zero_alloc \<lparr>nr_name = None, nr_size = 0, nr_valid = True, nr_response = []\<rparr>
      chat_heap (Some 4) quiet_kernel = Inr (1, h_put 4 (?n\<lparr>c_recv_qu := Some (flushed ann_queue)\<rparr>) chat_heap,
    put_out 7 (concat (replicate (length (others (c_id ?n) (clients chat_heap [3, 4, 5])))
      (''['' @ ''bob'' @ ''] '' @ q_bytes ann_queue @ ''room''))) quiet_kernel)"
  proof (rule message_sends_buffer [OF chat_heap_dll])
    show "c_string (c_name ?n) = Inr ''bob''" by (simp add: chat_client_def c_string_def NUL_def)
    show "q_data ann_queue = q_bytes ann_queue @ ''room'' @ NUL # [NUL]"
      unfolding ann_queue_inv(2) by (simp add: ann_queue_def chat_queue_def)
  qed (simp_all add: chat_heap_mem chat_heap_clients chat_named ann_queue_inv quiet_kernel_def no_percent_def NUL_def)
  then show ?thesis
    by (simp add: chat_heap_clients others_def chat_named ann_queue_inv NUL_def)
qed

end
