(* ===== verification/Echo.thy ===== *)
theory Echo
  imports Server
begin

text \<open>
  The echo server \<open>smoke-test/main.c\<close>: one queue shared by all connections, drained into the
  socket it was filled from within one event. \<open>echo_event\<close> is the body of the loop over the
  events, \<open>echo_wait\<close> one round of the outer loop, \<open>echo_main\<close> the program run over any finite
  sequence of answers of \<open>epoll_wait\<close>.
\<close>

record echo_state =
  e_qu :: queue
  e_k :: kernel

text \<open>
  The data pointer is \<open>None\<close> where \<open>queue_pop_no_copy\<close> does not set it. A failed \<open>sendall\<close> skips the
  rest of the event, also the closing of a connection that is at its end.
\<close>

definition echo_event :: "allocator \<Rightarrow> int \<Rightarrow> int \<Rightarrow> echo_state \<Rightarrow> int \<Rightarrow> echo_state res" where
  "echo_event al epollfd listen_fd s fd =
     (if fd = listen_fd
      then rbind (fd_accept_and_epoll_add (epci epollfd fd) (e_k s)) (\<lambda>(_, k). Inr (s\<lparr>e_k := k\<rparr>))
      else rbind (recv_request al fd (e_qu s) (e_k s)) (\<lambda>(r, qu, k).
        case queue_pop_no_copy qu of (sz, data, qu) \<Rightarrow>
          if r < -1 then rbind (drop_connection epollfd fd k) (\<lambda>k. Inr \<lparr>e_qu = qu, e_k = k\<rparr>)
          else if sz > 0 then
            (case data of
               None \<Rightarrow> Inl Uninitialised
             | Some mem \<Rightarrow> rbind (sendall fd mem sz k) (\<lambda>(ret, _, k).
                 if ret \<noteq> 0 then Inr \<lparr>e_qu = qu, e_k = k\<rparr>
                 else if r = -1 then Inr \<lparr>e_qu = qu, e_k = k\<rparr>
                 else rbind (drop_connection epollfd fd k) (\<lambda>k. Inr \<lparr>e_qu = qu, e_k = k\<rparr>)))
          else if r = -1 then Inr \<lparr>e_qu = qu, e_k = k\<rparr>
          else rbind (drop_connection epollfd fd k) (\<lambda>k. Inr \<lparr>e_qu = qu, e_k = k\<rparr>)))"

definition echo_wait :: "allocator \<Rightarrow> int \<Rightarrow> int \<Rightarrow> echo_state \<Rightarrow> wait \<Rightarrow> echo_state res" where
  "echo_wait al epollfd listen_fd s w =
     (case w of
        Wait_error \<Rightarrow> Inl Exit_failure
      | Timeout \<Rightarrow> Inr s
      | Events fds \<Rightarrow> run_res (echo_event al epollfd listen_fd) s fds)"

definition echo_main ::
  "allocator \<Rightarrow> server_env \<Rightarrow> logger \<Rightarrow> kernel \<Rightarrow> wait list \<Rightarrow> echo_state res" where
  "echo_main al env L k waits =
     rbind (server_start env L k) (\<lambda>(listen_fd, L, k).
     rbind (queue_init al None 65536) (\<lambda>qu. case qu of
         None \<Rightarrow> Inl Null_deref
       | Some q \<Rightarrow>
           run_res (echo_wait al (env_epollfd env) listen_fd) \<lparr>e_qu = q, e_k = k\<rparr> waits))"

section \<open>One event\<close>

text \<open>
  Between events the shared queue is empty: nothing of one client is left for the next. The
  theorems are for connections whose sends the kernel accepts whole and traffic without
  percent signs, which \<open>sendall\<close> passes to its trace as a format string.
\<close>

definition echo_inv :: "allocator \<Rightarrow> echo_state \<Rightarrow> bool" where
  "echo_inv al s \<longleftrightarrow> q_inv (e_qu s) \<and> q_bytes (e_qu s) = [] \<and> q_all no_percent (e_qu s) \<and>
     alloc_ok al \<and> fresh_all no_percent al \<and> k_ctl_fails (e_k s) = [] \<and>
     k_tx (e_k s) = (\<lambda>_. [])"

text \<open>What the peers see of the server: the bytes sent, still to come, and the open connections.\<close>

type_synonym echo_view = "(int \<Rightarrow> char list) \<times> (int \<Rightarrow> rx list) \<times> int set \<times> int list"

definition echo_view :: "echo_state \<Rightarrow> echo_view" where
  "echo_view s = (k_out (e_k s), k_rx (e_k s), registered (e_k s), k_accept (e_k s))"

text \<open>
  An event on the listening socket means a connection is waiting to be accepted, any other
  event is on an open connection, with less than 2 GiB to be read.
\<close>

definition echo_ok :: "int \<Rightarrow> echo_view \<Rightarrow> int \<Rightarrow> bool" where
  "echo_ok listen_fd v fd =
     (case v of (out, rx, conns, acc) \<Rightarrow>
        if fd = listen_fd then acc \<noteq> [] \<and> hd acc \<noteq> -1 \<and> hd acc \<notin> conns
        else 0 < fd \<and> fd \<in> conns \<and> length (drained (rx fd)) < 2 ^ 31 \<and>
          list_all no_percent (drained (rx fd)))"

text \<open>
  The echo service: an event on a connection sends back what has arrived, and closes the
  connection at the end of its stream or on an error, after which nothing is sent.
\<close>

definition echo_service :: "int \<Rightarrow> echo_view \<Rightarrow> int \<Rightarrow> echo_view" where
  "echo_service listen_fd v fd =
     (case v of (out, rx, conns, acc) \<Rightarrow>
        if fd = listen_fd then (out, rx, insert (hd acc) conns, tl acc)
        else (if stop_code (rx fd) < -1 then out else out(fd := out fd @ drained (rx fd)),
              rx(fd := remaining (rx fd)),
              if stop_code (rx fd) = -1 then conns else conns - {fd}, acc))"

lemma echo_event_accepts:
  assumes "echo_inv al s" and "echo_ok listen_fd (echo_view s) listen_fd"
  shows "returns (echo_event al e listen_fd s listen_fd)
    (\<lambda>s'. echo_inv al s' \<and> echo_view s' = echo_service listen_fd (echo_view s) listen_fd)"
proof -
  from assms(2) obtain fd fds where acc: "k_accept (e_k s) = fd # fds" "fd \<noteq> -1" "fd \<notin> registered (e_k s)"
    by (cases "k_accept (e_k s)") (auto simp: echo_ok_def echo_view_def)
  moreover have "k_ctl_fails (e_k s) = []"
    using assms(1) by (simp add: echo_inv_def)
  ultimately obtain k' where k': "fd_accept_and_epoll_add (epci e listen_fd) (e_k s) = Inr (fd, k')"
    and post: "registered k' = insert fd (registered (e_k s))" "k_accept k' = fds"
      "k_out k' = k_out (e_k s)" "k_rx k' = k_rx (e_k s)" "k_ctl_fails k' = []" "k_tx k' = k_tx (e_k s)"
    using accept_and_add_ok [of "e_k s" fd fds "epci e listen_fd"] by (auto simp: returns_iff)
  then show ?thesis
    using assms(1) acc
    by (simp add: echo_event_def echo_inv_def echo_view_def echo_service_def)
qed

lemma echo_event_hears:
  assumes "echo_inv al s" and "echo_ok listen_fd (echo_view s) fd" and "fd \<noteq> listen_fd"
  defines "bs \<equiv> drained (k_rx (e_k s) fd)" and "k1 \<equiv> set_rx fd (remaining (k_rx (e_k s) fd)) (e_k s)"
  obtains qu qu' where "recv_request al fd (e_qu s) (e_k s) = Inr (stop_code (k_rx (e_k s) fd), qu, k1)"
    and "queue_pop_no_copy qu = (int (length bs), if bs = [] then None else Some (q_data qu), qu')"
    and "bs \<noteq> [] \<longrightarrow> sendall fd (q_data qu) (int (length bs)) k1 = Inr (0, int (length bs), put_out fd bs k1)"
    and "q_inv qu'" and "q_bytes qu' = []" and "q_all no_percent qu'"
proof -
  have inv: "q_inv (e_qu s)" "q_bytes (e_qu s) = []" "q_all no_percent (e_qu s)" "alloc_ok al"
    "fresh_all no_percent al" "k_tx (e_k s) = (\<lambda>_. [])"
    using assms(1) by (simp_all add: echo_inv_def)
  have ok: "0 < fd" "length bs < 2 ^ 31" "\<forall>c \<in> set bs. no_percent c"
    using assms(2,3) by (simp_all add: echo_ok_def echo_view_def list_all_iff bs_def)
  obtain qu where recv: "recv_request al fd (e_qu s) (e_k s) = Inr (stop_code (k_rx (e_k s) fd), qu, k1)"
    and qu: "q_inv qu" "q_all no_percent qu" "q_bytes qu = bs"
    using recv_loop_drains [OF inv(1,4) _ inv(5,3) ok(3) [unfolded bs_def]] inv(2) ok(1,2)
    by (auto simp: returns_iff recv_request_def k1_def bs_def)
  obtain qu' where pop: "queue_pop_no_copy qu = (int (length bs), if bs = [] then None else Some (q_data qu), qu')"
    and qu': "q_inv qu'" "q_bytes qu' = []" "q_all no_percent qu'"
    using queue_pop_whole [OF qu(1,3) ok(2), of no_percent] qu(2) by metis
  have "bs \<noteq> [] \<longrightarrow> sendall fd (q_data qu) (int (length bs)) k1 = Inr (0, int (length bs), put_out fd bs k1)"
    using sendall_queue [of qu fd k1] qu ok(1) inv(6) by (simp add: k1_def)
  with recv pop qu' show ?thesis by (intro that)
qed

lemma echo_event_echoes:
  assumes "echo_inv al s" and "echo_ok listen_fd (echo_view s) fd" and "fd \<noteq> listen_fd"
  shows "returns (echo_event al e listen_fd s fd)
    (\<lambda>s'. echo_inv al s' \<and> echo_view s' = echo_service listen_fd (echo_view s) fd)"
proof -
  let ?rx = "k_rx (e_k s) fd"
  define k1 where "k1 = set_rx fd (remaining ?rx) (e_k s)"
  obtain qu qu' where recv: "recv_request al fd (e_qu s) (e_k s) = Inr (stop_code ?rx, qu, k1)"
    and pop: "queue_pop_no_copy qu = (int (length (drained ?rx)), if drained ?rx = [] then None else Some (q_data qu), qu')"
    and send: "drained ?rx \<noteq> [] \<longrightarrow> sendall fd (q_data qu) (int (length (drained ?rx))) k1
      = Inr (0, int (length (drained ?rx)), put_out fd (drained ?rx) k1)"
    and qu': "q_inv qu'" "q_bytes qu' = []" "q_all no_percent qu'"
    using assms unfolding k1_def by (rule echo_event_hears)
  have "fd \<in> registered (e_k s)" "k_ctl_fails (e_k s) = []"
    using assms by (simp_all add: echo_ok_def echo_view_def echo_inv_def)
  then have drop: "returns (drop_connection e fd (put_out fd bs k1)) (\<lambda>k'. k_out k' = k_out (put_out fd bs k1) \<and>
      k_rx k' = k_rx k1 \<and> k_ctl_fails k' = [] \<and> k_tx k' = k_tx k1 \<and> registered k' = registered k1 - {fd} \<and>
      k_accept k' = k_accept k1)" for bs
    using drop_connection_ok [of fd "put_out fd bs k1" e] by (auto simp: k1_def elim!: returns_mono)
  consider (error) "stop_code ?rx = -2" | (eof) "stop_code ?rx = 0" | (wait) "stop_code ?rx = -1"
    using stop_code_cases [of ?rx] by auto
  then show ?thesis
    using drop [of "[]"] drop [of "drained ?rx"] assms(1,3) qu' send
    by cases (auto simp: echo_event_def recv pop returns_iff echo_inv_def echo_view_def echo_service_def k1_def)
qed

lemma echo_event_ok:
  assumes "echo_inv al s" and "echo_ok listen_fd (echo_view s) fd"
  shows "returns (echo_event al e listen_fd s fd)
    (\<lambda>s'. echo_inv al s' \<and> echo_view s' = echo_service listen_fd (echo_view s) fd)"
  using assms echo_event_accepts echo_event_echoes by (cases "fd = listen_fd") blast+

interpretation echo: stepper "echo_event al e listen_fd" "echo_inv al" echo_view
  "echo_ok listen_fd" "echo_service listen_fd" for al e listen_fd
  by unfold_locales (rule echo_event_ok)

text \<open>The outer loop over returns of \<open>epoll_wait\<close> without an error is the inner loop over all their events.\<close>

fun wait_events :: "wait list \<Rightarrow> int list" where
  "wait_events [] = []"
| "wait_events (Events fds # ws) = fds @ wait_events ws"
| "wait_events (w # ws) = wait_events ws"

lemma run_echo_wait:
  "Wait_error \<notin> set ws \<Longrightarrow>
   run_res (echo_wait al e lfd) s ws = run_res (echo_event al e lfd) s (wait_events ws)"
  by (induction ws arbitrary: s rule: wait_events.induct)
     (auto simp: echo_wait_def run_res_append)

section \<open>Properties\<close>

text \<open>C1: over any sequence of admissible events the echo server never faults and does exactly what the echo service
  does: each connection is sent back precisely the bytes it sent, in order, and is closed at its end
  or on an error; and the shared queue is empty again, so that nothing crosses between clients. An event is admissible when it
  is about the listening socket and a new connection waits there, or about an open connection that delivers less than \<open>2 ^ 31\<close> bytes
  with no percent sign among them (\<open>sendall\<close> hands the bytes to the logger as a format string: a conversion in them faults). Assumed of the
  environment: fresh memory and the spare bytes of the queue hold no percent sign, every send takes the whole message, epoll_ctl and the allocation
  of memory do not fail. Theory Hostile says what holds without any of this.\<close>

theorem echo_refines_service:
  assumes "echo_inv al s" and "run_ok (echo_ok listen_fd) (echo_service listen_fd) (echo_view s) fds"
  shows "returns (run_res (echo_event al e listen_fd) s fds)
    (\<lambda>s'. echo_inv al s' \<and> echo_view s' = foldl (echo_service listen_fd) (echo_view s) fds)"
  using assms by (rule echo.run_refines)

definition echo_sample :: echo_state where
  "echo_sample = \<lparr>e_qu = queue_reset small_queue,
     e_k = quiet_kernel\<lparr>k_accept := [7, 8],
       k_rx := (\<lambda>_. [])(7 := [RxData ''hel'', RxData ''lo'', RxErr 11, RxData ''!'', RxEof],
         8 := [RxData ''bye'', RxErr 104])\<rparr>\<rparr>"

lemma zero_alloc_fresh: "fresh_all no_percent zero_alloc"
  by (simp add: fresh_all_def zero_alloc_def no_percent_def NUL_def)

lemma echo_sample_inv: "echo_inv zero_alloc echo_sample"
  using queue_reset_ok [OF small_queue_inv]
  by (simp add: echo_inv_def echo_sample_def zero_alloc_ok zero_alloc_fresh quiet_kernel_def)
    (simp add: q_all_def small_queue_def no_percent_def)

theorem echo_refines_service_witness:
  "returns (run_res (echo_event zero_alloc 5 4) echo_sample [4, 4, 7, 8, 7])
    (\<lambda>s'. k_out (e_k s') 7 = ''hello!'' \<and> k_out (e_k s') 8 = [] \<and> registered (e_k s') = {} \<and>
       q_bytes (e_qu s') = [])"
proof -
  note echo_sample_inv
  moreover have "run_ok (echo_ok 4) (echo_service 4) (echo_view echo_sample) [4, 4, 7, 8, 7]"
    by (simp add: echo_ok_def echo_service_def echo_view_def echo_sample_def quiet_kernel_def
        registered_def EAGAIN_def EWOULDBLOCK_def no_percent_def)
  ultimately have "returns (run_res (echo_event zero_alloc 5 4) echo_sample [4, 4, 7, 8, 7])
    (\<lambda>s'. echo_inv zero_alloc s' \<and>
       echo_view s' = foldl (echo_service 4) (echo_view echo_sample) [4, 4, 7, 8, 7])"
    by (rule echo_refines_service)
  then show ?thesis
    by (rule returns_mono)
      (auto simp: echo_inv_def echo_service_def echo_view_def echo_sample_def quiet_kernel_def
        registered_def EAGAIN_def EWOULDBLOCK_def)
qed

text \<open>
  The service, read for one client: what is sent to it is what it sent before each stop that is
  not an error.
\<close>

fun replies :: "int \<Rightarrow> rx list \<Rightarrow> int list \<Rightarrow> char list" where
  "replies c rx [] = []"
| "replies c rx (fd # fds) =
     (if fd = c then (if stop_code rx < -1 then [] else drained rx) @ replies c (remaining rx) fds
      else replies c rx fds)"

lemma echo_service_out:
  "c \<noteq> lfd \<Longrightarrow> foldl (echo_service lfd) (out, rx, conns, acc) fds = (out', rx', conns', acc') \<Longrightarrow>
   out' c = out c @ replies c (rx c) fds"
proof (induction fds arbitrary: out rx conns acc)
  case (Cons fd fds)
  obtain o1 rx1 c1 a1 where step: "echo_service lfd (out, rx, conns, acc) fd = (o1, rx1, c1, a1)"
    by (metis prod_cases4)
  with Cons.prems have "out' c = o1 c @ replies c (rx1 c) fds"
    using Cons.IH [of o1 rx1 c1 a1] by simp
  with step Cons.prems(1) show ?case
    by (auto simp: echo_service_def split: if_splits)
qed simp

text \<open>No client's bytes ever reach another one: whatever the other connections do and in
  whatever order the events come, what the server sends on a connection is computed from
  the bytes received on it alone.\<close>

lemma echo_isolates_clients:
  assumes "echo_inv al s" and "run_ok (echo_ok listen_fd) (echo_service listen_fd) (echo_view s) fds"
    and "c \<noteq> listen_fd"
  shows "returns (run_res (echo_event al e listen_fd) s fds)
    (\<lambda>s'. k_out (e_k s') c = k_out (e_k s) c @ replies c (k_rx (e_k s) c) fds)"
  using echo.run_refines [OF assms(1,2), of e]
proof (rule returns_mono)
  fix s' assume "echo_inv al s' \<and> echo_view s' = foldl (echo_service listen_fd) (echo_view s) fds"
  then have "foldl (echo_service listen_fd) (k_out (e_k s), k_rx (e_k s), registered (e_k s), k_accept (e_k s)) fds
    = (k_out (e_k s'), k_rx (e_k s'), registered (e_k s'), k_accept (e_k s'))"
    by (simp add: echo_view_def)
  from echo_service_out [OF assms(3) this]
  show "k_out (e_k s') c = k_out (e_k s) c @ replies c (k_rx (e_k s) c) fds" .
qed

text \<open>C27: the whole program: once started, it serves the events of the returns of \<open>epoll_wait\<close>, time-outs among them, as the echo
  service does, as long as \<open>epoll_wait\<close> reports no error; at its first error it exits with a failure, whatever would come later.
  Assumed, as for the event loop alone: no percent sign in the bytes received or in fresh memory, whole sends, no failure of epoll_ctl or of the allocation,
  a connection waiting at an event of the listening socket, other events about open connections with less than \<open>2 ^ 31\<close> bytes.\<close>

theorem echo_main_serves:
  assumes "server_start env L k = Inr (lfd, L', k0)" and "alloc_ok al" and "fresh_all no_percent al"
    and "k_ctl_fails k0 = []" and "k_tx k0 = (\<lambda>_. [])" and "Wait_error \<notin> set ws"
    and "run_ok (echo_ok lfd) (echo_service lfd) (k_out k0, k_rx k0, registered k0, k_accept k0) (wait_events ws)"
  shows "returns (echo_main al env L k ws) (\<lambda>s. echo_inv al s \<and> echo_view s
      = foldl (echo_service lfd) (k_out k0, k_rx k0, registered k0, k_accept k0) (wait_events ws)) \<and>
    echo_main al env L k (ws @ Wait_error # ws') = Inl Exit_failure"
proof -
  obtain q where init: "queue_init al None 65536 = Inr (Some q)" and q: "q_inv q" "q_bytes q = []"
    using queue_init_ok [of al 65536] assms(2) by (auto simp: returns_iff)
  let ?s = "\<lparr>e_qu = q, e_k = k0\<rparr>"
  have "echo_inv al ?s"
    using assms q queue_init_all [OF init assms(3)] by (simp add: echo_inv_def)
  moreover have view: "echo_view ?s = (k_out k0, k_rx k0, registered k0, k_accept k0)"
    by (simp add: echo_view_def)
  ultimately show ?thesis
    using echo.run_refines [of al ?s lfd "wait_events ws" "env_epollfd env"] assms(7)
    by (auto simp: echo_main_def assms(1) init run_res_append run_echo_wait [OF assms(6)] returns_iff echo_wait_def)
qed

definition idle_kernel :: kernel where
  "idle_kernel = quiet_kernel\<lparr>k_accept := [7],
     k_rx := (\<lambda>_. [])(7 := [RxData ''hi'', RxErr 11, RxData '' there'', RxEof])\<rparr>"

theorem echo_main_serves_witness:
  "returns (echo_main zero_alloc sample_env log_initial idle_kernel [Timeout, Events [4], Events [7, 7]])
    (\<lambda>s. k_out (e_k s) 7 = ''hi there'' \<and> registered (e_k s) = {4}) \<and>
   echo_main zero_alloc sample_env log_initial idle_kernel ([Timeout, Events [4], Events [7, 7]] @ [Wait_error]) = Inl Exit_failure"
proof -
  obtain L' k0 where start: "server_start sample_env log_initial idle_kernel = Inr (4, L', k0)"
    and k0: "k_out k0 = (\<lambda>_. [])" "k_rx k0 = k_rx idle_kernel" "registered k0 = {4}" "k_accept k0 = [7]"
      "k_ctl_fails k0 = []" "k_tx k0 = (\<lambda>_. [])"
    using sample_start [of idle_kernel] by (auto simp: quiet_kernel_def idle_kernel_def)
  let ?v = "(k_out k0, k_rx k0, registered k0, k_accept k0)"
  have "run_ok (echo_ok 4) (echo_service 4) ?v (wait_events [Timeout, Events [4], Events [7, 7]])"
    by (simp add: k0 echo_ok_def echo_service_def idle_kernel_def no_percent_def EAGAIN_def EWOULDBLOCK_def)
  then have "returns (echo_main zero_alloc sample_env log_initial idle_kernel [Timeout, Events [4], Events [7, 7]])
    (\<lambda>s. echo_inv zero_alloc s \<and> echo_view s
       = foldl (echo_service 4) ?v (wait_events [Timeout, Events [4], Events [7, 7]])) \<and>
    echo_main zero_alloc sample_env log_initial idle_kernel ([Timeout, Events [4], Events [7, 7]] @ [Wait_error]) = Inl Exit_failure"
    by (intro echo_main_serves [OF start zero_alloc_ok zero_alloc_fresh k0(5,6)]) simp_all
  then show ?thesis
    by (auto simp: k0 echo_view_def echo_service_def idle_kernel_def EAGAIN_def EWOULDBLOCK_def elim!: returns_mono)
qed

text \<open>A peer that sends some batches of bytes, a last one, and closes its side.\<close>

fun stream :: "char list list \<Rightarrow> char list \<Rightarrow> rx list" where
  "stream [] fin = [RxData fin, RxEof]"
| "stream (b # bs) fin = RxData b # RxErr EAGAIN # stream bs fin"

lemma stream_steps:
  "drained (stream [] fin) = fin" "stop_code (stream [] fin) = 0"
  "b \<noteq> [] \<Longrightarrow> drained (stream (b # bs) fin) = b" "b \<noteq> [] \<Longrightarrow> stop_code (stream (b # bs) fin) = -1"
  "b \<noteq> [] \<Longrightarrow> remaining (stream (b # bs) fin) = stream bs fin"
  by (auto simp: EAGAIN_def)

text \<open>What the service does with one client, whatever it does with the others.\<close>

definition echo_local :: "int \<Rightarrow> echo_view \<Rightarrow> char list \<times> rx list \<times> bool" where
  "echo_local c v = (case v of (out, rx, conns, acc) \<Rightarrow> (out c, rx c, c \<in> conns))"

definition echo_away :: "int \<Rightarrow> int \<Rightarrow> echo_view \<Rightarrow> bool" where
  "echo_away lfd c v \<longleftrightarrow> c \<noteq> lfd \<and> c \<notin> set (snd (snd (snd v)))"

definition echo_lstep :: "char list \<times> rx list \<times> bool \<Rightarrow> char list \<times> rx list \<times> bool" where
  "echo_lstep l = (case l of (out, rx, conn) \<Rightarrow>
     (if stop_code rx < -1 then out else out @ drained rx, remaining rx, conn \<and> stop_code rx = -1))"

interpretation echo_client: per_client "echo_service lfd" "echo_ok lfd" "echo_away lfd c" "echo_local c" echo_lstep c
  for lfd c
  by unfold_locales
    (auto simp: echo_away_def echo_local_def echo_lstep_def echo_service_def echo_ok_def split: if_splits dest: list.set_sel)

lemma echo_lstep_stream:
  "[] \<notin> set bs \<Longrightarrow> \<exists>rx. (echo_lstep ^^ Suc (length bs)) (out, stream bs fin, conn) = (out @ concat bs @ fin, rx, False)"
proof (induction bs arbitrary: out conn)
  case Nil
  show ?case using stream_steps(1,2) [of fin] by (simp add: echo_lstep_def)
next
  case (Cons b bs)
  then have b: "b \<noteq> []" "[] \<notin> set bs" by auto
  have "echo_lstep (out, stream (b # bs) fin, conn) = (out @ b, stream bs fin, conn)"
    using stream_steps(3-5) [OF b(1), of bs fin] by (simp only: echo_lstep_def prod.case) simp
  then show ?case
    using Cons.IH [OF b(2), of "out @ b" conn] by (simp add: funpow_Suc_right del: funpow.simps)
qed

text \<open>C26: under the same conditions, which concern the traffic of all clients (no percent sign received from any of them or in fresh
  memory, whole sends, no failure of epoll_ctl or of the allocation, events about open connections), every client is served to its end: however
  the events of the others are interleaved, when as many events have come for a client as it sends batches, it has been
  sent back everything it sent and its connection is closed.\<close>

theorem echo_serves_to_the_end:
  assumes "echo_inv al s" and "run_ok (echo_ok lfd) (echo_service lfd) (echo_view s) fds" and "c \<noteq> lfd"
    and "k_rx (e_k s) c = stream bs fin" and "[] \<notin> set bs" and "count_list fds c = length bs + 1"
    and "c \<notin> set (k_accept (e_k s))"
  shows "returns (run_res (echo_event al e lfd) s fds)
    (\<lambda>s'. k_out (e_k s') c = k_out (e_k s) c @ concat bs @ fin \<and> c \<notin> registered (e_k s'))"
proof -
  have away: "echo_away lfd c (echo_view s)" using assms(3,7) by (simp add: echo_away_def echo_view_def)
  have "echo_local c (echo_view s) = (k_out (e_k s) c, stream bs fin, c \<in> registered (e_k s))"
    using assms(4) by (simp add: echo_local_def echo_view_def)
  with echo_client.run_local [OF away assms(2)] echo_lstep_stream [OF assms(5)] obtain rx where
    final: "echo_local c (foldl (echo_service lfd) (echo_view s) fds) = (k_out (e_k s) c @ concat bs @ fin, rx, False)"
    unfolding assms(6) by (metis Suc_eq_plus1)
  from echo.run_refines [OF assms(1,2), of e] show ?thesis
    by (rule returns_mono) (use final in \<open>simp add: echo_local_def echo_view_def split: prod.splits\<close>)
qed

definition two_streams :: echo_state where
  "two_streams = \<lparr>e_qu = queue_reset small_queue,
     e_k = quiet_kernel\<lparr>k_interest := [(7, []), (8, [])],
       k_rx := (\<lambda>_. [])(7 := stream [''hel'', ''lo''] ''!'', 8 := stream [] ''bye'')\<rparr>\<rparr>"

theorem echo_serves_to_the_end_witness:
  "returns (run_res (echo_event zero_alloc 5 4) two_streams [7, 8, 7, 7])
    (\<lambda>s'. k_out (e_k s') 7 = ''hello!'' \<and> 7 \<notin> registered (e_k s'))"
proof -
  have "echo_inv zero_alloc two_streams"
    using queue_reset_ok [OF small_queue_inv]
    by (simp add: echo_inv_def two_streams_def zero_alloc_ok zero_alloc_fresh quiet_kernel_def)
      (simp add: q_all_def small_queue_def no_percent_def)
  moreover have "run_ok (echo_ok 4) (echo_service 4) (echo_view two_streams) [7, 8, 7, 7]"
    by (simp add: echo_ok_def echo_service_def echo_view_def two_streams_def quiet_kernel_def
        registered_def EAGAIN_def EWOULDBLOCK_def no_percent_def)
  ultimately have "returns (run_res (echo_event zero_alloc 5 4) two_streams [7, 8, 7, 7])
    (\<lambda>s'. k_out (e_k s') 7 = k_out (e_k two_streams) 7 @ concat [''hel'', ''lo''] @ ''!'' \<and> 7 \<notin> registered (e_k s'))"
    by (rule echo_serves_to_the_end) (simp_all add: two_streams_def quiet_kernel_def)
  then show ?thesis
    by (rule returns_mono) (simp add: two_streams_def quiet_kernel_def)
qed

end
