(* ===== verification/ChatMain.thy ===== *)
theory ChatMain
  imports Chat Echo
begin

text \<open>
  The chat server \<open>budget-chat/main.c\<close>: the list of clients and the event loop. \<open>chat_event\<close> is the body of
  the loop over the events, \<open>chat_wait\<close> one round of the outer loop, \<open>chat_main\<close> the program over any
  finite sequence of answers of \<open>epoll_wait\<close>. \<open>stk\<close> gives the contents of the stack where \<open>client_handle_newclient\<close>
  keeps its request.
\<close>

section \<open>The event loop\<close>

record chat_state =
  ch_c :: ptr
  ch_heap :: "client heap"
  ch_k :: kernel

text \<open>
  On an error the connection is closed, but the client stays in the list; it is closed only when that
  fails, before the exit.
\<close>

definition chat_drop :: "int \<Rightarrow> int \<Rightarrow> ptr \<Rightarrow> client heap \<Rightarrow> kernel \<Rightarrow> chat_state res" where
  "chat_drop epollfd fd c h k =
     rbind (fd_poll_del_and_close (epci epollfd fd) k) (\<lambda>(r, k).
       if r = -1 then rbind (client_close c h k) (\<lambda>_. Inl Exit_failure)
       else Inr \<lparr>ch_c = c, ch_heap = h, ch_k = k\<rparr>)"

text \<open>
  A new client is opened with the descriptor of the event, which is the listening socket, and takes
  the place of the list in the variable \<open>c\<close>.
\<close>

definition chat_event ::
  "allocator \<Rightarrow> char list \<Rightarrow> (chat_state \<Rightarrow> name_request) \<Rightarrow> int \<Rightarrow> int \<Rightarrow> chat_state \<Rightarrow> int \<Rightarrow> chat_state res" where
  "chat_event al rodata stk epollfd listen_fd s fd =
     (if fd = listen_fd
      then rbind (fd_accept_and_epoll_add (epci epollfd fd) (ch_k s)) (\<lambda>(_, k).
           rbind (client_open al rodata fd (ch_heap s) k) (\<lambda>(c, h, k).
           Inr \<lparr>ch_c = c, ch_heap = h, ch_k = k\<rparr>))
      else rbind (client_find (ch_heap s) (ch_c s) fd) (\<lambda>(client_found, c).
        if \<not> client_found then Inl Assert_failed
        else rbind (deref (ch_heap s) c) (\<lambda>n.
        case c_recv_qu n of None \<Rightarrow> Inl Assert_failed | Some qu \<Rightarrow>
        rbind (recv_request al fd qu (ch_k s)) (\<lambda>(r, qu, k).
        rbind (h_set c (\<lambda>n. n\<lparr>c_recv_qu := Some qu\<rparr>) (ch_heap s)) (\<lambda>h.
        if r < -1 then chat_drop epollfd fd c h k
        else (case queue_peek qu of (sz, peeked) \<Rightarrow>
          rbind (if sz > 0
                 then (case peeked of None \<Rightarrow> Inl Uninitialised
                       | Some mem \<Rightarrow> rbind (peek mem 0 (nat sz)) (\<lambda>bs. Inr (CHR 0x0A \<in> set bs)))
                 else Inr False) (\<lambda>complete_req.
          rbind (if sz > 0 \<and> complete_req then client_handle_request al (stk s) h c k else Inr (1, h, k))
            (\<lambda>(rs, h, k).
              if rs < 0 then chat_drop epollfd fd c h k
              else if r = -1 then Inr \<lparr>ch_c = c, ch_heap = h, ch_k = k\<rparr>
              else rbind (client_close c h k) (\<lambda>(c, h, k).
                   rbind (drop_connection epollfd fd k) (\<lambda>k.
                   Inr \<lparr>ch_c = c, ch_heap = h, ch_k = k\<rparr>))))))))))"

text \<open>A time-out ends the program.\<close>

definition chat_wait ::
  "allocator \<Rightarrow> char list \<Rightarrow> (chat_state \<Rightarrow> name_request) \<Rightarrow> int \<Rightarrow> int \<Rightarrow> chat_state \<Rightarrow> wait \<Rightarrow> chat_state res" where
  "chat_wait al rodata stk epollfd listen_fd s w =
     (case w of
        Wait_error \<Rightarrow> Inl Exit_failure
      | Timeout \<Rightarrow> Inl Exit_success
      | Events fds \<Rightarrow> run_res (chat_event al rodata stk epollfd listen_fd) s fds)"

definition chat_main ::
  "allocator \<Rightarrow> char list \<Rightarrow> (chat_state \<Rightarrow> name_request) \<Rightarrow> server_env \<Rightarrow> logger \<Rightarrow> kernel \<Rightarrow> wait list \<Rightarrow> chat_state res" where
  "chat_main al rodata stk env L k waits =
     rbind (server_start env L k) (\<lambda>(listen_fd, L, k).
       run_res (chat_wait al rodata stk (env_epollfd env) listen_fd) \<lparr>ch_c = None, ch_heap = empty_heap, ch_k = k\<rparr> waits)"

section \<open>What the server never does\<close>

text \<open>
  The list has at most one client, whose id is the descriptor of the listening socket. So no event of a
  connection finds its client.
\<close>

definition lone :: "int \<Rightarrow> chat_state \<Rightarrow> bool" where
  "lone lfd s \<longleftrightarrow> (case ch_c s of
     None \<Rightarrow> True
   | Some a \<Rightarrow> (case h_mem (ch_heap s) a of
       None \<Rightarrow> False
     | Some n \<Rightarrow> n_prev n = None \<and> n_next n = None \<and> c_id n = lfd))"

lemma client_find_lone:
  assumes "lone lfd s" and "fd \<noteq> lfd" and "client_find (ch_heap s) (ch_c s) fd = Inr (found, c)"
  shows "\<not> found"
  using assms
  by (auto simp: lone_def client_find_def client_first_def walk_from_def split: option.splits if_splits)

lemma chat_event_other:
  assumes "lone lfd s" and "fd \<noteq> lfd"
  shows "\<exists>e. chat_event al rodata stk epollfd lfd s fd = Inl e"
proof (cases "client_find (ch_heap s) (ch_c s) fd")
  case (Inl e)
  then show ?thesis using assms(2) by (simp add: chat_event_def)
next
  case (Inr r)
  then show ?thesis using assms client_find_lone [OF assms] by (cases r) (simp add: chat_event_def)
qed

lemma client_open_lone:
  assumes "client_open al rodata fd h k = Inr (c, h', k')"
  shows "lone fd \<lparr>ch_c = c, ch_heap = h', ch_k = k'\<rparr>" and "\<forall>d. d \<noteq> fd \<longrightarrow> k_out k' d = k_out k d"
proof -
  show "lone fd \<lparr>ch_c = c, ch_heap = h', ch_k = k'\<rparr>"
    using assms by (auto simp: client_open_def h_new_def lone_def res_simps split: option.splits if_splits)
  show "\<forall>d. d \<noteq> fd \<longrightarrow> k_out k' d = k_out k d"
    using assms
    by (auto simp: client_open_def h_new_def sendall_def res_simps split: option.splits if_splits prod.splits
        dest!: send_loop_prefix)
qed

lemma accept_out: "fd_accept_and_epoll_add info k = Inr (r, k') \<Longrightarrow> k_out k' = k_out k"
  by (auto simp: fd_accept_and_epoll_add_def accept_call_def epoll_ctl_add_def ctl_resource_def
      fcntl_nonblock_def Let_def split: list.splits if_splits)

lemma chat_event_step:
  assumes "lone lfd s" and "chat_event al rodata stk epollfd lfd s fd = Inr s'"
  shows "fd = lfd" and "lone lfd s'" and "\<forall>d. d \<noteq> lfd \<longrightarrow> k_out (ch_k s') d = k_out (ch_k s) d"
proof -
  show fd: "fd = lfd" using chat_event_other [OF assms(1), of fd al rodata stk epollfd] assms(2) by force
  then show "lone lfd s'" and "\<forall>d. d \<noteq> lfd \<longrightarrow> k_out (ch_k s') d = k_out (ch_k s) d"
    using assms(2) client_open_lone
    by (auto simp: chat_event_def res_simps dest!: accept_out)
qed

lemma run_chat_events:
  "lone lfd s \<Longrightarrow> run_res (chat_event al rodata stk epollfd lfd) s fds = Inr s' \<Longrightarrow>
   lone lfd s' \<and> set fds \<subseteq> {lfd} \<and> (\<forall>d. d \<noteq> lfd \<longrightarrow> k_out (ch_k s') d = k_out (ch_k s) d)"
proof (induction fds arbitrary: s)
  case (Cons fd fds)
  then obtain s1 where s1: "chat_event al rodata stk epollfd lfd s fd = Inr s1"
    "run_res (chat_event al rodata stk epollfd lfd) s1 fds = Inr s'"
    by (auto simp: res_simps)
  note step = chat_event_step [OF Cons.prems(1) s1(1)]
  show ?case using Cons.IH [OF step(2) s1(2)] step by auto
qed simp

lemma run_chat_waits:
  "lone lfd s \<Longrightarrow> run_res (chat_wait al rodata stk epollfd lfd) s ws = Inr s' \<Longrightarrow>
   set (wait_events ws) \<subseteq> {lfd} \<and> (\<forall>d. d \<noteq> lfd \<longrightarrow> k_out (ch_k s') d = k_out (ch_k s) d)"
proof (induction ws arbitrary: s)
  case (Cons w ws)
  then obtain s1 where s1: "chat_wait al rodata stk epollfd lfd s w = Inr s1"
    "run_res (chat_wait al rodata stk epollfd lfd) s1 ws = Inr s'"
    by (auto simp: res_simps)
  from s1(1) obtain fds where w: "w = Events fds" "run_res (chat_event al rodata stk epollfd lfd) s fds = Inr s1"
    by (auto simp: chat_wait_def split: wait.splits)
  show ?case using run_chat_events [OF Cons.prems(1) w(2)] Cons.IH [OF _ s1(2)] w(1) by auto
qed simp

section \<open>Properties\<close>

text \<open>C5: the chat server serves nobody: as long as it has not stopped, no client has been sent a single byte and
  no event of a connection has been handled; the first such event fails the assertion that its
  client is in the list.\<close>

theorem chat_serves_nobody:
  assumes "chat_main al rodata stk env L k ws = Inr s"
  shows "\<exists>lfd L' k0. server_start env L k = Inr (lfd, L', k0) \<and> set (wait_events ws) \<subseteq> {lfd} \<and>
    (\<forall>fd. fd \<noteq> lfd \<longrightarrow> k_out (ch_k s) fd = k_out k0 fd)"
proof -
  from assms obtain lfd L' k0 where start: "server_start env L k = Inr (lfd, L', k0)"
    and run: "run_res (chat_wait al rodata stk (env_epollfd env) lfd)
      \<lparr>ch_c = None, ch_heap = empty_heap, ch_k = k0\<rparr> ws = Inr s"
    by (auto simp: chat_main_def res_simps)
  have "lone lfd \<lparr>ch_c = None, ch_heap = empty_heap, ch_k = k0\<rparr>" by (simp add: lone_def)
  from run_chat_waits [OF this run] start show ?thesis by auto
qed

definition no_request :: "chat_state \<Rightarrow> name_request" where
  "no_request s = \<lparr>nr_name = None, nr_size = 0, nr_valid = False, nr_response = []\<rparr>"

definition one_caller :: kernel where
  "one_caller = quiet_kernel\<lparr>k_accept := [7]\<rparr>"

lemma zero_alloc_fields: "zero_alloc n = Some (\<lambda>_. NUL)"
  by (simp add: zero_alloc_def)

lemma chat_accepts:
  assumes "k_accept k = [7]" and "registered k = {4}" and "k_ctl_fails k = []" and "k_tx k = (\<lambda>_. [])"
  shows "\<exists>s. chat_event zero_alloc [NUL] no_request 5 4 \<lparr>ch_c = None, ch_heap = empty_heap, ch_k = k\<rparr> 4 = Inr s"
proof -
  obtain k1 where k1: "fd_accept_and_epoll_add (epci 5 4) k = Inr (7, k1)" "k_tx k1 = (\<lambda>_. [])"
    using accept_and_add_ok [of k 7 "[]" "epci 5 4"] assms by (auto simp: returns_iff)
  have "alloc_ok zero_alloc" by (rule zero_alloc_ok)
  then obtain qu where qu: "queue_init zero_alloc None 1024 = Inr qu"
    using queue_init_ok [of zero_alloc 1024] by (auto simp: returns_iff)
  have "\<forall>c \<in> set (CLIENT_WELCOME_PROMPT @ NUL # [NUL]). no_percent c"
    by (simp add: CLIENT_WELCOME_PROMPT_def no_percent_def NUL_def)
  then have "sendall 4 (CLIENT_WELCOME_PROMPT @ NUL # [NUL]) 45 k1
      = Inr (0, 45, put_out 4 (take 45 (CLIENT_WELCOME_PROMPT @ NUL # [NUL])) k1)"
    using sendall_no_percent [of 4 45 "CLIENT_WELCOME_PROMPT @ NUL # [NUL]" k1] k1(2)
    by (simp add: CLIENT_WELCOME_PROMPT_def)
  then show ?thesis
    using k1(1) qu by (simp add: chat_event_def client_open_def zero_alloc_fields h_new_def)
qed

theorem chat_serves_nobody_witness:
  "\<exists>s L' k0. chat_main zero_alloc [NUL] no_request sample_env log_initial one_caller [Events [4]] = Inr s \<and>
     server_start sample_env log_initial one_caller = Inr (4, L', k0) \<and> k_out (ch_k s) 7 = k_out k0 7"
proof -
  obtain L' k0 where start: "server_start sample_env log_initial one_caller = Inr (4, L', k0)"
    and k0: "k_accept k0 = [7]" "registered k0 = {4}" "k_ctl_fails k0 = []" "k_tx k0 = (\<lambda>_. [])"
    using sample_start [of one_caller] by (auto simp: quiet_kernel_def one_caller_def)
  obtain s where "chat_event zero_alloc [NUL] no_request 5 4 \<lparr>ch_c = None, ch_heap = empty_heap, ch_k = k0\<rparr> 4 = Inr s"
    using chat_accepts [OF k0] by blast
  then have run: "chat_main zero_alloc [NUL] no_request sample_env log_initial one_caller [Events [4]] = Inr s"
    using start by (simp add: chat_main_def chat_wait_def) (simp add: sample_env_def)
  from chat_serves_nobody [OF run] show ?thesis
    using run start by auto
qed

section \<open>The first event\<close>

text \<open>The prompt always prints without arguments, whatever follows it in memory.\<close>

lemma prompt_prints: "fmt_ok ((take 47 (CLIENT_WELCOME_PROMPT @ NUL # b # rest))[46 := NUL])"
  by (simp add: CLIENT_WELCOME_PROMPT_def NUL_def)

lemma client_open_refused:
  assumes "alloc_ok al" and "fd \<noteq> 0" and "k_tx k fd = TxErr err # ts" and "err \<noteq> 0" and "rodata \<noteq> []"
  shows "client_open al rodata fd h k = Inl Assert_failed"
proof -
  obtain junk where junk: "al 72 = Some junk" using assms(1) by (rule alloc_okE)
  obtain qu where qu: "queue_init al None 1024 = Inr qu"
    using queue_init_ok [OF assms(1), of 1024] by (auto simp: returns_iff)
  obtain b rest where rodata: "rodata = b # rest" using assms(5) by (cases rodata) auto
  have "peek (CLIENT_WELCOME_PROMPT @ NUL # b # rest) 0 47 = Inr (take 47 (CLIENT_WELCOME_PROMPT @ NUL # b # rest))"
    by (simp add: peek_def CLIENT_WELCOME_PROMPT_def)
  moreover have "send_loop fd (take 45 (CLIENT_WELCOME_PROMPT @ NUL # b # rest)) 0 0 k = (err, 0, set_tx fd ts k)"
    using assms(3) by (subst send_loop.simps) (simp add: CLIENT_WELCOME_PROMPT_def send_call_def)
  ultimately have "sendall fd (CLIENT_WELCOME_PROMPT @ NUL # b # rest) 45 k = Inr (err, 0, set_tx fd ts k)"
    using assms(2) prompt_prints [of b rest] by (simp add: sendall_def)
  then show ?thesis
    using junk qu assms(4) by (simp add: client_open_def rodata h_new_def)
qed

text \<open>C13: the kernel refuses to send on a listening socket. Then the very first event stops the chat server with a failed
  assertion, whatever it is: a connection that waits, because the prompt is sent to the listening socket, or an event
  of a connection, because its client is not in the list.\<close>

theorem chat_first_event_aborts:
  assumes "server_start env L k = Inr (lfd, L', k0)" and "lfd \<noteq> 0" and "k_tx k0 lfd = TxErr err # ts" and "err \<noteq> 0"
    and "alloc_ok al" and "rodata \<noteq> []"
    and "k_accept k0 = c # cs" and "c \<noteq> -1" and "c \<notin> registered k0" and "k_ctl_fails k0 = []"
  shows "chat_main al rodata stk env L k (Events (fd # fds) # ws) = Inl Assert_failed"
proof -
  let ?s = "\<lparr>ch_c = None, ch_heap = empty_heap, ch_k = k0\<rparr>"
  have "chat_event al rodata stk (env_epollfd env) lfd ?s fd = Inl Assert_failed"
  proof (cases "fd = lfd")
    case True
    obtain k1 where "fd_accept_and_epoll_add (epci (env_epollfd env) lfd) k0 = Inr (c, k1)" "k_tx k1 = k_tx k0"
      using accept_and_add_ok [OF assms(7-10), of "epci (env_epollfd env) lfd"] by (auto simp: returns_iff)
    then show ?thesis
      using True client_open_refused [OF assms(5,2), of k1 err ts rodata empty_heap] assms(3,4,6)
      by (simp add: chat_event_def)
  next
    case False
    then show ?thesis by (simp add: chat_event_def client_find_def)
  qed
  then show ?thesis by (simp add: chat_main_def assms(1) chat_wait_def)
qed

text \<open>107 is \<open>ENOTCONN\<close>.\<close>

theorem chat_first_event_aborts_witness:
  "chat_main zero_alloc [NUL] no_request sample_env log_initial (one_caller\<lparr>k_tx := (\<lambda>_. [])(4 := [TxErr 107])\<rparr>)
     [Events [4]] = Inl Assert_failed"
proof -
  let ?k = "one_caller\<lparr>k_tx := (\<lambda>_. [])(4 := [TxErr 107])\<rparr>"
  obtain L' k0 where start: "server_start sample_env log_initial ?k = Inr (4, L', k0)"
    and k0: "k_accept k0 = [7]" "registered k0 = {4}" "k_ctl_fails k0 = []" "k_tx k0 = (\<lambda>_. [])(4 := [TxErr 107])"
    using sample_start [of ?k] by (auto simp: quiet_kernel_def one_caller_def)
  show ?thesis
    by (rule chat_first_event_aborts [OF start, where err = 107 and ts = "[]" and c = 7 and cs = "[]"])
      (simp_all add: k0 zero_alloc_ok)
qed

end
