(* ===== verification/World.thy ===== *)
theory World
  imports Server "HOL-Library.Sublist"
begin

text \<open>
  A server in a hostile world. Between two events the peers and the operating system may do anything
  that is theirs to do: more bytes arrive, connections come, later calls are answered differently, memory
  runs out. \<open>driven\<close> is the step relation of a server in such a world, with one rule for an event the
  server handles and one for the world's moves; \<open>driver\<close> is the invariant rule for it, over the states and what was
  observed of the events on the way. The lemmas on single calls assume nothing about how the kernel
  answers.
\<close>

section \<open>Driven by the world\<close>

inductive driven ::
  "('s \<Rightarrow> 'i \<Rightarrow> 's res) \<Rightarrow> ('s \<Rightarrow> 'i \<Rightarrow> bool) \<Rightarrow> ('s \<Rightarrow> 's \<Rightarrow> bool) \<Rightarrow> ('s \<Rightarrow> 'i \<Rightarrow> 'o) \<Rightarrow>
   's \<Rightarrow> 'o list \<Rightarrow> 's \<Rightarrow> bool"
  for step can moves obs s0 where
  driven_start: "driven step can moves obs s0 [] s0"
| driven_event: "driven step can moves obs s0 tr s \<Longrightarrow> can s i \<Longrightarrow> step s i = Inr s' \<Longrightarrow>
    driven step can moves obs s0 (tr @ [obs s i]) s'"
| driven_world: "driven step can moves obs s0 tr s \<Longrightarrow> moves s s' \<Longrightarrow> driven step can moves obs s0 tr s'"

locale driver =
  fixes step :: "'s \<Rightarrow> 'i \<Rightarrow> 's res"
    and can :: "'s \<Rightarrow> 'i \<Rightarrow> bool"
    and moves :: "'s \<Rightarrow> 's \<Rightarrow> bool"
    and obs :: "'s \<Rightarrow> 'i \<Rightarrow> 'o"
    and good :: "'o list \<Rightarrow> 's \<Rightarrow> bool"
  assumes event_keeps: "good tr s \<Longrightarrow> can s i \<Longrightarrow> step s i = Inr s' \<Longrightarrow> good (tr @ [obs s i]) s'"
    and world_keeps: "good tr s \<Longrightarrow> moves s s' \<Longrightarrow> good tr s'"
begin

lemma driven_good:
  assumes "driven step can moves obs s0 tr s" and "good [] s0"
  shows "good tr s"
  using assms by (induction rule: driven.induct) (auto intro: event_keeps world_keeps)

end

text \<open>
  The moves of the world in the kernel state: everything but what the server itself did to the
  sockets.
\<close>

definition kernel_moves :: "kernel \<Rightarrow> kernel \<Rightarrow> bool" where
  "kernel_moves k k' \<longleftrightarrow> k_out k' = k_out k \<and> k_interest k' = k_interest k \<and>
     k_nonblock k' = k_nonblock k \<and> k_closed k' = k_closed k"

lemma kernel_moves_keeps:
  "kernel_moves k k' \<Longrightarrow> k_out k' = k_out k \<and> registered k' = registered k \<and> k_inv k' = k_inv k"
  by (simp add: kernel_moves_def registered_def k_inv_def)

section \<open>Memory that runs out\<close>

text \<open>
  An allocator that answers where the given one does not. What a computation returns with the
  given one it also returns with this one, so that facts about allocators that never fail hold
  whenever the code gets through.
\<close>

definition total_alloc :: "allocator \<Rightarrow> allocator" where
  "total_alloc al n = Some (case al n of Some junk \<Rightarrow> junk | None \<Rightarrow> (\<lambda>_. NUL))"

lemma total_alloc_ok [simp]: "alloc_ok (total_alloc al)"
  by (simp add: alloc_ok_def total_alloc_def)

lemma total_alloc_Some: "al n = Some junk \<Longrightarrow> total_alloc al n = Some junk"
  by (simp add: total_alloc_def)

text \<open>
  \<open>implies m m'\<close>: whatever \<open>m\<close> returns, \<open>m'\<close> returns too. It goes through the composition of code
  rule by rule (\<open>through\<close>), so a function that passes its allocator on needs no proof of its own.
\<close>

definition implies :: "'a res \<Rightarrow> 'a res \<Rightarrow> bool" where
  "implies m m' \<longleftrightarrow> (\<forall>r. m = Inr r \<longrightarrow> m' = Inr r)"

lemma impliesD: "implies m m' \<Longrightarrow> m = Inr r \<Longrightarrow> m' = Inr r"
  by (simp add: implies_def)

named_theorems through \<open>rules for implies\<close>

lemma implies_refl [through]: "implies m m"
  by (simp add: implies_def)

lemma implies_rbind [through]:
  "implies m m' \<Longrightarrow> (\<And>x. implies (f x) (f' x)) \<Longrightarrow> implies (rbind m f) (rbind m' f')"
  by (auto simp: implies_def res_simps)

lemma implies_if [through]: "implies a a' \<Longrightarrow> implies b b' \<Longrightarrow> implies (if c then a else b) (if c then a' else b')"
  by simp

lemma implies_prod [through]:
  "(\<And>x y. implies (f x y) (f' x y)) \<Longrightarrow> implies (case p of (x, y) \<Rightarrow> f x y) (case p of (x, y) \<Rightarrow> f' x y)"
  by (cases p) simp

lemma implies_option [through]:
  "implies a a' \<Longrightarrow> (\<And>x. implies (f x) (f' x)) \<Longrightarrow>
   implies (case v of None \<Rightarrow> a | Some x \<Rightarrow> f x) (case v of None \<Rightarrow> a' | Some x \<Rightarrow> f' x)"
  by (cases v) simp_all

lemma implies_alloc [through]:
  "(\<And>junk. implies (f junk) (f' junk)) \<Longrightarrow>
   implies (case al n of None \<Rightarrow> Inl e | Some junk \<Rightarrow> f junk)
     (case total_alloc al n of None \<Rightarrow> Inl e' | Some junk \<Rightarrow> f' junk)"
  by (cases "al n") (simp_all add: total_alloc_def implies_def)

lemma implies_alloc_test [through]:
  "implies a a' \<Longrightarrow> implies (if al n = None then Inl e else a) (if total_alloc al n = None then Inl e else a')"
  "implies a a' \<Longrightarrow> implies (if c \<or> al n = None then Inl e else a) (if c \<or> total_alloc al n = None then Inl e else a')"
  by (simp_all add: total_alloc_def implies_def)

lemma queue_init_data_total [through]: "implies (queue_init_data al q cap) (queue_init_data (total_alloc al) q cap)"
  unfolding queue_init_data_def by (intro through)

lemma queue_expand_capacity_total [through]:
  "implies (queue_expand_capacity al q sz) (queue_expand_capacity (total_alloc al) q sz)"
  unfolding queue_expand_capacity_def by (intro through)

lemma queue_push_ex_total [through]: "implies (queue_push_ex al q sz) (queue_push_ex (total_alloc al) q sz)"
  unfolding queue_push_ex_def by (intro through)

lemma queue_push_total [through]: "implies (queue_push al q data sz) (queue_push (total_alloc al) q data sz)"
  unfolding queue_push_def by (intro through)

lemma queue_init_total [through]: "implies (queue_init al qu cap) (queue_init (total_alloc al) qu cap)"
  unfolding queue_init_def by (intro through)

lemma recv_loop_total:
  "recv_loop al fd qu k = Inr r \<Longrightarrow> recv_loop (total_alloc al) fd qu k = Inr r"
proof (induction al fd qu k rule: recv_loop.induct)
  case (1 al fd qu k)
  note run = "1.prems" [unfolded recv_loop.simps [of al fd qu k]]
  obtain a k1 where call: "recv_call fd (unat (q_free qu)) k = (a, k1)" by fastforce
  show ?case
  proof (cases "\<exists>bs. a = RecvBytes bs \<and> bs \<noteq> []")
    case False
    then show ?thesis
      using run call by (cases a) (auto simp: recv_loop.simps [of "total_alloc al" fd qu k] split: if_splits)
  next
    case True
    then obtain bs where a: "a = RecvBytes bs" "bs \<noteq> []" by blast
    obtain d q1 where d: "poke (q_data qu) (q_head qu) bs = Inr d"
      and q1: "queue_push_ex al (qu\<lparr>q_data := d\<rparr>) (of_nat (length bs)) = Inr q1"
      and rest: "recv_loop al fd q1 k1 = Inr r"
      using run call a by (auto simp: res_simps)
    from "1.IH" [OF call [symmetric] a d q1 rest] show ?thesis
      using call a d impliesD [OF queue_push_ex_total q1] by (simp add: recv_loop.simps [of "total_alloc al" fd qu k])
  qed
qed

section \<open>Calls, however they are answered\<close>

text \<open>\<open>recv_request\<close>, if it returns: memory may have run out before.\<close>

lemma recv_request_any:
  assumes "recv_request al fd qu k = Inr (r, qu', k')" and "q_inv qu"
    and "length (q_bytes qu) + length (drained (k_rx k fd)) \<le> 2 ^ 40"
  shows "0 < fd" and "r = stop_code (k_rx k fd)" and "q_inv qu'" and "q_bytes qu' = q_bytes qu @ drained (k_rx k fd)"
    and "k' = set_rx fd (remaining (k_rx k fd)) k"
proof -
  show fd: "0 < fd" using assms(1) by (simp add: recv_request_def split: if_splits)
  then have "recv_loop (total_alloc al) fd qu k = Inr (r, qu', k')"
    using assms(1) by (simp add: recv_request_def recv_loop_total)
  moreover have "returns (recv_loop (total_alloc al) fd qu k)
     (\<lambda>(r, qu', k'). r = stop_code (k_rx k fd) \<and> q_inv qu' \<and> q_all (\<lambda>_. True) qu' \<and>
        q_bytes qu' = q_bytes qu @ drained (k_rx k fd) \<and> k' = set_rx fd (remaining (k_rx k fd)) k)"
    using assms(2,3) by (intro recv_loop_drains) (simp_all add: fresh_all_def q_all_def)
  ultimately show "r = stop_code (k_rx k fd)" "q_inv qu'" "q_bytes qu' = q_bytes qu @ drained (k_rx k fd)"
    "k' = set_rx fd (remaining (k_rx k fd)) k" by simp_all
qed

lemma send_loop_interest:
  "send_loop fd rest prev done_n k = (r, n, k') \<Longrightarrow> k_interest k' = k_interest k"
proof (induction fd rest prev done_n k arbitrary: r n k' rule: send_loop.induct)
  case (1 fd rest prev done_n k)
  obtain s k1 where call: "send_call fd rest k = (s, k1)" by fastforce
  then have "k_interest k1 = k_interest k"
    by (auto simp: send_call_def split: list.splits tx.splits)
  then show ?case
    using "1.prems" "1.IH" [OF _ call [symmetric]] call
    by (auto simp: send_loop.simps [of fd rest prev] split: if_splits send_ret.splits)
qed

text \<open>\<open>sendall\<close>: a front part of the message goes out on that socket, and nothing else happens.\<close>

lemma sendall_any:
  assumes "sendall fd mem len k = Inr (r, n, k')"
  shows "\<exists>bs. prefix bs (take (nat len) mem) \<and> k_out k' = (k_out k)(fd := k_out k fd @ bs)"
    and "registered k' = registered k" and "k_inv k' = k_inv k"
proof -
  obtain m where loop: "send_loop fd (take (nat len) mem) 0 0 k = (r, m, k')"
    using assms by (auto simp: sendall_def res_simps split: if_splits prod.splits)
  show "\<exists>bs. prefix bs (take (nat len) mem) \<and> k_out k' = (k_out k)(fd := k_out k fd @ bs)"
    using send_loop_prefix [OF loop] take_is_prefix by blast
  show "registered k' = registered k" "k_inv k' = k_inv k"
    using send_loop_interest [OF loop] by (simp_all add: registered_def k_inv_def)
qed

lemma accept_any:
  assumes "fd_accept_and_epoll_add info k = Inr (fd, k')"
  shows "fd \<noteq> -1" and "fd \<notin> registered k" and "registered k' = insert fd (registered k)"
    and "k_out k' = k_out k" and "k_inv k \<Longrightarrow> k_inv k'"
  using assms
  by (auto simp: fd_accept_and_epoll_add_def accept_call_def epoll_ctl_add_def ctl_resource_def
      fcntl_nonblock_def registered_def k_inv_def Let_def split: list.splits if_splits)

lemma drop_any:
  assumes "drop_connection e fd k = Inr k'"
  shows "fd \<in> registered k" and "registered k' = registered k - {fd}" and "k_out k' = k_out k"
    and "k_inv k \<Longrightarrow> k_inv k'"
  using assms
  by (auto simp: drop_connection_def fd_poll_del_and_close_def epoll_ctl_del_def ctl_resource_def close_call_def
      registered_def k_inv_def Let_def res_simps fst_filter_registered distinct_fst_filter
      split: list.splits if_splits)

lemma drop_maybe:
  assumes "k' = k \<or> drop_connection e fd k = Inr k'"
  shows "k_out k' = k_out k" and "k_inv k \<Longrightarrow> k_inv k'"
  using assms drop_any [of e fd k k'] by auto

text \<open>Sending what a queue holds, or not sending it.\<close>

lemma flush_any:
  assumes "q_inv q" and "k' = k \<or> (\<exists>rs l. sendall fd (q_data q) (int (length (q_bytes q))) k = Inr (rs, l, k'))"
  shows "\<exists>p. prefix p (q_bytes q) \<and> k_out k' = (k_out k)(fd := k_out k fd @ p)" and "k_inv k' = k_inv k"
    and "registered k' = registered k"
proof -
  have mem: "take (length (q_bytes q)) (q_data q) = q_bytes q"
    using q_inv_length [OF assms(1)] by (simp add: q_bytes_def)
  show "\<exists>p. prefix p (q_bytes q) \<and> k_out k' = (k_out k)(fd := k_out k fd @ p)"
    using assms(2)
  proof
    assume "k' = k"
    then show ?thesis by (intro exI [of _ "[]"]) simp
  qed (use sendall_any(1) mem in fastforce)
  show "k_inv k' = k_inv k" "registered k' = registered k" using assms(2) sendall_any(2,3) by auto
qed

lemma server_start_any:
  assumes "server_start env L k = Inr (fd, L', k')"
  shows "fd \<in> registered k'" and "k_out k' = k_out k" and "k_inv k \<Longrightarrow> k_inv k'"
    and "registered k = {} \<Longrightarrow> registered k' = {fd}"
proof -
  have closes: "k_out (fold close_call fds k) = k_out k" "k_inv k \<Longrightarrow> k_inv (fold close_call fds k)"
    "registered k = {} \<Longrightarrow> registered (fold close_call fds k) = {}" for fds k
    by (induction fds arbitrary: k) (simp_all add: close_call_def k_inv_def registered_def distinct_fst_filter)
  obtain c r where c: "epoll_ctl_add fd [EPOLLIN, EPOLLRDHUP] (fold close_call c k) = (r, k')" "r \<noteq> -1"
    using assms by (auto simp: server_start_def split: option.splits prod.splits if_splits)
  show "fd \<in> registered k'" "k_out k' = k_out k" "k_inv k \<Longrightarrow> k_inv k'" "registered k = {} \<Longrightarrow> registered k' = {fd}"
    using c closes [where fds = c and k = k]
    by (auto simp: epoll_ctl_add_def ctl_resource_def registered_def k_inv_def Let_def split: list.splits if_splits)
qed

end
