(* ===== verification/Hostile.thy ===== *)
theory Hostile
  imports Means ChatMain World
begin

text \<open>
  The servers in a hostile world: what stays true when nothing is assumed about how the kernel answers, when memory
  may run out in any event, and when bytes and connections arrive while the server runs. An input of the
  step relation is the allocator of the event and its descriptor.
\<close>

section \<open>Outputs made of pieces\<close>

text \<open>
  What is observed of an event is its connection and the bytes a well-behaved kernel would have taken for it. However
  sends fail, the output on a connection is made of pieces: a front part of each of its batches, in order.
\<close>

definition batches :: "int \<Rightarrow> (int \<times> char list) list \<Rightarrow> char list list" where
  "batches c tr = map snd (filter (\<lambda>(fd, _). fd = c) tr)"

definition made_of :: "char list list \<Rightarrow> char list \<Rightarrow> bool" where
  "made_of bss out \<longleftrightarrow> (\<exists>ps. list_all2 prefix ps bss \<and> out = concat ps)"

lemma made_of_Nil [simp]: "made_of [] out \<longleftrightarrow> out = []"
  by (auto simp: made_of_def)

lemma made_of_snoc: "made_of bss out \<Longrightarrow> prefix p bs \<Longrightarrow> made_of (bss @ [bs]) (out @ p)"
  unfolding made_of_def by (metis concat.simps concat_append append_Nil2 list_all2_appendI list.rel_intros)

definition pieces :: "(int \<Rightarrow> char list) \<Rightarrow> (int \<times> char list) list \<Rightarrow> (int \<Rightarrow> char list) \<Rightarrow> bool" where
  "pieces out0 tr out \<longleftrightarrow> (\<forall>c. \<exists>bs. out c = out0 c @ bs \<and> made_of (batches c tr) bs)"

lemma pieces_start: "pieces out [] out"
  by (simp add: pieces_def batches_def)

lemma pieces_step:
  assumes "pieces out0 tr out" and "prefix p bs" and "out' = out(fd := out fd @ p)"
  shows "pieces out0 (tr @ [(fd, bs)]) out'"
  unfolding pieces_def
proof
  fix c
  obtain ys where "out c = out0 c @ ys" "made_of (batches c tr) ys"
    using assms(1) unfolding pieces_def by metis
  then show "\<exists>ys. out' c = out0 c @ ys \<and> made_of (batches c (tr @ [(fd, bs)])) ys"
    using assms(3) made_of_snoc [OF _ assms(2), of "batches c tr" ys] by (cases "c = fd") (simp_all add: batches_def)
qed

section \<open>The echo server\<close>

definition echo_step :: "int \<Rightarrow> int \<Rightarrow> echo_state \<Rightarrow> allocator \<times> int \<Rightarrow> echo_state res" where
  "echo_step e lfd s i = (case i of (al, fd) \<Rightarrow> echo_event al e lfd s fd)"

definition echo_can :: "int \<Rightarrow> echo_state \<Rightarrow> allocator \<times> int \<Rightarrow> bool" where
  "echo_can lfd s i \<longleftrightarrow> (case i of (al, fd) \<Rightarrow> fd \<noteq> lfd \<longrightarrow> length (drained (k_rx (e_k s) fd)) < 2 ^ 31)"

definition echo_moves :: "echo_state \<Rightarrow> echo_state \<Rightarrow> bool" where
  "echo_moves s s' \<longleftrightarrow> e_qu s' = e_qu s \<and> kernel_moves (e_k s) (e_k s')"

definition echo_obs :: "int \<Rightarrow> echo_state \<Rightarrow> allocator \<times> int \<Rightarrow> int \<times> char list" where
  "echo_obs lfd s i = (snd i, if snd i = lfd then [] else drained (k_rx (e_k s) (snd i)))"

definition echo_good :: "(int \<Rightarrow> char list) \<Rightarrow> (int \<times> char list) list \<Rightarrow> echo_state \<Rightarrow> bool" where
  "echo_good out0 tr s \<longleftrightarrow> q_inv (e_qu s) \<and> q_bytes (e_qu s) = [] \<and> k_inv (e_k s) \<and>
     pieces out0 tr (k_out (e_k s))"

text \<open>How an event of a connection returns: the bytes it delivered may have been sent, and it may be closed.\<close>

lemma echo_event_cases:
  assumes "echo_event al e lfd s fd = Inr s'" and "fd \<noteq> lfd"
  obtains r qu k sz data qu' k1 where "recv_request al fd (e_qu s) (e_k s) = Inr (r, qu, k)"
    and "queue_pop_no_copy qu = (sz, data, qu')" and "e_qu s' = qu'"
    and "k1 = k \<or> (\<exists>mem rs l. 0 < sz \<and> data = Some mem \<and> sendall fd mem sz k = Inr (rs, l, k1))"
    and "e_k s' = k1 \<or> drop_connection e fd k1 = Inr (e_k s')"
proof -
  obtain r qu k where recv: "recv_request al fd (e_qu s) (e_k s) = Inr (r, qu, k)"
    using assms by (auto simp: echo_event_def res_simps)
  obtain sz data qu' where pop: "queue_pop_no_copy qu = (sz, data, qu')" by (cases "queue_pop_no_copy qu") auto
  note run = assms(1) [unfolded echo_event_def if_not_P [OF assms(2)] recv rbind_Inr prod.case pop]
  show ?thesis
  proof (cases "r < -1 \<or> \<not> sz > 0")
    case True
    then show ?thesis
      using run by (intro that [OF recv pop, of k]) (auto simp: rbind_eq_Inr split: if_splits)
  next
    case False
    then obtain mem rs l k1 where data: "data = Some mem" and send: "sendall fd mem sz k = Inr (rs, l, k1)"
      using run by (auto simp: rbind_eq_Inr split: option.splits)
    then show ?thesis
      using run False by (intro that [OF recv pop, of k1]) (auto simp: rbind_eq_Inr split: if_splits)
  qed
qed

lemma echo_event_any:
  assumes "echo_event al e lfd s fd = Inr s'" and "echo_can lfd s (al, fd)"
    and "q_inv (e_qu s)" and "q_bytes (e_qu s) = []" and "k_inv (e_k s)"
  shows "q_inv (e_qu s') \<and> q_bytes (e_qu s') = [] \<and> k_inv (e_k s') \<and>
    (\<exists>p. prefix p (snd (echo_obs lfd s (al, fd))) \<and>
       k_out (e_k s') = (k_out (e_k s))(fd := k_out (e_k s) fd @ p))"
proof (cases "fd = lfd")
  case True
  then show ?thesis
    using assms accept_any [of "epci e fd" "e_k s"] by (auto simp: echo_event_def res_simps echo_obs_def)
next
  case other: False
  let ?bs = "drained (k_rx (e_k s) fd)"
  have small: "length ?bs < 2 ^ 31" using assms(2) other by (simp add: echo_can_def)
  obtain r qu k sz data qu' k1 where recv: "recv_request al fd (e_qu s) (e_k s) = Inr (r, qu, k)"
    and pop: "queue_pop_no_copy qu = (sz, data, qu')" "e_qu s' = qu'"
    and sent: "k1 = k \<or> (\<exists>mem rs l. 0 < sz \<and> data = Some mem \<and> sendall fd mem sz k = Inr (rs, l, k1))"
    and closed: "e_k s' = k1 \<or> drop_connection e fd k1 = Inr (e_k s')"
    using assms(1) other by (rule echo_event_cases)
  have lim: "length (q_bytes (e_qu s)) + length ?bs \<le> 2 ^ 40" using assms(4) small by simp
  from recv_request_any [OF recv assms(3) lim] have
    qu: "q_inv qu" "q_bytes qu = ?bs" and k: "k_out k = k_out (e_k s)" "k_inv k"
    using assms(4,5) by simp_all
  have flushed: "qu' = flushed qu" "sz = int (length (q_bytes qu))" "data = None \<or> data = Some (q_data qu)"
    using pop(1) pop_flushed [OF qu(1)] qu(2) small by (auto split: if_splits)
  then have "k1 = k \<or> (\<exists>rs l. sendall fd (q_data qu) (int (length (q_bytes qu))) k = Inr (rs, l, k1))"
    using sent by auto
  from flush_any [OF qu(1) this] drop_maybe [OF closed] k qu show ?thesis
    using other by (auto simp: echo_obs_def pop(2) flushed(1))
qed

interpretation echo_world: driver "echo_step e lfd" "echo_can lfd" echo_moves "echo_obs lfd" "echo_good out0"
  for e lfd out0
proof
  fix tr s i s'
  assume good: "echo_good out0 tr s" and can: "echo_can lfd s i" and step: "echo_step e lfd s i = Inr s'"
  obtain al fd where i: "i = (al, fd)" by (cases i)
  from step have "echo_event al e lfd s fd = Inr s'" by (simp add: echo_step_def i)
  from echo_event_any [OF this] good can obtain p where
    post: "q_inv (e_qu s')" "q_bytes (e_qu s') = []" "k_inv (e_k s')" and p: "prefix p (snd (echo_obs lfd s i))"
    and out: "k_out (e_k s') = (k_out (e_k s))(fd := k_out (e_k s) fd @ p)"
    by (auto simp: echo_good_def i)
  have obs: "(fd, snd (echo_obs lfd s i)) = echo_obs lfd s i" by (simp add: echo_obs_def i)
  have "pieces out0 (tr @ [echo_obs lfd s i]) (k_out (e_k s'))"
    using pieces_step [OF _ p out] good by (simp add: echo_good_def obs)
  then show "echo_good out0 (tr @ [echo_obs lfd s i]) s'"
    using post by (simp add: echo_good_def)
next
  fix tr s s'
  assume "echo_good out0 tr s" and "echo_moves s s'"
  then show "echo_good out0 tr s'"
    using kernel_moves_keeps [of "e_k s" "e_k s'"] by (simp add: echo_good_def echo_moves_def)
qed

text \<open>The state at the start of the loop, whatever happened before it.\<close>

lemma echo_start:
  assumes "echo_main al env L k [] = Inr s0" and "k_inv k"
  shows "q_inv (e_qu s0)" and "q_bytes (e_qu s0) = []" and "k_inv (e_k s0)" and "k_out (e_k s0) = k_out k"
proof -
  obtain lfd L' k0 q where start: "server_start env L k = Inr (lfd, L', k0)"
    and q: "queue_init al None 65536 = Inr (Some q)" and s0: "s0 = \<lparr>e_qu = q, e_k = k0\<rparr>"
    using assms(1) by (auto simp: echo_main_def res_simps split: option.splits)
  have "returns (queue_init (total_alloc al) None 65536)
    (\<lambda>qu. \<exists>q. qu = Some q \<and> q_inv q \<and> q_bytes q = [] \<and> q_capacity q = 65536)"
    by (rule queue_init_ok) simp_all
  then show "q_inv (e_qu s0)" "q_bytes (e_qu s0) = []"
    using impliesD [OF queue_init_total q] by (auto simp: s0)
  show "k_inv (e_k s0)" "k_out (e_k s0) = k_out k"
    using server_start_any(2,3) [OF start] assms(2) by (simp_all add: s0)
qed

text \<open>C6: in whatever way the kernel answers, memory runs out, sends fail or take only a part, and bytes and connections
  arrive: as long as the echo server has not stopped, its shared queue is empty between events, no
  descriptor is registered twice, and everything sent on a connection is put together from front parts of the
  batches received on that connection, in their order. Nothing of another client is ever among it.\<close>

theorem echo_never_leaks:
  assumes "echo_main al env L k [] = Inr s0" and "k_inv k"
    and "driven (echo_step e lfd) (echo_can lfd) echo_moves (echo_obs lfd) s0 tr s"
  shows "q_inv (e_qu s) \<and> q_bytes (e_qu s) = [] \<and> k_inv (e_k s) \<and>
    pieces (k_out k) tr (k_out (e_k s))"
proof -
  have "echo_good (k_out k) [] s0"
    using echo_start [OF assms(1,2)] by (simp add: echo_good_def pieces_start)
  from echo_world.driven_good [OF assms(3) this] show ?thesis by (simp add: echo_good_def)
qed

text \<open>A run in which a connection is accepted and its bytes arrive only then.\<close>

definition late_kernel :: "kernel \<Rightarrow> kernel" where
  "late_kernel k = k\<lparr>k_rx := (k_rx k)(7 := [RxData ''hel'', RxData ''lo''])\<rparr>"

lemma kernel_moves_late: "kernel_moves k (late_kernel k)"
  by (simp add: kernel_moves_def late_kernel_def)

theorem echo_never_leaks_witness:
  "\<exists>s0 s. echo_main zero_alloc sample_env log_initial idle_kernel [] = Inr s0 \<and>
     driven (echo_step 5 4) (echo_can 4) echo_moves (echo_obs 4) s0 [(4, []), (7, ''hello'')] s \<and>
     (\<exists>out. k_out (e_k s) 7 = out \<and> made_of [''hello''] out)"
proof -
  obtain L' k0 where start: "server_start sample_env log_initial idle_kernel = Inr (4, L', k0)"
    and k0: "registered k0 = {4}" "k_accept k0 = [7]" "k_ctl_fails k0 = []" "k_tx k0 = (\<lambda>_. [])"
    using sample_start [of idle_kernel] by (auto simp: quiet_kernel_def idle_kernel_def)
  obtain q where init: "queue_init zero_alloc None 65536 = Inr (Some q)" and q: "q_inv q" "q_bytes q = []"
    using queue_init_ok [of zero_alloc 65536] zero_alloc_ok by (auto simp: returns_iff)
  let ?s0 = "\<lparr>e_qu = q, e_k = k0\<rparr>"
  have main: "echo_main zero_alloc sample_env log_initial idle_kernel [] = Inr ?s0"
    by (simp add: echo_main_def start init)
  have "echo_inv zero_alloc ?s0"
    using q k0(3,4) queue_init_all [OF init zero_alloc_fresh] by (simp add: echo_inv_def zero_alloc_ok zero_alloc_fresh)
  moreover have "echo_ok 4 (echo_view ?s0) 4" by (simp add: echo_ok_def echo_view_def k0)
  ultimately obtain s1 where s1: "echo_event zero_alloc 5 4 ?s0 4 = Inr s1" "echo_inv zero_alloc s1"
    "echo_view s1 = echo_service 4 (echo_view ?s0) 4"
    using echo_event_ok [of zero_alloc ?s0 4 4 5] by (auto simp: returns_iff)
  let ?s1 = "s1\<lparr>e_k := late_kernel (e_k s1)\<rparr>"
  have "echo_inv zero_alloc ?s1" using s1(2) by (simp add: echo_inv_def late_kernel_def)
  moreover have "registered (e_k s1) = {4, 7}" using s1(3) by (auto simp: echo_view_def echo_service_def k0)
  then have "echo_ok 4 (echo_view ?s1) 7"
    by (simp add: echo_ok_def echo_view_def late_kernel_def registered_def no_percent_def)
  ultimately obtain s2 where s2: "echo_event zero_alloc 5 4 ?s1 7 = Inr s2"
    using echo_event_ok [of zero_alloc ?s1 4 7 5] by (auto simp: returns_iff)
  have "driven (echo_step 5 4) (echo_can 4) echo_moves (echo_obs 4) ?s0 ([] @ [echo_obs 4 ?s0 (zero_alloc, 4)]) s1"
    by (rule driven_event [OF driven_start]) (simp_all add: echo_can_def echo_step_def s1(1))
  then have "driven (echo_step 5 4) (echo_can 4) echo_moves (echo_obs 4) ?s0 ([] @ [echo_obs 4 ?s0 (zero_alloc, 4)]) ?s1"
    by (rule driven_world) (simp add: echo_moves_def kernel_moves_late)
  then have "driven (echo_step 5 4) (echo_can 4) echo_moves (echo_obs 4) ?s0
      (([] @ [echo_obs 4 ?s0 (zero_alloc, 4)]) @ [echo_obs 4 ?s1 (zero_alloc, 7)]) s2"
    by (rule driven_event) (simp add: echo_can_def late_kernel_def, simp add: echo_step_def s2)
  then have run: "driven (echo_step 5 4) (echo_can 4) echo_moves (echo_obs 4) ?s0 [(4, []), (7, ''hello'')] s2"
    by (simp add: echo_obs_def late_kernel_def)
  have "k_inv idle_kernel" by (simp add: k_inv_def idle_kernel_def quiet_kernel_def)
  from echo_never_leaks [OF main this run] have
    "\<exists>out. k_out (e_k s2) 7 = k_out idle_kernel 7 @ out \<and> made_of (batches 7 [(4, []), (7, ''hello'')]) out"
    unfolding pieces_def by blast
  then show ?thesis
    using main run by (auto simp: batches_def idle_kernel_def quiet_kernel_def)
qed

section \<open>The price server\<close>

lemma asset_prices_init_data_total [through]:
  "implies (asset_prices_init_data al ps cap) (asset_prices_init_data (total_alloc al) ps cap)"
  unfolding asset_prices_init_data_def by (intro through)

lemma asset_prices_push_total [through]:
  "implies (asset_prices_push al ps p) (asset_prices_push (total_alloc al) ps p)"
  unfolding asset_prices_push_def by (intro through)

lemma message_switch_total [through]: "implies (message_switch al s msg) (message_switch (total_alloc al) s msg)"
  unfolding message_switch_def insert_new_def by (intro through)

lemma message_loop_total [through]:
  "implies (message_loop al data n pd s) (message_loop (total_alloc al) data n pd s)"
  by (induction n arbitrary: pd s) (auto intro!: through)

lemma means_process_total [through]:
  "implies (means_process al fd cur qu s) (means_process (total_alloc al) fd cur qu s)"
  unfolding means_process_def message_parse_def Let_def by (intro through)

lemma clients_session_init_total [through]:
  "implies (clients_session_init al h p c) (clients_session_init (total_alloc al) h p c)"
  unfolding clients_session_init_def asset_prices_init_def by (intro through)

lemma clients_session_add_total [through]:
  "implies (clients_session_add al s c) (clients_session_add (total_alloc al) s c)"
  unfolding clients_session_add_def by (intro through)

definition means_step :: "int \<Rightarrow> int \<Rightarrow> means_state \<Rightarrow> allocator \<times> int \<Rightarrow> means_state res" where
  "means_step e lfd s i = (case i of (al, fd) \<Rightarrow> means_event al e lfd s fd)"

text \<open>The bytes of a client that an event works on, and the answers they ask for.\<close>

definition means_due :: "means_state \<Rightarrow> int \<Rightarrow> (asset_price list \<times> char list) option" where
  "means_due s fd = (case map_of (sl_table (m_ca s)) fd of
     None \<Rightarrow> None | Some (cs, pending) \<Rightarrow> Some (cs, pending @ drained (k_rx (m_k s) fd)))"

definition means_can :: "int \<Rightarrow> means_state \<Rightarrow> allocator \<times> int \<Rightarrow> bool" where
  "means_can lfd s i \<longleftrightarrow> (case i of (al, fd) \<Rightarrow> fd \<noteq> lfd \<longrightarrow>
     (case means_due s fd of None \<Rightarrow> True | Some (cs, bs) \<Rightarrow> length cs + length bs < 2 ^ 31))"

definition means_moves :: "means_state \<Rightarrow> means_state \<Rightarrow> bool" where
  "means_moves s s' \<longleftrightarrow> m_ca s' = m_ca s \<and> m_sdqu s' = m_sdqu s \<and> kernel_moves (m_k s) (m_k s')"

definition means_obs :: "int \<Rightarrow> means_state \<Rightarrow> allocator \<times> int \<Rightarrow> int \<times> char list" where
  "means_obs lfd s i = (snd i, if snd i = lfd then []
     else (case means_due s (snd i) of None \<Rightarrow> [] | Some (cs, bs) \<Rightarrow> snd (answer cs bs)))"

text \<open>There is one session for each connection, and only for these.\<close>

definition means_sound :: "int \<Rightarrow> means_state \<Rightarrow> bool" where
  "means_sound lfd s \<longleftrightarrow> sl_rows (m_ca s) \<and> q_inv (m_sdqu s) \<and> q_bytes (m_sdqu s) = [] \<and> k_inv (m_k s) \<and>
     lfd \<in> registered (m_k s) \<and> fst ` set (sl_table (m_ca s)) = registered (m_k s) - {lfd}"

definition sent_piece :: "int \<Rightarrow> char list \<Rightarrow> means_state \<Rightarrow> means_state \<Rightarrow> bool" where
  "sent_piece fd bs s s' \<longleftrightarrow> (\<exists>p. prefix p bs \<and> k_out (m_k s') = (k_out (m_k s))(fd := k_out (m_k s) fd @ p))"

lemma sent_piece_none: "k_out (m_k s') = k_out (m_k s) \<Longrightarrow> sent_piece fd bs s s'"
  unfolding sent_piece_def by (intro exI [of _ "[]"]) simp

lemma means_drop_any:
  assumes "means_drop e fd s1 = Inr s'" and "means_sound lfd s1" and "fd \<noteq> lfd" and "sent_piece fd bs s s1"
  shows "means_sound lfd s'" and "sent_piece fd bs s s'"
proof -
  obtain b ca k where remove: "clients_session_remove (m_ca s1) fd = Inr (b, ca)"
    and drop: "drop_connection e fd (m_k s1) = Inr k" and s': "s' = s1\<lparr>m_ca := ca, m_k := k\<rparr>"
    using assms(1) by (auto simp: means_drop_def res_simps)
  note k = drop_any [OF drop]
  have rows: "sl_rows (m_ca s1)" and keys: "fst ` set (sl_table (m_ca s1)) = registered (m_k s1) - {lfd}"
    using assms(2) by (simp_all add: means_sound_def)
  have "0 < fd" using remove by (auto simp: clients_session_remove_def split: if_splits)
  moreover have "sl_table (m_ca s1) \<noteq> []" using keys k(1) assms(3) by auto
  ultimately have ca: "sl_rows ca" "sl_table ca = filter (\<lambda>e. fst e \<noteq> fd) (sl_table (m_ca s1))"
    using sl_remove_law [OF rows, of fd] remove by (simp_all add: returns_iff)
  have "fst ` set (sl_table ca) = registered k - {lfd}"
    unfolding ca(2) fst_filter_keys keys k(2) by blast
  then show "means_sound lfd s'"
    using assms(2,3) ca(1) k by (simp add: means_sound_def s')
  show "sent_piece fd bs s s'"
    using assms(4) k(3) by (simp add: sent_piece_def s')
qed

lemma means_process_any:
  assumes "means_process al fd cur qu s = Inr (failed, s')" and "means_sound lfd s"
    and "selected (m_ca s) cur" and "cs_client_id cur = fd" and "cs_recv_qu cur = Some qu"
    and "complete (q_bytes qu)" and "ps_cells (the (cs_asset cur)) = cs" and "length cs + length (q_bytes qu) < 2 ^ 31"
  shows "means_sound lfd s'" and "sent_piece fd (snd (answer cs (q_bytes qu))) s s'"
proof -
  let ?ans = "snd (answer cs (q_bytes qu))"
  have run: "means_process (total_alloc al) fd cur qu s = Inr (failed, s')"
    by (rule impliesD [OF means_process_total assms(1)])
  have sound: "q_inv (m_sdqu s)" "q_bytes (m_sdqu s) = []"
    using assms(2) by (simp_all add: means_sound_def)
  have any: "q_all (\<lambda>_. True) (m_sdqu s)" "fresh_all (\<lambda>_. True) (total_alloc al)" "list_all (\<lambda>_. True) ?ans"
    by (simp_all add: q_all_def fresh_all_def list_all_iff)
  obtain ca sdqu where eq: "means_process (total_alloc al) fd cur qu s =
      (if ?ans = [] then Inr (False, s\<lparr>m_ca := ca, m_sdqu := flushed sdqu\<rparr>)
       else rbind (sendall fd (q_data sdqu) (int (length ?ans)) (m_k s)) (\<lambda>(rs, _, k).
         Inr (rs \<noteq> 0, s\<lparr>m_ca := ca, m_sdqu := flushed sdqu, m_k := k\<rparr>)))"
    and ca: "sl_rows ca" "sl_table ca = set_row fd (fst (answer cs (q_bytes qu)), []) (sl_table (m_ca s))"
    and sdqu: "q_inv sdqu" "q_all (\<lambda>_. True) sdqu" "q_bytes sdqu = ?ans"
    by (rule means_process_run [OF assms(3,4,5) sound any(1) total_alloc_ok any(2) assms(6-8) any(3)])
  obtain k where s': "s' = s\<lparr>m_ca := ca, m_sdqu := flushed sdqu, m_k := k\<rparr>"
    and "k = m_k s \<or> (\<exists>rs l. sendall fd (q_data sdqu) (int (length (q_bytes sdqu))) (m_k s) = Inr (rs, l, k))"
    using run eq that [of "m_k s"] by (auto simp: sdqu(3) res_simps split: if_splits)
  from flush_any [OF sdqu(1) this(2)] show "means_sound lfd s'" "sent_piece fd ?ans s s'"
    using assms(2) ca sdqu(1,3) by (simp_all add: means_sound_def sent_piece_def s')
qed

lemma means_accept_any:
  assumes "means_event al e lfd s lfd = Inr s'" and "means_sound lfd s"
  shows "means_sound lfd s' \<and> sent_piece lfd [] s s'"
proof -
  obtain new_fd k ca where acc: "fd_accept_and_epoll_add (epci e lfd) (m_k s) = Inr (new_fd, k)"
    and add: "clients_session_add al (m_ca s) new_fd = Inr ca" and s': "s' = s\<lparr>m_ca := ca, m_k := k\<rparr>"
    using assms(1) by (auto simp: means_event_def res_simps)
  note k = accept_any [OF acc]
  have sound: "sl_rows (m_ca s)" "lfd \<in> registered (m_k s)" "fst ` set (sl_table (m_ca s)) = registered (m_k s) - {lfd}"
    using assms(2) by (simp_all add: means_sound_def)
  have "0 < new_fd" using add by (auto simp: clients_session_add_def split: if_splits)
  then have "sl_rows ca" "sl_table ca = sl_table (m_ca s) @ [(new_fd, [], [])]"
    using sl_add_law [of "m_ca s" "total_alloc al" new_fd] impliesD [OF clients_session_add_total add] sound k(2)
    by (auto simp: returns_iff)
  moreover have "new_fd \<noteq> lfd" using k(2) sound(2) by blast
  ultimately have "means_sound lfd s'"
    using assms(2) k sound(3) by (auto simp: means_sound_def s')
  then show ?thesis using k(4) by (auto intro!: sent_piece_none simp: s')
qed

text \<open>What the look-up of a readable connection has found: its session is the selected one.\<close>

lemma means_finds_any:
  assumes "clients_session_find (m_ca s) fd = Inr (True, ca0)" and "means_sound lfd s"
  obtains cur qu0 where "selected ca0 cur" and "cs_client_id cur = fd" and "sl_table ca0 = sl_table (m_ca s)"
    and "cs_recv_qu cur = Some qu0" and "q_inv qu0"
    and "means_due s fd = Some (ps_cells (the (cs_asset cur)), q_bytes qu0 @ drained (k_rx (m_k s) fd))"
proof -
  have sound: "sl_rows (m_ca s)" using assms(2) by (simp add: means_sound_def)
  have pos: "0 < fd" using assms(1) by (auto simp: clients_session_find_def split: if_splits)
  have "fd \<in> fst ` set (sl_table (m_ca s))"
    using sl_find_law [OF sound pos] assms(1) by simp
  from find_selects [OF sound pos this] assms(1) obtain cur where
    sel: "selected ca0 cur" and cur: "cs_client_id cur = fd" and table: "sl_table ca0 = sl_table (m_ca s)"
    by auto
  obtain qu0 where qu0: "cs_recv_qu cur = Some qu0" "q_inv qu0"
    using selectedD(3) [OF sel] by (auto simp: session_ok_def split: option.splits)
  have "means_due s fd = Some (ps_cells (the (cs_asset cur)), q_bytes qu0 @ drained (k_rx (m_k s) fd))"
    using selectedD(4) [OF sel] cur table qu0(1) by (simp add: means_due_def view_of_def)
  with sel cur table qu0 show ?thesis by (intro that)
qed

text \<open>The part of the event behind the receive: the answers, then the connection closes or stays.\<close>

lemma means_rest_any:
  assumes "(if r < -1 then means_drop e fd s1
     else rbind (if complete bs then means_process al fd cur1 qu s1 else Inr (False, s1))
       (\<lambda>(failed, s2). if failed then means_drop e fd s2 else if r = -1 then Inr s2 else means_drop e fd s2)) = Inr s'"
    and "means_sound lfd s1" and "sent_piece fd (snd (answer cs bs)) s s1" and "fd \<noteq> lfd"
    and "\<And>failed s2. complete bs \<Longrightarrow> means_process al fd cur1 qu s1 = Inr (failed, s2) \<Longrightarrow>
      means_sound lfd s2 \<and> sent_piece fd (snd (answer cs bs)) s s2"
  shows "means_sound lfd s' \<and> sent_piece fd (snd (answer cs bs)) s s'"
  using assms means_drop_any [of e fd _ s' lfd _ s] by (auto simp: res_simps split: if_splits)

lemma means_event_any:
  assumes "means_event al e lfd s fd = Inr s'" and "means_can lfd s (al, fd)" and "means_sound lfd s"
  shows "means_sound lfd s' \<and> sent_piece fd (snd (means_obs lfd s (al, fd))) s s'"
proof (cases "fd = lfd")
  case True
  then show ?thesis using means_accept_any [of al e lfd s s'] assms by (simp add: means_obs_def)
next
  case other: False
  let ?rx = "k_rx (m_k s) fd"
  obtain ca0 where find: "clients_session_find (m_ca s) fd = Inr (True, ca0)"
    using assms(1) other by (auto simp: means_event_def res_simps split: if_splits)
  from means_finds_any [OF find assms(3)] obtain cur qu0 where
    sel: "selected ca0 cur" and cur: "cs_client_id cur = fd" and table: "sl_table ca0 = sl_table (m_ca s)"
    and qu0: "cs_recv_qu cur = Some qu0" "q_inv qu0"
    and due: "means_due s fd = Some (ps_cells (the (cs_asset cur)), q_bytes qu0 @ drained ?rx)"
    by blast
  define cs where "cs = ps_cells (the (cs_asset cur))"
  define bs where "bs = q_bytes qu0 @ drained ?rx"
  have bound: "length cs + length bs < 2 ^ 31"
    using assms(2) other due by (simp add: means_can_def cs_def bs_def)
  have obs: "snd (means_obs lfd s (al, fd)) = snd (answer cs bs)"
    using other due by (simp add: means_obs_def cs_def bs_def)
  obtain r qu k1 where recv: "recv_request al fd qu0 (m_k s) = Inr (r, qu, k1)"
    using assms(1) other by (auto simp: means_event_def find selectedD(2) [OF sel] qu0(1) res_simps)
  have lim: "length (q_bytes qu0) + length (drained ?rx) \<le> 2 ^ 40" using bound by (simp add: bs_def)
  from recv_request_any [OF recv qu0(2) lim] have qu: "q_inv qu" "q_bytes qu = bs"
    and k1: "k1 = set_rx fd (remaining ?rx) (m_k s)" by (simp_all add: bs_def)
  define cur1 where "cur1 = cur\<lparr>cs_recv_qu := Some qu\<rparr>"
  define s1 where "s1 = s\<lparr>m_ca := sl_put cur1 ca0, m_k := k1\<rparr>"
  have "session_ok cur1" using selectedD(3) [OF sel] qu(1) by (simp add: session_ok_def cur1_def)
  from sl_put_selected [OF sel this] have sel1: "selected (m_ca s1) cur1"
    and table1: "fst ` set (sl_table (m_ca s1)) = fst ` set (sl_table (m_ca s))"
    by (simp_all add: cur1_def s1_def table)
  have s1: "means_sound lfd s1" "sent_piece fd (snd (answer cs bs)) s s1"
    using assms(3) selectedD(1) [OF sel1] table1 by (auto simp: means_sound_def s1_def k1 intro!: sent_piece_none)
  have "length (q_bytes qu) < 2 ^ 31" using bound by (simp add: qu(2))
  note run = means_event_body [OF other find sel qu0(1) recv qu(1) this cur1_def s1_def, of e, unfolded qu(2)]
  have "cs_client_id cur1 = fd" "cs_recv_qu cur1 = Some qu" "ps_cells (the (cs_asset cur1)) = cs"
    by (simp_all add: cur1_def cur cs_def)
  then have "means_sound lfd s2 \<and> sent_piece fd (snd (answer cs bs)) s s2"
    if "complete bs" "means_process al fd cur1 qu s1 = Inr (failed, s2)" for failed s2
    using means_process_any [of al fd cur1 qu s1 failed s2 lfd cs] that s1 sel1 bound qu(2)
    by (auto simp: sent_piece_def s1_def k1)
  then show ?thesis
    unfolding obs using means_rest_any [OF assms(1) [unfolded run] s1 other] by blast
qed

definition means_good :: "int \<Rightarrow> (int \<Rightarrow> char list) \<Rightarrow> (int \<times> char list) list \<Rightarrow> means_state \<Rightarrow> bool" where
  "means_good lfd out0 tr s \<longleftrightarrow> means_sound lfd s \<and> pieces out0 tr (k_out (m_k s))"

interpretation means_world: driver "means_step e lfd" "means_can lfd" means_moves "means_obs lfd" "means_good lfd out0"
  for e lfd out0
proof
  fix tr s i s'
  assume good: "means_good lfd out0 tr s" and can: "means_can lfd s i" and step: "means_step e lfd s i = Inr s'"
  obtain al fd where i: "i = (al, fd)" by (cases i)
  from step have "means_event al e lfd s fd = Inr s'" by (simp add: means_step_def i)
  from means_event_any [OF this] good can obtain p where post: "means_sound lfd s'"
    and p: "prefix p (snd (means_obs lfd s i))" and out: "k_out (m_k s') = (k_out (m_k s))(fd := k_out (m_k s) fd @ p)"
    by (auto simp: means_good_def sent_piece_def i)
  have obs: "(fd, snd (means_obs lfd s i)) = means_obs lfd s i" by (simp add: means_obs_def i)
  have "pieces out0 (tr @ [means_obs lfd s i]) (k_out (m_k s'))"
    using pieces_step [OF _ p out] good by (simp add: means_good_def obs)
  then show "means_good lfd out0 (tr @ [means_obs lfd s i]) s'"
    using post by (simp add: means_good_def)
next
  fix tr s s'
  assume "means_good lfd out0 tr s" and "means_moves s s'"
  then show "means_good lfd out0 tr s'"
    using kernel_moves_keeps [of "m_k s" "m_k s'"] by (simp add: means_good_def means_sound_def means_moves_def)
qed

lemma means_start:
  assumes "means_main al env L k [] = Inr (Running s0)" and "server_start env L k = Inr (lfd, L', k0)"
    and "k_inv k" and "registered k = {}"
  shows "means_sound lfd s0" and "k_out (m_k s0) = k_out k"
proof -
  obtain q where q: "queue_init al None 65536 = Inr (Some q)" and s0: "s0 = \<lparr>m_ca = no_sessions, m_sdqu = q, m_k = k0\<rparr>"
    using assms(1,2) by (auto simp: means_main_def res_simps split: option.splits)
  have "returns (queue_init (total_alloc al) None 65536)
    (\<lambda>qu. \<exists>q. qu = Some q \<and> q_inv q \<and> q_bytes q = [] \<and> q_capacity q = 65536)"
    by (rule queue_init_ok) simp_all
  then have "q_inv q" "q_bytes q = []"
    using impliesD [OF queue_init_total q] by auto
  then show "means_sound lfd s0"
    using server_start_any [OF assms(2)] assms(3,4) no_sessions_rows by (simp add: means_sound_def s0)
  show "k_out (m_k s0) = k_out k" using server_start_any(2) [OF assms(2)] by (simp add: s0)
qed

text \<open>C7: in whatever way the kernel answers, memory runs out, sends fail, and bytes and connections arrive: as long as the
  price server has not stopped it keeps exactly one session for each open connection and none for any other, its
  send queue is empty between events, and everything sent on a connection is put together from front parts of the
  answers due to that client, computed from its own prices and requests alone.\<close>

theorem means_sessions_match_connections:
  assumes "means_main al env L k [] = Inr (Running s0)" and "server_start env L k = Inr (lfd, L', k0)"
    and "k_inv k" and "registered k = {}"
    and "driven (means_step e lfd) (means_can lfd) means_moves (means_obs lfd) s0 tr s"
  shows "distinct (map fst (sl_table (m_ca s))) \<and> fst ` set (sl_table (m_ca s)) = registered (m_k s) - {lfd} \<and>
    q_bytes (m_sdqu s) = [] \<and> pieces (k_out k) tr (k_out (m_k s))"
proof -
  have "means_good lfd (k_out k) [] s0"
    using means_start [OF assms(1-4)] by (simp add: means_good_def pieces_start)
  from means_world.driven_good [OF assms(5) this] show ?thesis
    by (simp add: means_good_def means_sound_def sl_rows_def)
qed

theorem means_sessions_match_connections_witness:
  "\<exists>s0 s. means_main zero_alloc sample_env log_initial idle_kernel [] = Inr (Running s0) \<and>
     driven (means_step 5 4) (means_can 4) means_moves (means_obs 4) s0 [(4, []), (7, [])] s \<and>
     fst ` set (sl_table (m_ca s)) = registered (m_k s) - {4} \<and> k_out (m_k s) 7 = []"
proof -
  obtain L' k0 where start: "server_start sample_env log_initial idle_kernel = Inr (4, L', k0)"
    and k0: "registered k0 = {4}" "k_accept k0 = [7]" "k_ctl_fails k0 = []" "k_tx k0 = (\<lambda>_. [])"
    using sample_start [of idle_kernel] by (auto simp: quiet_kernel_def idle_kernel_def)
  obtain q where init: "queue_init zero_alloc None 65536 = Inr (Some q)" and q: "q_inv q" "q_bytes q = []"
    using queue_init_ok [of zero_alloc 65536] zero_alloc_ok by (auto simp: returns_iff)
  let ?s0 = "\<lparr>m_ca = no_sessions, m_sdqu = q, m_k = k0\<rparr>"
  have main: "means_main zero_alloc sample_env log_initial idle_kernel [] = Inr (Running ?s0)"
    by (simp add: means_main_def start init)
  have "means_inv zero_alloc 4 ?s0"
    using q k0 queue_init_all [OF init zero_alloc_fresh] no_sessions_rows
    by (simp add: means_inv_def zero_alloc_ok zero_alloc_fresh)
  moreover have "means_ok 4 (means_view ?s0) 4" by (simp add: means_ok_def means_view_def k0)
  ultimately obtain s1 where s1: "means_event zero_alloc 5 4 ?s0 4 = Inr s1" "means_inv zero_alloc 4 s1"
    "means_view s1 = means_service 4 (means_view ?s0) 4"
    using means_event_ok [of zero_alloc 4 ?s0 4 5] by (auto simp: returns_iff)
  have table: "sl_table (m_ca s1) = [(7, [], [])]"
    using s1(3) no_sessions_rows by (simp add: means_view_def means_service_def k0)
  let ?s1 = "s1\<lparr>m_k := late_kernel (m_k s1)\<rparr>"
  have due: "means_due ?s1 7 = Some ([], ''hello'')"
    by (simp add: means_due_def table late_kernel_def)
  have "means_inv zero_alloc 4 ?s1" using s1(2) by (simp add: means_inv_def late_kernel_def registered_def)
  moreover have "means_ok 4 (means_view ?s1) 7"
    by (simp add: means_ok_def means_view_def table late_kernel_def answer_def complete_def)
  ultimately obtain s2 where s2: "means_event zero_alloc 5 4 ?s1 7 = Inr s2"
    using means_event_ok [of zero_alloc 4 ?s1 7 5] by (auto simp: returns_iff)
  have "driven (means_step 5 4) (means_can 4) means_moves (means_obs 4) ?s0 ([] @ [means_obs 4 ?s0 (zero_alloc, 4)]) s1"
    by (rule driven_event [OF driven_start]) (simp_all add: means_can_def means_step_def s1(1))
  then have "driven (means_step 5 4) (means_can 4) means_moves (means_obs 4) ?s0
      ([] @ [means_obs 4 ?s0 (zero_alloc, 4)]) ?s1"
    by (rule driven_world) (simp add: means_moves_def kernel_moves_late)
  then have "driven (means_step 5 4) (means_can 4) means_moves (means_obs 4) ?s0
      (([] @ [means_obs 4 ?s0 (zero_alloc, 4)]) @ [means_obs 4 ?s1 (zero_alloc, 7)]) s2"
    by (rule driven_event) (simp add: means_can_def due, simp add: means_step_def s2)
  then have run: "driven (means_step 5 4) (means_can 4) means_moves (means_obs 4) ?s0 [(4, []), (7, [])] s2"
    by (simp add: means_obs_def due answer_def complete_def)
  have idle: "k_inv idle_kernel" "registered idle_kernel = {}"
    by (simp_all add: k_inv_def registered_def idle_kernel_def quiet_kernel_def)
  note result = means_sessions_match_connections [OF main start idle run]
  then have "\<exists>bs. k_out (m_k s2) 7 = k_out idle_kernel 7 @ bs \<and> made_of (batches 7 [(4, []), (7, [])]) bs"
    unfolding pieces_def by blast
  then have "k_out (m_k s2) 7 = []"
    by (auto simp: batches_def idle_kernel_def quiet_kernel_def made_of_def list_all2_Cons2)
  with main run result show ?thesis by blast
qed

end
