(* ===== verification/Prime.thy ===== *)
theory Prime
  imports Queue
begin

text \<open>
  \<open>prime-time/is-prime-request.c\<close>: splitting the received bytes into lines with \<open>strtok_r\<close>, deciding
  whether a line is a well-formed request, the primality test, and the responses. The JSON
  library json-c is not part of the sources: the calls the code makes are the record \<open>json_lib\<close>, any
  implementation of which may be given.
\<close>

section \<open>The JSON library\<close>

datatype json_type = Json_string | Json_int | Json_double | Json_other_type

text \<open>
  \<open>json_tokener_parse\<close>, \<open>json_object_object_get\<close>, \<open>json_object_get_type\<close>, \<open>json_object_get_string\<close> (a C string),
  and \<open>json_object_get_int64\<close> with whether it sets \<open>errno\<close>.
\<close>

record 'j json_lib =
  js_parse :: "char list \<Rightarrow> 'j option"
  js_get :: "'j \<Rightarrow> char list \<Rightarrow> 'j option"
  js_type :: "'j \<Rightarrow> json_type"
  js_string :: "'j \<Rightarrow> char list option"
  js_int64 :: "'j \<Rightarrow> int \<times> bool"

section \<open>Requests\<close>

text \<open>
  \<open>number\<close> is an \<open>int64_t\<close>. It is not set for a malformed request, and read all the same; its first
  value is whatever the stack holds.
\<close>

record is_prime_request =
  ip_is_prime :: bool
  ip_is_malformed :: bool
  ip_number :: int

definition is_prime_init :: "allocator \<Rightarrow> bool \<Rightarrow> is_prime_request res" where
  "is_prime_init al junk =
     (if al 16 = None then Inl Null_deref
      else Inr \<lparr>ip_is_prime = False, ip_is_malformed = junk, ip_number = 0\<rparr>)"

definition is_prime_free :: "is_prime_request option \<Rightarrow> is_prime_request option res" where
  "is_prime_free request = (case request of None \<Rightarrow> Inl Assert_failed | Some _ \<Rightarrow> Inr None)"

text \<open>\<open>strncmp(a, b, n) == 0\<close> on C strings.\<close>

definition strncmp_eq :: "char list \<Rightarrow> char list \<Rightarrow> nat \<Rightarrow> bool" where
  "strncmp_eq a b n \<longleftrightarrow> take n a = take n b"

text \<open>
  Every early return, in order. When the conversion of the number fails, the freed object is printed
  with \<open>%s\<close>.
\<close>

definition is_prime_request_malformed ::
  "'j json_lib \<Rightarrow> is_prime_request \<Rightarrow> char list \<Rightarrow> (bool \<times> is_prime_request) res" where
  "is_prime_request_malformed J request req =
     (let ill = (True, request\<lparr>ip_is_malformed := True\<rparr>) in
      case js_parse J req of
        None \<Rightarrow> Inr ill
      | Some root \<Rightarrow>
          (case js_get J root ''method'' of
             None \<Rightarrow> Inr ill
           | Some mthd \<Rightarrow>
               if js_type J mthd \<noteq> Json_string then Inr ill
               else (case js_string J mthd of
                       None \<Rightarrow> Inr ill
                     | Some method_value \<Rightarrow>
                         if \<not> strncmp_eq ''isPrime'' method_value 7 then Inr ill
                         else (case js_get J root ''number'' of
                                 None \<Rightarrow> Inr ill
                               | Some number \<Rightarrow>
                                   if js_type J number = Json_double
                                   then Inr (False, request\<lparr>ip_is_malformed := False, ip_number := -1\<rparr>)
                                   else if js_type J number \<noteq> Json_int then Inr ill
                                   else (case js_int64 J number of
                                           (v, err) \<Rightarrow>
                                             if err then Inl Use_after_free
                                             else Inr (False, request\<lparr>ip_is_malformed := False,
                                                                      ip_number := v\<rparr>))))))"

section \<open>The primality test\<close>

text \<open>The loop \<open>for (int64_t i = 2; i * i <= number; i++)\<close>; the product may overflow.\<close>

function prime_loop :: "int \<Rightarrow> int \<Rightarrow> bool res" where
  "prime_loop number i =
     (if i * i \<ge> 2 ^ 63 then Inl Signed_overflow
      else if i * i \<le> number
      then (if number mod i = 0 then Inr False else prime_loop number (i + 1))
      else Inr True)"
  by pat_completeness auto

lemma self_le_square: "(i :: int) \<le> i * i"
proof (cases "i \<le> 0")
  case True
  then show ?thesis using zero_le_square [of i] by linarith
next
  case False
  then show ?thesis using mult_mono [of 1 i i i] by simp
qed

termination prime_loop
proof (relation "measure (\<lambda>(number, i). nat (number + 1 - i))")
  fix number i :: int
  assume "i * i \<le> number"
  with self_le_square [of i] have "i \<le> number" by linarith
  then show "((number, i + 1), (number, i)) \<in> measure (\<lambda>(number, i). nat (number + 1 - i))"
    by simp
qed simp

declare prime_loop.simps [simp del]

definition is_prime_f :: "int \<Rightarrow> bool res" where
  "is_prime_f number = (if number \<le> 1 then Inr False else prime_loop number 2)"

section \<open>Responses\<close>

definition NL :: char where "NL = CHR 0x0A"

definition quote :: char where "quote = CHR 0x22"

definition quoted :: "char list \<Rightarrow> char list" where
  "quoted s = quote # s @ [quote]"

definition ill_response :: "char list" where
  "ill_response = ''{'' @ quoted ''response to malformed request'' @ ''}'' @ [NL]"

definition prime_response :: "bool \<Rightarrow> char list" where
  "prime_response b = ''{'' @ quoted ''method'' @ '':'' @ quoted ''isPrime'' @ '','' @ quoted ''prime'' @ '':'' @
     (if b then ''true'' else ''false'') @ ''}'' @ [NL]"

text \<open>
  \<open>is_prime_beget_response\<close>: what it writes at \<open>response\<close> (the NUL of \<open>sprintf\<close> included), and \<open>*size\<close>.
\<close>

definition is_prime_beget_response :: "is_prime_request \<Rightarrow> char list \<times> nat" where
  "is_prime_beget_response request =
     (if ip_is_malformed request then (take 34 ill_response, 34)
      else (prime_response (ip_is_prime request) @ [NUL], length (prime_response (ip_is_prime request))))"

section \<open>Splitting and handling\<close>

text \<open>
  \<open>strtok_r\<close> with the delimiter newline, from offset \<open>start\<close> of an object: skip newlines, cut at the
  next one. The result is the token's offset (\<open>None\<close> for \<open>NULL\<close>), the saved offset, and the memory with
  the delimiter overwritten. Without a NUL in the object it reads past the end.
\<close>

definition strtok_r :: "char list \<Rightarrow> nat \<Rightarrow> (nat option \<times> nat \<times> char list) res" where
  "strtok_r mem start =
     (let t = start + length (takeWhile (\<lambda>c. c = NL) (drop start mem)) in
      if t \<ge> length mem then Inl Out_of_bounds
      else if mem ! t = NUL then Inr (None, t, mem)
      else (let e = t + length (takeWhile (\<lambda>c. c \<noteq> NL \<and> c \<noteq> NUL) (drop t mem)) in
            if e \<ge> length mem then Inl Out_of_bounds
            else if mem ! e = NUL then Inr (Some t, e, mem)
            else Inr (Some t, e + 1, mem[e := NUL])))"

lemma strtok_r_progress:
  assumes "strtok_r mem start = Inr (Some t, save, mem')"
  shows "start \<le> t" and "t < save" and "save \<le> length mem" and "length mem' = length mem"
proof -
  let ?w = "takeWhile (\<lambda>c. c \<noteq> NL \<and> c \<noteq> NUL) (drop t mem)"
  have t: "t = start + length (takeWhile (\<lambda>c. c = NL) (drop start mem))" "t < length mem" "mem ! t \<noteq> NUL"
    using assms by (auto simp: strtok_r_def Let_def split: if_splits)
  have "mem ! t \<noteq> NL"
    using nth_length_takeWhile [of "\<lambda>c. c = NL" "drop start mem"] t by (simp add: add.commute)
  moreover have "drop t mem = mem ! t # drop (Suc t) mem"
    using t(2) by (simp add: Cons_nth_drop_Suc)
  ultimately have "0 < length ?w" using t(3) by simp
  with assms t show "start \<le> t" and "t < save" and "save \<le> length mem" and "length mem' = length mem"
    by (auto simp: strtok_r_def Let_def split: if_splits)
qed

lemma strtok_r_shrinks:
  assumes "strtok_r mem start = Inr (Some t, save, mem')"
  shows "length mem' - save < length mem - start"
  using strtok_r_progress [OF assms] by simp

text \<open>
  The loop of \<open>is_prime_request_builder\<close>. Responses are written at the head of the send queue before
  their room is claimed. The result is the number of requests handled, \<open>*malformed\<close>, the send
  queue, and the memory of the raw request, in which delimiters have become NULs.
\<close>

function builder_loop ::
  "allocator \<Rightarrow> 'j json_lib \<Rightarrow> nat \<Rightarrow> is_prime_request \<Rightarrow> queue \<Rightarrow> bool \<Rightarrow> char list \<Rightarrow> nat \<Rightarrow> int \<Rightarrow>
     (int \<times> bool \<times> queue \<times> char list) res" where
  "builder_loop al J req_size request sdq mal mem pos j =
     rbind (strtok_r mem pos) (\<lambda>(tok, save, mem').
       case tok of
         None \<Rightarrow> Inr (j - 1, mal, sdq, mem')
       | Some t \<Rightarrow>
           if t \<ge> req_size then Inr (j - 1, mal, sdq, mem')
           else rbind (c_string (drop t mem')) (\<lambda>req.
                rbind (is_prime_request_malformed J request req) (\<lambda>(mal, request).
                rbind (is_prime_f (ip_number request)) (\<lambda>b.
                case is_prime_beget_response (request\<lparr>ip_is_prime := b\<rparr>) of (bytes, size_n) \<Rightarrow>
                rbind (poke (q_data sdq) (q_head sdq) bytes) (\<lambda>d.
                rbind (queue_push_ex al (sdq\<lparr>q_data := d\<rparr>) (of_nat size_n)) (\<lambda>sdq.
                if mal then Inr (j, mal, sdq, mem')
                else builder_loop al J req_size (request\<lparr>ip_is_prime := b\<rparr>) sdq mal mem' save (j + 1)))))))"
  by pat_completeness auto

termination builder_loop
proof (relation "measure (\<lambda>(al, J, n, r, sdq, mal, mem, pos, j). length mem - pos)", goal_cases)
  case 1
  then show ?case by simp
next
  case (2 al J n r sdq mal mem pos j a t save mem')
  then show ?case
    by (auto dest!: strtok_r_shrinks)
qed

declare builder_loop.simps [simp del]

definition is_prime_request_builder ::
  "allocator \<Rightarrow> 'j json_lib \<Rightarrow> is_prime_request \<Rightarrow> queue \<Rightarrow> char list \<Rightarrow> nat \<Rightarrow> bool \<Rightarrow>
     (int \<times> bool \<times> queue \<times> char list) res" where
  "is_prime_request_builder al J junk sdq raw_request req_size malformed =
     (if \<not> req_size > 0 then Inl Assert_failed
      else builder_loop al J req_size junk sdq malformed raw_request 0 1)"

section \<open>Correctness of the primality test\<close>

definition prime_int :: "int \<Rightarrow> bool" where
  "prime_int n \<longleftrightarrow> 1 < n \<and> (\<forall>d. 1 < d \<longrightarrow> d < n \<longrightarrow> \<not> d dvd n)"

text \<open>The largest \<open>int64_t\<close> whose square is one.\<close>

definition ROOT :: int where "ROOT = 3037000499"

lemma ROOT_square: "ROOT * ROOT < 2 ^ 63" "2 ^ 63 \<le> (ROOT + 1) * (ROOT + 1)"
  by (simp_all add: ROOT_def)

lemma square_mono: "0 \<le> (a :: int) \<Longrightarrow> a \<le> b \<Longrightarrow> a * a \<le> b * b"
  by (intro mult_mono) simp_all

lemma prime_loop_step:
  assumes "2 \<le> i" and "i \<le> ROOT"
  shows "prime_loop number i =
    (if i * i \<le> number then if i dvd number then Inr False else prime_loop number (i + 1) else Inr True)"
proof -
  have "\<not> 2 ^ 63 \<le> i * i"
    using square_mono [of i ROOT] assms ROOT_square(1) by linarith
  then show ?thesis by (subst prime_loop.simps) (simp add: dvd_eq_mod_eq_0)
qed

lemma prime_loop_overflows: "prime_loop number (ROOT + 1) = Inl Signed_overflow"
  using ROOT_square(2) by (subst prime_loop.simps) simp

lemma prime_loop_exact:
  "2 \<le> i \<Longrightarrow> i \<le> ROOT + 1 \<Longrightarrow> (i - 1) * (i - 1) \<le> number \<Longrightarrow>
   prime_loop number i =
     (if \<exists>d. i \<le> d \<and> d \<le> ROOT \<and> d * d \<le> number \<and> d dvd number then Inr False
      else if ROOT * ROOT \<le> number then Inl Signed_overflow else Inr True)"
proof (induction "nat (ROOT + 1 - i)" arbitrary: i)
  case 0
  then have "i = ROOT + 1" by simp
  then show ?case using "0.prems"(3) prime_loop_overflows by auto
next
  case (Suc m)
  then have i: "i \<le> ROOT" by simp
  have larger: "i * i \<le> d * d" if "i \<le> d" for d
    using square_mono [of i d] that Suc.prems(1) by simp
  consider (beyond) "\<not> i * i \<le> number" | (divides) "i * i \<le> number" "i dvd number"
    | (next_one) "i * i \<le> number" "\<not> i dvd number" by blast
  then show ?case
  proof cases
    case beyond
    then have "\<not> d * d \<le> number" if "i \<le> d" for d using larger [OF that] by linarith
    then show ?thesis
      using beyond i prime_loop_step [OF Suc.prems(1) i] by auto
  next
    case divides
    then show ?thesis
      using i prime_loop_step [OF Suc.prems(1) i] by auto
  next
    case next_one
    then have "(\<exists>d. i \<le> d \<and> d \<le> ROOT \<and> d * d \<le> number \<and> d dvd number)
        = (\<exists>d. i + 1 \<le> d \<and> d \<le> ROOT \<and> d * d \<le> number \<and> d dvd number)"
      by (metis add1_zle_eq le_less)
    then show ?thesis
      using next_one prime_loop_step [OF Suc.prems(1) i] Suc.hyps(1) [of "i + 1"] Suc.hyps(2) Suc.prems(1) i by simp
  qed
qed

lemma small_divisor:
  assumes "1 < (d :: int)" and "d < n" and "d dvd n"
  shows "\<exists>c. 2 \<le> c \<and> c * c \<le> n \<and> c dvd n"
proof -
  obtain e where e: "n = d * e" using assms(3) by blast
  have "0 < e"
  proof (rule ccontr)
    assume "\<not> 0 < e"
    then have "d * e \<le> 0" using assms(1) by (simp add: mult_nonneg_nonpos)
    then show False using e assms(1,2) by linarith
  qed
  moreover have "e \<noteq> 1" using e assms(2) by auto
  ultimately have "2 \<le> e" by linarith
  show ?thesis
  proof (cases "d \<le> e")
    case True
    then have "d * d \<le> n" using e assms(1) by (simp add: mult_left_mono)
    then show ?thesis using assms by (intro exI [of _ d]) simp
  next
    case False
    then have "e * e \<le> n" using e \<open>0 < e\<close> by (simp add: mult_right_mono)
    then show ?thesis using e \<open>2 \<le> e\<close> by (intro exI [of _ e]) simp
  qed
qed

lemma is_prime_f_ok:
  assumes "n < ROOT * ROOT"
  shows "is_prime_f n = Inr (prime_int n)"
proof (cases "n \<le> 1")
  case True
  then show ?thesis by (simp add: is_prime_f_def prime_int_def)
next
  case False
  have "(\<exists>d. 2 \<le> d \<and> d \<le> ROOT \<and> d * d \<le> n \<and> d dvd n) = (\<not> prime_int n)"
  proof
    assume "\<exists>d. 2 \<le> d \<and> d \<le> ROOT \<and> d * d \<le> n \<and> d dvd n"
    then obtain d where d: "2 \<le> d" "d * d \<le> n" "d dvd n" by blast
    have "d * 2 \<le> d * d" using d(1) by (intro mult_left_mono) simp_all
    then have "d < n" using d by linarith
    moreover have "1 < d" using d(1) by simp
    ultimately show "\<not> prime_int n" using d(3) unfolding prime_int_def by blast
  next
    assume "\<not> prime_int n"
    then obtain d where "1 < d" "d < n" "d dvd n" using False by (auto simp: prime_int_def)
    then obtain c where c: "2 \<le> c" "c * c \<le> n" "c dvd n" using small_divisor by blast
    have "c \<le> ROOT"
    proof (rule ccontr)
      assume "\<not> c \<le> ROOT"
      then have "ROOT * ROOT \<le> c * c" by (intro square_mono) (simp_all add: ROOT_def)
      then show False using c(2) assms by linarith
    qed
    with c show "\<exists>d. 2 \<le> d \<and> d \<le> ROOT \<and> d * d \<le> n \<and> d dvd n" by blast
  qed
  moreover have "\<not> ROOT * ROOT \<le> n" using assms by simp
  ultimately show ?thesis
    using prime_loop_exact [of 2 n] False by (auto simp: is_prime_f_def ROOT_def)
qed

section \<open>Lines\<close>

text \<open>The non-empty pieces between newlines.\<close>

function lines_of :: "char list \<Rightarrow> char list list" where
  "lines_of xs =
     (let ys = dropWhile (\<lambda>c. c = NL) xs in
      if ys = [] then [] else takeWhile (\<lambda>c. c \<noteq> NL) ys # lines_of (dropWhile (\<lambda>c. c \<noteq> NL) ys))"
  by pat_completeness auto

termination lines_of
proof (relation "measure length")
  fix xs ys :: "char list"
  assume ys: "ys = dropWhile (\<lambda>c. c = NL) xs" "ys \<noteq> []"
  then have "hd ys \<noteq> NL" using hd_dropWhile [of "\<lambda>c. c = NL" xs] by simp
  then have "length (dropWhile (\<lambda>c. c \<noteq> NL) ys) < length ys"
    using ys(2) by (cases ys) (simp_all add: le_imp_less_Suc length_dropWhile_le)
  also have "length ys \<le> length xs" by (simp add: ys(1) length_dropWhile_le)
  finally show "(dropWhile (\<lambda>c. c \<noteq> NL) ys, xs) \<in> measure length" by simp
qed simp

declare lines_of.simps [simp del]

lemma lines_of_newlines: "\<forall>c \<in> set nls. c = NL \<Longrightarrow> lines_of (nls @ xs) = lines_of xs"
  by (subst (1 2) lines_of.simps) (simp add: dropWhile_append2)

lemma lines_of_Nil [simp]: "lines_of [] = []"
  by (simp add: lines_of.simps)

lemma lines_of_line:
  assumes "w \<noteq> []" and "NL \<notin> set w"
  shows "lines_of (w @ NL # xs) = w # lines_of xs"
proof -
  have w: "\<forall>c \<in> set w. c \<noteq> NL" using assms(2) by blast
  have "dropWhile (\<lambda>c. c = NL) (w @ NL # xs) = w @ NL # xs"
    using assms by (cases w) auto
  then have "lines_of (w @ NL # xs) = w # lines_of (NL # xs)"
    using w assms(1) by (subst lines_of.simps) (simp add: takeWhile_append2 dropWhile_append2)
  also have "lines_of (NL # xs) = lines_of xs"
    using lines_of_newlines [of "[NL]" xs] by simp
  finally show ?thesis .
qed

text \<open>Text that ends with a newline is either newlines only or begins, after newlines, with a line.\<close>

definition terminated :: "char list \<Rightarrow> bool" where
  "terminated xs \<longleftrightarrow> (xs = [] \<or> last xs = NL) \<and> NUL \<notin> set xs"

lemma terminated_cases:
  assumes "terminated inp"
  obtains (none) "\<forall>c \<in> set inp. c = NL"
  | (line) nls w rest where "inp = nls @ w @ NL # rest" "\<forall>c \<in> set nls. c = NL" "w \<noteq> []"
      "\<forall>c \<in> set w. c \<noteq> NL \<and> c \<noteq> NUL" "terminated rest"
proof (cases "\<forall>c \<in> set inp. c = NL")
  case True
  then show ?thesis by (rule none)
next
  case False
  define nls where "nls = takeWhile (\<lambda>c. c = NL) inp"
  define ys where "ys = dropWhile (\<lambda>c. c = NL) inp"
  define w where "w = takeWhile (\<lambda>c. c \<noteq> NL) ys"
  have split: "inp = nls @ ys" by (simp add: nls_def ys_def)
  have "ys \<noteq> []" using False by (auto simp: ys_def dropWhile_eq_Nil_conv)
  moreover have "hd ys \<noteq> NL"
    using hd_dropWhile [of "\<lambda>c. c = NL" inp] \<open>ys \<noteq> []\<close> by (simp add: ys_def)
  ultimately have w: "w \<noteq> []" by (cases ys) (simp_all add: w_def)
  have "last ys = NL" using assms \<open>ys \<noteq> []\<close> split by (simp add: terminated_def)
  then have "NL \<in> set ys" using \<open>ys \<noteq> []\<close> by (metis last_in_set)
  then obtain u rest where u: "ys = u @ NL # rest" "NL \<notin> set u"
    using split_list_first [of NL ys] by blast
  have wu: "w = u"
    unfolding w_def u(1) using u(2) by (subst takeWhile_append2) auto
  have full: "inp = nls @ w @ NL # rest"
    unfolding wu by (simp only: split u(1))
  have "\<forall>c \<in> set nls. c = NL" by (auto simp: nls_def dest: set_takeWhileD)
  moreover have "\<forall>c \<in> set w. c \<noteq> NL \<and> c \<noteq> NUL"
    using assms u(2) unfolding full wu by (auto simp: terminated_def)
  moreover have "terminated rest"
    using assms unfolding full by (auto simp: terminated_def split: if_splits)
  ultimately show ?thesis using line [OF full _ w] by blast
qed

lemma strtok_line:
  assumes "\<forall>c \<in> set nls. c = NL" and "w \<noteq> []" and "\<forall>c \<in> set w. c \<noteq> NL \<and> c \<noteq> NUL"
  shows "strtok_r (pre @ nls @ w @ NL # rest) (length pre)
    = Inr (Some (length pre + length nls), length pre + length nls + length w + 1, pre @ nls @ w @ NUL # rest)"
proof -
  obtain c cs where w: "w = c # cs" using assms(2) by (cases w) auto
  have "takeWhile (\<lambda>c. c = NL) (nls @ w @ NL # rest) = nls"
    using assms(1,3) by (simp add: takeWhile_append2 w)
  moreover have "takeWhile (\<lambda>c. c \<noteq> NL \<and> c \<noteq> NUL) (w @ NL # rest) = w"
    using assms(3) by (simp add: takeWhile_append2)
  moreover have "NL \<noteq> NUL" by (simp add: NL_def NUL_def)
  moreover have "(pre @ nls @ w @ NL # rest) ! (length pre + length nls + length w) = NL"
    by (simp add: nth_append)
  moreover have "(pre @ nls @ w @ NL # rest) ! (length pre + length nls) = c"
    by (simp add: nth_append w)
  moreover have "(pre @ nls @ w @ NL # rest)[length pre + length nls + length w := NUL] = pre @ nls @ w @ NUL # rest"
    by (simp add: list_update_append)
  ultimately show ?thesis
    using assms(3) by (simp add: strtok_r_def Let_def w)
qed

lemma lines_of_decomposed:
  "\<forall>c \<in> set nls. c = NL \<Longrightarrow> w \<noteq> [] \<Longrightarrow> \<forall>c \<in> set w. c \<noteq> NL \<and> c \<noteq> NUL \<Longrightarrow>
   lines_of (nls @ w @ NL # rest) = w # lines_of rest"
  by (subst lines_of_newlines) (auto intro!: lines_of_line)

text \<open>After the last line the tokenizer runs on into what follows; a NUL there stops it.\<close>

lemma strtok_rest:
  assumes "\<forall>c \<in> set nls. c = NL" and "NUL \<in> set slack"
  shows "\<exists>tok save mem'. strtok_r (pre @ nls @ slack) (length pre) = Inr (tok, save, mem') \<and>
    length mem' = length (pre @ nls @ slack) \<and> (\<forall>t. tok = Some t \<longrightarrow> length pre + length nls \<le> t)"
proof -
  let ?mem = "pre @ nls @ slack"
  define skip where "skip = takeWhile (\<lambda>c. c = NL) slack"
  define after where "after = dropWhile (\<lambda>c. c = NL) slack"
  have slack: "slack = skip @ after" by (simp add: skip_def after_def)
  have "NL \<noteq> NUL" by (simp add: NL_def NUL_def)
  then have "NUL \<notin> set skip" by (auto simp: skip_def dest: set_takeWhileD)
  then have nul: "NUL \<in> set after" using assms(2) slack by auto
  then have after: "after \<noteq> []" by auto
  have t: "length pre + length (takeWhile (\<lambda>c. c = NL) (drop (length pre) ?mem)) = length pre + length nls + length skip"
    using assms(1) by (simp add: takeWhile_append2 skip_def)
  let ?t = "length pre + length nls + length skip"
  have len: "length ?mem = ?t + length after" by (simp add: slack)
  have drop: "drop ?t ?mem = after" by (simp add: slack)
  have at: "?mem ! ?t = hd after" using after by (simp add: slack nth_append hd_conv_nth)
  show ?thesis
  proof (cases "hd after = NUL")
    case True
    then show ?thesis
      using after unfolding strtok_r_def Let_def t at len by (simp add: slack)
  next
    case False
    let ?w = "takeWhile (\<lambda>c. c \<noteq> NL \<and> c \<noteq> NUL) after"
    have "length ?w < length after"
    proof (rule ccontr)
      assume "\<not> length ?w < length after"
      then have "?w = after"
        by (metis length_takeWhile_le linorder_neqE_nat not_less takeWhile_eq_take take_all order_refl)
      then show False using nul by (metis (mono_tags, lifting) set_takeWhileD)
    qed
    then show ?thesis
      using False after unfolding strtok_r_def Let_def t at len drop by (simp add: slack)
  qed
qed

section \<open>Requests and replies\<close>

text \<open>
  What a line asks for: \<open>None\<close> for a malformed one. A fractional number counts as -1. Any method name that
  begins with \<open>isPrime\<close> is taken.
\<close>

definition request_number :: "'j json_lib \<Rightarrow> char list \<Rightarrow> int option" where
  "request_number J line =
     Option.bind (js_parse J line) (\<lambda>root.
     Option.bind (js_get J root ''method'') (\<lambda>m.
     Option.bind (if js_type J m = Json_string then js_string J m else None) (\<lambda>name.
     Option.bind (if take 7 name = ''isPrime'' then js_get J root ''number'' else None) (\<lambda>n.
     case js_type J n of
       Json_double \<Rightarrow> Some (-1)
     | Json_int \<Rightarrow> Some (fst (js_int64 J n))
     | _ \<Rightarrow> None))))"

text \<open>json-c converts a JSON integer to \<open>int64_t\<close> without setting \<open>errno\<close>.\<close>

definition json_total :: "'j json_lib \<Rightarrow> bool" where
  "json_total J \<longleftrightarrow> (\<forall>j. js_type J j = Json_int \<longrightarrow> \<not> snd (js_int64 J j))"

definition reply :: "'j json_lib \<Rightarrow> char list \<Rightarrow> char list" where
  "reply J line = (case request_number J line of None \<Rightarrow> ill_response | Some n \<Rightarrow> prime_response (prime_int n))"

text \<open>Lines are handled up to the first malformed one, included.\<close>

fun handled :: "'j json_lib \<Rightarrow> char list list \<Rightarrow> char list list" where
  "handled J [] = []"
| "handled J (l # ls) = l # (if request_number J l = None then [] else handled J ls)"

definition some_malformed :: "'j json_lib \<Rightarrow> char list list \<Rightarrow> bool" where
  "some_malformed J ls \<longleftrightarrow> list_ex (\<lambda>l. request_number J l = None) ls"

lemma is_prime_request_malformed_ok:
  assumes "json_total J"
  shows "is_prime_request_malformed J r line = Inr (case request_number J line of
      None \<Rightarrow> (True, r\<lparr>ip_is_malformed := True\<rparr>)
    | Some n \<Rightarrow> (False, r\<lparr>ip_is_malformed := False, ip_number := n\<rparr>))"
  using assms
  by (auto simp: is_prime_request_malformed_def request_number_def strncmp_eq_def json_total_def
      Let_def split: option.splits prod.splits json_type.splits)

section \<open>Writing a response\<close>

definition response :: "is_prime_request \<Rightarrow> char list" where
  "response r = (if ip_is_malformed r then ill_response else prime_response (ip_is_prime r))"

lemma reply_length: "length (reply J l) \<le> 36"
proof -
  have "length (prime_response b) \<le> 36" for b
    by (cases b) (simp_all add: prime_response_def quoted_def)
  then show ?thesis by (simp add: reply_def ill_response_def quoted_def split: option.split)
qed

definition response_chars :: "(char \<Rightarrow> bool) \<Rightarrow> bool" where
  "response_chars P \<longleftrightarrow> list_all P (ill_response @ prime_response True @ prime_response False @ [NUL])"

lemma response_lengths: "length ill_response = 34" "length (prime_response True) = 34" "length (prime_response False) = 35"
  by (simp_all add: ill_response_def prime_response_def quoted_def)

lemma beget_response:
  obtains bytes n where "is_prime_beget_response r = (bytes, n)" and "0 < n" and "n \<le> 35" and "length bytes \<le> 36"
    and "n \<le> length bytes" and "take n bytes = response r" and "response_chars P \<Longrightarrow> list_all P bytes"
proof (cases "ip_is_malformed r")
  case True
  then show ?thesis
    using that [of ill_response 34]
    by (simp add: is_prime_beget_response_def response_def response_lengths response_chars_def)
next
  case False
  then show ?thesis
    using that [of "prime_response (ip_is_prime r) @ [NUL]" "length (prime_response (ip_is_prime r))"]
    by (cases "ip_is_prime r")
      (simp_all add: is_prime_beget_response_def response_def response_lengths response_chars_def)
qed

text \<open>
  The send queue, with room for one response at its head: the code writes there without a check, and
  the growth policy keeps the room, from 2048 bytes on.
\<close>

definition sdq_ok :: "allocator \<Rightarrow> (char \<Rightarrow> bool) \<Rightarrow> queue \<Rightarrow> bool" where
  "sdq_ok al P q \<longleftrightarrow> q_inv q \<and> alloc_ok al \<and> fresh_all P al \<and> q_all P q \<and>
     2048 \<le> unat (q_capacity q) \<and> unat (q_size q) + 36 \<le> unat (q_capacity q)"

lemma respond_ok:
  assumes "sdq_ok al P q" and "response_chars P" and "length (q_bytes q) + 36 \<le> 2 ^ 40"
    and "is_prime_beget_response r = (bytes, n)"
  shows "returns (rbind (poke (q_data q) (q_head q) bytes)
      (\<lambda>d. queue_push_ex al (q\<lparr>q_data := d\<rparr>) (of_nat n)))
    (\<lambda>q'. sdq_ok al P q' \<and> q_bytes q' = q_bytes q @ response r)"
proof -
  have b: "0 < n" "n \<le> 35" "length bytes \<le> 36" "n \<le> length bytes" "take n bytes = response r" "list_all P bytes"
    using beget_response [of r P] assms(2,4) by (metis prod.inject)+
  have inv: "q_inv q" "alloc_ok al" "fresh_all P al" "q_all P q" "2048 \<le> unat (q_capacity q)"
    "unat (q_size q) + 36 \<le> unat (q_capacity q)"
    using assms(1) by (simp_all add: sdq_ok_def)
  have len: "length (q_data q) = unat (q_capacity q)" "q_head q = unat (q_size q)"
    using inv(1) by (simp_all add: q_inv_def)
  let ?d = "take (q_head q) (q_data q) @ bytes @ drop (q_head q + length bytes) (q_data q)"
  let ?q = "q\<lparr>q_data := ?d\<rparr>"
  have fit: "q_head q + length bytes \<le> length (q_data q)" using len inv(6) b(3) by simp
  have n: "unat (of_nat n :: size_t) = n" using b(2) by (intro unat_of_nat_small) simp
  then have "(of_nat n :: size_t) \<noteq> 0" using b(1) by (metis less_irrefl unat_0)
  moreover have "q_inv ?q" using inv(1) fit by (auto simp: q_inv_def)
  moreover have "unat (q_size ?q) + unat (of_nat n :: size_t) \<le> 2 ^ 40"
    using assms(3) b(2) q_inv_length [OF inv(1)] by (simp add: n)
  moreover have "unat (of_nat n :: size_t) \<le> unat (q_free ?q)"
    using q_inv_free [OF inv(1)] inv(6) b(2) by (simp add: n)
  ultimately obtain q' where q': "queue_push_ex al ?q (of_nat n) = Inr q'" "q_inv q'"
    "unat (q_size q') = unat (q_size q) + n" "q_bytes q' = take (unat (q_size q) + n) ?d"
    "q_grown ?q (unat (q_size q) + n) q'" "9 * unat (q_size q') < 4 * unat (q_capacity q') + 4 * n"
    using queue_push_ex_ok [of ?q al "of_nat n"] inv(2) by (auto simp: returns_iff n)
  have cap: "2048 \<le> unat (q_capacity q')" using q'(5) inv(5) by (simp add: q_grown_def)
  have "unat (q_size q') + 36 \<le> unat (q_capacity q')"
    using q'(6) cap b(2) by linarith
  moreover have "q_all P q'"
  proof (rule queue_push_ex_all [OF q'(1) inv(3)])
    show "q_all P ?q"
      using poke_all [OF poke_in [OF fit], of P] inv(4) b(6) by (simp add: q_all_def list_all_iff)
  qed
  moreover have "q_bytes q' = q_bytes q @ response r"
    using q'(4) len inv(6) b(4,5) by (simp add: q_bytes_def)
  ultimately have "sdq_ok al P q' \<and> q_bytes q' = q_bytes q @ response r"
    using q'(2) cap inv by (simp add: sdq_ok_def)
  then show ?thesis using q'(1) by (simp add: poke_in [OF fit])
qed

section \<open>The builder answers the lines\<close>

definition small_numbers :: "'j json_lib \<Rightarrow> char list list \<Rightarrow> bool" where
  "small_numbers J ls \<longleftrightarrow> list_all (\<lambda>l. case request_number J l of None \<Rightarrow> True | Some n \<Rightarrow> n < ROOT * ROOT) ls"

text \<open>One turn of the loop: the first line that is left is answered, and the loop goes on behind it.\<close>

lemma builder_loop_line:
  assumes "json_total J" and "response_chars P" and "sdq_ok al P q" and "length (q_bytes q) + 36 \<le> 2 ^ 40"
    and "\<forall>c \<in> set nls. c = NL" and "w \<noteq> []" and "\<forall>c \<in> set w. c \<noteq> NL \<and> c \<noteq> NUL"
    and "ip_number r < ROOT * ROOT" and "\<forall>x. request_number J w = Some x \<longrightarrow> x < ROOT * ROOT"
    and "length pre + length nls + length w < n"
  obtains r2 q1 where "builder_loop al J n r q False (pre @ nls @ w @ [NL] @ rest) (length pre) j =
      (if request_number J w = None then Inr (j, True, q1, (pre @ nls @ w @ [NUL]) @ rest)
       else builder_loop al J n r2 q1 False ((pre @ nls @ w @ [NUL]) @ rest) (length (pre @ nls @ w @ [NUL])) (j + 1))"
    and "sdq_ok al P q1" and "q_bytes q1 = q_bytes q @ reply J w" and "ip_number r2 < ROOT * ROOT"
proof -
  let ?pre = "pre @ nls @ w @ [NUL]"
  have tok: "strtok_r (pre @ nls @ w @ [NL] @ rest) (length pre) = Inr (Some (length pre + length nls), length ?pre, ?pre @ rest)"
    using strtok_line [OF assms(5-7), of pre rest] by simp
  have req: "c_string (drop (length pre + length nls) (?pre @ rest)) = Inr w"
    using assms(7) by (auto simp: c_string_def takeWhile_append2)
  define r1 where "r1 = (case request_number J w of
      None \<Rightarrow> r\<lparr>ip_is_malformed := True\<rparr> | Some n \<Rightarrow> r\<lparr>ip_is_malformed := False, ip_number := n\<rparr>)"
  have mal: "is_prime_request_malformed J r w = Inr (request_number J w = None, r1)"
    using is_prime_request_malformed_ok [OF assms(1), of r w] by (simp add: r1_def split: option.splits)
  have num: "ip_number r1 < ROOT * ROOT" using assms(8,9) by (auto simp: r1_def split: option.splits)
  define r2 where "r2 = r1\<lparr>ip_is_prime := prime_int (ip_number r1)\<rparr>"
  obtain bytes m where bytes: "is_prime_beget_response r2 = (bytes, m)" by fastforce
  have resp: "response r2 = reply J w"
    by (simp add: response_def reply_def r2_def r1_def split: option.splits)
  from respond_ok [OF assms(3,2,4) bytes] obtain d q1 where d: "poke (q_data q) (q_head q) bytes = Inr d"
    and q1: "queue_push_ex al (q\<lparr>q_data := d\<rparr>) (of_nat m) = Inr q1" "sdq_ok al P q1" "q_bytes q1 = q_bytes q @ reply J w"
    by (auto simp: returns_iff res_simps resp)
  have more: "\<not> n \<le> length pre + length nls" using assms(10) by simp
  have "builder_loop al J n r q False (pre @ nls @ w @ [NL] @ rest) (length pre) j =
      (if request_number J w = None then Inr (j, True, q1, ?pre @ rest)
       else builder_loop al J n r2 q1 False (?pre @ rest) (length ?pre) (j + 1))"
    apply (subst builder_loop.simps)
    apply (simp only: tok rbind_Inr prod.case option.case if_not_P [OF more] req mal is_prime_f_ok [OF num])
    apply (simp only: r2_def [symmetric] bytes prod.case d rbind_Inr q1(1))
    apply (cases "request_number J w"; simp)
    done
  with q1(2,3) num show ?thesis by (intro that [of q1 r2]) (simp_all add: r2_def)
qed

lemma builder_loop_ok:
  assumes "json_total J" and "response_chars P" and "NUL \<in> set slack"
  shows "terminated inp \<Longrightarrow> small_numbers J (lines_of inp) \<Longrightarrow> ip_number r < ROOT * ROOT \<Longrightarrow> sdq_ok al P q \<Longrightarrow>
    length (q_bytes q) + 36 * (length (lines_of inp) + 1) \<le> 2 ^ 40 \<Longrightarrow>
    returns (builder_loop al J (length pre + length inp) r q False (pre @ inp @ slack) (length pre) j)
      (\<lambda>(n, mal, q', mem'). n = j - 1 + int (length (handled J (lines_of inp))) \<and>
         mal = some_malformed J (lines_of inp) \<and> sdq_ok al P q' \<and>
         q_bytes q' = q_bytes q @ concat (map (reply J) (handled J (lines_of inp))) \<and>
         length mem' = length (pre @ inp @ slack))"
proof (induction "length inp" arbitrary: inp pre r q j rule: less_induct)
  case less
  let ?n = "length pre + length inp" and ?mem = "pre @ inp @ slack"
  from less.prems(1) show ?case
  proof (cases rule: terminated_cases)
    case none
    have "lines_of (inp @ []) = lines_of []" using none by (rule lines_of_newlines)
    then have no_lines: "lines_of inp = []" by simp
    obtain tok save mem' where tok: "strtok_r ?mem (length pre) = Inr (tok, save, mem')"
      "length mem' = length ?mem" "\<forall>t. tok = Some t \<longrightarrow> ?n \<le> t"
      using strtok_rest [OF none assms(3), of pre] by blast
    then have "builder_loop al J ?n r q False ?mem (length pre) j = Inr (j - 1, False, q, mem')"
      by (subst builder_loop.simps) (cases tok; simp)
    then show ?thesis using less.prems(4) no_lines tok(2) by (simp add: some_malformed_def)
  next
    case (line nls w rest)
    let ?pre = "pre @ nls @ w @ [NUL]"
    have lines: "lines_of inp = w # lines_of rest"
      unfolding line(1) using line(2-4) by (rule lines_of_decomposed)
    have room: "length (q_bytes q) + 36 \<le> 2 ^ 40" and more: "length pre + length nls + length w < ?n"
      and small: "\<forall>x. request_number J w = Some x \<longrightarrow> x < ROOT * ROOT"
      using less.prems(2,5) lines by (simp_all add: line(1) small_numbers_def split: option.splits)
    have mem: "?mem = pre @ nls @ w @ [NL] @ rest @ slack" and n: "?n = length ?pre + length rest"
      and len: "length (?pre @ rest @ slack) = length ?mem"
      by (simp_all add: line(1))
    obtain r2 q1 where step: "builder_loop al J ?n r q False ?mem (length pre) j =
        (if request_number J w = None then Inr (j, True, q1, ?pre @ rest @ slack)
         else builder_loop al J ?n r2 q1 False (?pre @ rest @ slack) (length ?pre) (j + 1))"
      and q1: "sdq_ok al P q1" "q_bytes q1 = q_bytes q @ reply J w" and num: "ip_number r2 < ROOT * ROOT"
      using builder_loop_line [OF assms(1,2) less.prems(4) room line(2-4) less.prems(3) small more, of "rest @ slack" j]
      unfolding mem [symmetric] by blast
    show ?thesis
    proof (cases "request_number J w = None")
      case True
      then show ?thesis
        unfolding step using q1 lines line(1) by (simp add: some_malformed_def)
    next
      case False
      have "small_numbers J (lines_of rest)" using less.prems(2) lines by (simp add: small_numbers_def)
      moreover have "length (q_bytes q1) + 36 * (length (lines_of rest) + 1) \<le> 2 ^ 40"
        using less.prems(5) lines reply_length [of J w] by (simp add: q1(2))
      ultimately have "returns (builder_loop al J (length ?pre + length rest) r2 q1 False (?pre @ rest @ slack) (length ?pre) (j + 1))
        (\<lambda>(n, mal, q', mem'). n = j + 1 - 1 + int (length (handled J (lines_of rest))) \<and>
         mal = some_malformed J (lines_of rest) \<and> sdq_ok al P q' \<and>
         q_bytes q' = q_bytes q1 @ concat (map (reply J) (handled J (lines_of rest))) \<and>
         length mem' = length (?pre @ rest @ slack))"
        using line(5) q1(1) num by (intro less.hyps) (simp_all add: line(1))
      then show ?thesis
        using False len unfolding step unfolding n by (auto simp: lines some_malformed_def q1(2) elim!: returns_mono)
    qed
  qed
qed

text \<open>The tokenizer overwrites bytes with NULs only.\<close>

definition nulled :: "char list \<Rightarrow> char list \<Rightarrow> bool" where
  "nulled mem mem' \<longleftrightarrow> list_all2 (\<lambda>a b. b = a \<or> b = NUL) mem mem'"

lemma nulled_refl [simp]: "nulled mem mem"
  by (simp add: nulled_def list_all2_refl)

lemma nulled_trans: "nulled a b \<Longrightarrow> nulled b c \<Longrightarrow> nulled a c"
  unfolding nulled_def by (rule list_all2_trans) auto

lemma strtok_r_nulled: "strtok_r mem start = Inr (tok, save, mem') \<Longrightarrow> nulled mem mem'"
  by (auto simp: strtok_r_def Let_def nulled_def list_all2_conv_all_nth nth_list_update split: if_splits)

lemma builder_loop_nulled:
  "builder_loop al J n r q mal mem pos j = Inr (m, mal', q', mem') \<Longrightarrow> nulled mem mem'"
proof (induction al J n r q mal mem pos j rule: builder_loop.induct)
  case (1 al J n r q mal mem pos j)
  note prems = "1.prems" [unfolded builder_loop.simps [of al J n r q mal mem pos j]]
  from prems obtain tok save mem1 where tok: "strtok_r mem pos = Inr (tok, save, mem1)"
    by (auto simp: res_simps)
  note here = strtok_r_nulled [OF tok]
  show ?case
  proof (cases "case tok of None \<Rightarrow> True | Some t \<Rightarrow> n \<le> t")
    case True
    with prems tok here show ?thesis by (auto split: option.splits)
  next
    case False
    then obtain t where t: "tok = Some t" "\<not> n \<le> t" by (cases tok) auto
    obtain req mal1 r1 b where
      step1: "c_string (drop t mem1) = Inr req" "is_prime_request_malformed J r req = Inr (mal1, r1)"
        "is_prime_f (ip_number r1) = Inr b"
      using prems tok t by (auto simp: res_simps)
    obtain bytes k where resp: "is_prime_beget_response (r1\<lparr>ip_is_prime := b\<rparr>) = (bytes, k)" by fastforce
    obtain d q1 where step: "poke (q_data q) (q_head q) bytes = Inr d" "queue_push_ex al (q\<lparr>q_data := d\<rparr>) (of_nat k) = Inr q1"
      and result: "(if mal1 then Inr (j, mal1, q1, mem1)
        else builder_loop al J n (r1\<lparr>ip_is_prime := b\<rparr>) q1 mal1 mem1 save (j + 1)) = Inr (m, mal', q', mem')"
      using prems tok t step1 resp by (auto simp: res_simps)
    have "nulled mem1 mem'"
      using "1.IH" [OF tok refl refl t step1(1,2) refl step1(3) resp [symmetric] step(1,2)] result
      by (cases mal1) simp_all
    with here show ?thesis by (rule nulled_trans)
  qed
qed

lemma nulled_last:
  assumes "nulled mem mem'" and "mem \<noteq> []" and "last mem = NUL"
  shows "length mem' = length mem" and "last mem' = NUL"
proof -
  have all: "length mem' = length mem" "\<forall>i < length mem. mem' ! i = mem ! i \<or> mem' ! i = NUL"
    using assms(1) by (auto simp: nulled_def list_all2_conv_all_nth)
  then have "mem' \<noteq> []" using assms(2) by auto
  moreover have "mem' ! (length mem - 1) = mem ! (length mem - 1) \<or> mem' ! (length mem - 1) = NUL"
    using all(2) assms(2) by simp
  ultimately show "length mem' = length mem" and "last mem' = NUL"
    using all(1) assms(2,3) by (auto simp: last_conv_nth)
qed

section \<open>Properties\<close>

text \<open>C11: the primality test agrees with primality wherever it returns, and it returns for every number below
  \<open>ROOT * ROOT\<close> and for every larger one with a divisor up to \<open>ROOT\<close>; on the remaining ones, the primes
  near \<open>2 ^ 63\<close> among them, the product \<open>i * i\<close> overflows.\<close>

theorem is_prime_f_exact:
  "is_prime_f n =
     (if n < ROOT * ROOT \<or> (\<exists>d. 2 \<le> d \<and> d \<le> ROOT \<and> d dvd n) then Inr (prime_int n)
      else Inl Signed_overflow)"
proof (cases "n < ROOT * ROOT")
  case True
  then show ?thesis by (simp add: is_prime_f_ok)
next
  case False
  have big: "2 \<le> n" using False by (simp add: ROOT_def)
  have square: "d * d \<le> n" if "2 \<le> d" "d \<le> ROOT" for d
    using square_mono [of d ROOT] that False by linarith
  have loop: "is_prime_f n = (if \<exists>d. 2 \<le> d \<and> d \<le> ROOT \<and> d * d \<le> n \<and> d dvd n then Inr False
      else Inl Signed_overflow)"
  proof -
    have "2 \<le> ROOT + 1" by (simp add: ROOT_def)
    from prime_loop_exact [OF order_refl this, of n] show ?thesis
      using big False by (auto simp: is_prime_f_def)
  qed
  show ?thesis
  proof (cases "\<exists>d. 2 \<le> d \<and> d \<le> ROOT \<and> d dvd n")
    case True
    then obtain d where d: "2 \<le> d" "d \<le> ROOT" "d dvd n" by blast
    have "d < n" using d(2) False by (simp add: ROOT_def)
    with d have "\<not> prime_int n" unfolding prime_int_def by (metis one_less_numeral_iff order_less_le_trans semiring_norm(76))
    then show ?thesis using loop square d by auto
  next
    case none: False
    then show ?thesis using loop False by auto
  qed
qed

text \<open>C10: the handler of one batch of complete lines, with no NUL in them and all numbers and the one left on the stack below \<open>ROOT * ROOT\<close>, answers them in order, each by its own
  reply, up to and including the first malformed one; it reports how many it handled and whether that was
  because of a malformed one, and leaves the queue with room for the next response (given room for the first, a NUL behind the batch, memory
  that does not run out and a JSON library that sets no errno for integers).\<close>

theorem builder_answers_lines:
  assumes "json_total J" and "NUL \<in> set slack" and "terminated inp" and "inp \<noteq> []"
    and "small_numbers J (lines_of inp)" and "ip_number junk < ROOT * ROOT" and "sdq_ok al (\<lambda>_. True) q"
    and "length (q_bytes q) + 36 * (length (lines_of inp) + 1) \<le> 2 ^ 40"
  shows "returns (is_prime_request_builder al J junk q (inp @ slack) (length inp) False)
    (\<lambda>(n, mal, q', mem'). n = int (length (handled J (lines_of inp))) \<and>
       mal = some_malformed J (lines_of inp) \<and> sdq_ok al (\<lambda>_. True) q' \<and>
       q_bytes q' = q_bytes q @ concat (map (reply J) (handled J (lines_of inp))))"
proof -
  have "response_chars (\<lambda>_. True)" by (simp add: response_chars_def list_all_iff)
  from builder_loop_ok [OF assms(1) this assms(2,3,5-8), of "[]" 1] show ?thesis
    using assms(4) by (auto simp: is_prime_request_builder_def elim!: returns_mono)
qed

text \<open>A JSON library for the examples: the text is a string of digits, an object with this number.\<close>

fun digits_of :: "int \<Rightarrow> char list \<Rightarrow> int option" where
  "digits_of n [] = Some n"
| "digits_of n (c # cs) =
     (let d = int (of_char c) - 48 in if 0 \<le> d \<and> d \<le> 9 then digits_of (10 * n + d) cs else None)"

definition toy_json :: "int option json_lib" where
  "toy_json = \<lparr>js_parse = (\<lambda>xs. map_option Some (digits_of 0 xs)),
     js_get = (\<lambda>j key. if key = ''method'' then Some None else Some j),
     js_type = (\<lambda>j. if j = None then Json_string else Json_int),
     js_string = (\<lambda>_. Some ''isPrime''), js_int64 = (\<lambda>j. (case j of None \<Rightarrow> 0 | Some n \<Rightarrow> n, False))\<rparr>"

definition toy_send_queue :: queue where
  "toy_send_queue = \<lparr>q_data = replicate 2048 NUL, q_capacity = 2048, q_size = 0, q_free = 2048, q_head = 0\<rparr>"

lemma toy_send_queue_ok: "P NUL \<Longrightarrow> sdq_ok zero_alloc P toy_send_queue"
  by (simp add: sdq_ok_def toy_send_queue_def q_inv_def q_all_def fresh_all_def zero_alloc_def alloc_ok_def)

lemma toy_lines: "lines_of ([CHR ''7'', NL, NL, CHR ''4'', NL, CHR ''x'', NL]) = [''7'', ''4'', ''x'']"
  by (simp add: lines_of.simps NL_def Let_def)

theorem builder_answers_lines_witness:
  "returns (is_prime_request_builder zero_alloc toy_json \<lparr>ip_is_prime = True, ip_is_malformed = False, ip_number = 9\<rparr>
      toy_send_queue ([CHR ''7'', NL, NL, CHR ''4'', NL, CHR ''x'', NL] @ [NUL]) 7 False)
    (\<lambda>(n, mal, q', mem'). n = 3 \<and> mal \<and>
       q_bytes q' = prime_response True @ prime_response False @ ill_response)"
proof -
  let ?inp = "[CHR ''7'', NL, NL, CHR ''4'', NL, CHR ''x'', NL]"
  let ?r = "\<lparr>ip_is_prime = True, ip_is_malformed = False, ip_number = 9\<rparr>"
  have nums: "request_number toy_json ''7'' = Some 7" "request_number toy_json ''4'' = Some 4"
    "request_number toy_json ''x'' = None"
    by (simp_all add: request_number_def toy_json_def Let_def)
  have primes: "prime_int 7" "\<not> prime_int 4"
    using is_prime_f_ok [of 7] is_prime_f_ok [of 4]
    by (simp_all add: is_prime_f_def prime_loop.simps ROOT_def)
  have "returns (is_prime_request_builder zero_alloc toy_json ?r toy_send_queue (?inp @ [NUL]) (length ?inp) False)
    (\<lambda>(n, mal, q', mem'). n = int (length (handled toy_json (lines_of ?inp))) \<and>
       mal = some_malformed toy_json (lines_of ?inp) \<and> sdq_ok zero_alloc (\<lambda>_. True) q' \<and>
       q_bytes q' = q_bytes toy_send_queue @ concat (map (reply toy_json) (handled toy_json (lines_of ?inp))))"
  proof (rule builder_answers_lines)
    show "json_total toy_json" by (simp add: json_total_def toy_json_def split: option.split)
    show "small_numbers toy_json (lines_of ?inp)"
      by (simp only: toy_lines) (simp add: small_numbers_def nums ROOT_def)
    show "sdq_ok zero_alloc (\<lambda>_. True) toy_send_queue" by (rule toy_send_queue_ok) simp
    show "length (q_bytes toy_send_queue) + 36 * (length (lines_of ?inp) + 1) \<le> 2 ^ 40"
      by (simp only: toy_lines) (simp add: q_bytes_def toy_send_queue_def)
  qed (simp_all add: terminated_def NL_def NUL_def ROOT_def)
  moreover have "length ?inp = 7" by simp
  ultimately show ?thesis
    by (simp only: toy_lines)
      (auto simp: nums primes reply_def some_malformed_def q_bytes_def toy_send_queue_def elim!: returns_mono)
qed

text \<open>C33: what the request parser decides, on every branch: it reports malformed exactly the lines that ask for
  no number, sets the flag of the request to what it reports, stores the number asked for and
  leaves the rest; and it fails only where the conversion of a number sets \<open>errno\<close>.\<close>

theorem malformed_decides:
  "case is_prime_request_malformed J r line of
     Inl e \<Rightarrow> e = Use_after_free \<and> \<not> json_total J
   | Inr (mal, r') \<Rightarrow> mal = (request_number J line = None) \<and>
       r' = r\<lparr>ip_is_malformed := mal, ip_number := (case request_number J line of None \<Rightarrow> ip_number r | Some n \<Rightarrow> n)\<rparr>"
  by (cases r) (auto simp: is_prime_request_malformed_def request_number_def strncmp_eq_def json_total_def
      Let_def split: option.splits prod.splits json_type.splits if_splits)

end
