(* ===== verification/PrimeMain.thy ===== *)
theory PrimeMain
  imports Prime Echo
begin

text \<open>
  The prime server \<open>prime-time/main.c\<close>: one receive queue and one send queue shared by all
  connections, \<open>handle_request\<close>, and the event loop. \<open>prime_event\<close> is the body of the loop over the
  events, \<open>prime_wait\<close> one round of the outer loop, \<open>prime_main\<close> the program over any finite
  sequence of answers of \<open>epoll_wait\<close>.
\<close>

section \<open>Handling a request\<close>

text \<open>
  \<open>handle_request\<close>: 0 for a malformed request, 1 for success, -1 when nothing was handled. \<open>junk\<close> is what
  the stack holds where the builder keeps its request. The result is the return value, the
  send queue and the memory of the raw request.
\<close>

definition handle_request ::
  "allocator \<Rightarrow> 'j json_lib \<Rightarrow> is_prime_request \<Rightarrow> queue \<Rightarrow> char list \<Rightarrow> nat \<Rightarrow> (int \<times> queue \<times> char list) res" where
  "handle_request al J junk sdq raw_req sz =
     (if sz = 0 then Inr (1, sdq, raw_req)
      else rbind (is_prime_request_builder al J junk sdq raw_req sz False) (\<lambda>(r, mal, sdq, raw_req).
        if r \<le> 0 then Inr (-1, sdq, raw_req)
        else Inr (if mal then 0 else 1, sdq, raw_req)))"

section \<open>The event loop\<close>

record prime_state =
  p_rcqu :: queue
  p_sdqu :: queue
  p_k :: kernel

text \<open>
  The test for a complete request looks for a newline anywhere (\<open>memrchr\<close>). The builder works in the memory of the
  receive queue, which keeps its NULs. \<open>stk\<close> gives the contents of the stack.
\<close>

definition prime_event ::
  "allocator \<Rightarrow> 'j json_lib \<Rightarrow> (prime_state \<Rightarrow> is_prime_request) \<Rightarrow> int \<Rightarrow> int \<Rightarrow> prime_state \<Rightarrow> int \<Rightarrow> prime_state res" where
  "prime_event al J stk epollfd listen_fd s fd =
     (if fd = listen_fd
      then rbind (fd_accept_and_epoll_add (epci epollfd fd) (p_k s)) (\<lambda>(_, k). Inr (s\<lparr>p_k := k\<rparr>))
      else rbind (recv_request al fd (p_rcqu s) (p_k s)) (\<lambda>(r, rcqu, k).
        if r < -1 then rbind (drop_connection epollfd fd k) (\<lambda>k. Inr (s\<lparr>p_rcqu := rcqu, p_k := k\<rparr>))
        else (case queue_peek rcqu of (sz, peeked) \<Rightarrow>
          rbind (if sz > 0
                 then (case peeked of None \<Rightarrow> Inl Uninitialised
                       | Some mem \<Rightarrow> rbind (peek mem 0 (nat sz)) (\<lambda>bs. Inr (NL \<in> set bs)))
                 else Inr False) (\<lambda>complete.
          if complete
          then (case queue_pop_no_copy rcqu of (sz, popped, rcqu) \<Rightarrow>
            (case popped of
               None \<Rightarrow> Inl Uninitialised
             | Some mem \<Rightarrow>
                rbind (handle_request al J (stk s) (p_sdqu s) mem (nat sz)) (\<lambda>(result, sdqu, mem).
                let rcqu = rcqu\<lparr>q_data := mem\<rparr> in
                case queue_pop_no_copy sdqu of (sdsize, sddata, sdqu) \<Rightarrow>
                rbind (if sdsize > 0
                       then (case sddata of
                               None \<Rightarrow> Inl Uninitialised
                             | Some mem \<Rightarrow> rbind (sendall fd mem sdsize k) (\<lambda>(rs, _, k). Inr (rs, k)))
                       else Inr (0, k)) (\<lambda>(rs, k).
                if result \<le> 0 \<or> rs \<noteq> 0
                then rbind (drop_connection epollfd fd k) (\<lambda>k. Inr \<lparr>p_rcqu = rcqu, p_sdqu = sdqu, p_k = k\<rparr>)
                else if r = -1 then Inr \<lparr>p_rcqu = rcqu, p_sdqu = sdqu, p_k = k\<rparr>
                else rbind (drop_connection epollfd fd k) (\<lambda>k. Inr \<lparr>p_rcqu = rcqu, p_sdqu = sdqu, p_k = k\<rparr>)))))
          else if r = -1 then Inr (s\<lparr>p_rcqu := rcqu, p_k := k\<rparr>)
          else rbind (drop_connection epollfd fd k) (\<lambda>k. Inr (s\<lparr>p_rcqu := rcqu, p_k := k\<rparr>))))))"

definition prime_wait ::
  "allocator \<Rightarrow> 'j json_lib \<Rightarrow> (prime_state \<Rightarrow> is_prime_request) \<Rightarrow> int \<Rightarrow> int \<Rightarrow> prime_state \<Rightarrow> wait \<Rightarrow> prime_state res" where
  "prime_wait al J stk epollfd listen_fd s w =
     (case w of
        Wait_error \<Rightarrow> Inl Exit_failure
      | Timeout \<Rightarrow> Inr s
      | Events fds \<Rightarrow> run_res (prime_event al J stk epollfd listen_fd) s fds)"

definition prime_main ::
  "allocator \<Rightarrow> 'j json_lib \<Rightarrow> (prime_state \<Rightarrow> is_prime_request) \<Rightarrow> server_env \<Rightarrow> logger \<Rightarrow> kernel \<Rightarrow> wait list \<Rightarrow> prime_state res" where
  "prime_main al J stk env L k waits =
     rbind (server_start env L k) (\<lambda>(listen_fd, L, k).
     rbind (queue_init al None 2048) (\<lambda>rcqu.
     rbind (queue_init al None 2048) (\<lambda>sdqu.
       case (rcqu, sdqu) of
         (Some rq, Some sq) \<Rightarrow>
           run_res (prime_wait al J stk (env_epollfd env) listen_fd) \<lparr>p_rcqu = rq, p_sdqu = sq, p_k = k\<rparr> waits
       | _ \<Rightarrow> Inl Null_deref)))"

section \<open>What an event does\<close>

text \<open>
  The shared receive queue holds the bytes of incomplete requests, whoever sent them. The
  state is well-formed when its buffer ends in a NUL, which stops the tokenizer, and the send
  queue is empty with room for a response.
\<close>

definition prime_env_ok :: "'j json_lib \<Rightarrow> (prime_state \<Rightarrow> is_prime_request) \<Rightarrow> bool" where
  "prime_env_ok J stk \<longleftrightarrow> json_total J \<and> (\<forall>s. ip_number (stk s) < ROOT * ROOT)"

definition prime_inv ::
  "allocator \<Rightarrow> 'j json_lib \<Rightarrow> (prime_state \<Rightarrow> is_prime_request) \<Rightarrow> prime_state \<Rightarrow> bool" where
  "prime_inv al J stk s \<longleftrightarrow> prime_env_ok J stk \<and> zeroed al \<and> q_inv (p_rcqu s) \<and> ends_nul (p_rcqu s) \<and>
     sdq_ok al no_percent (p_sdqu s) \<and> q_bytes (p_sdqu s) = [] \<and>
     k_ctl_fails (p_k s) = [] \<and> k_tx (p_k s) = (\<lambda>_. [])"

type_synonym prime_view = "char list \<times> echo_view"

definition prime_view :: "prime_state \<Rightarrow> prime_view" where
  "prime_view s = (q_bytes (p_rcqu s), k_out (p_k s), k_rx (p_k s), registered (p_k s), k_accept (p_k s))"

text \<open>
  An event is admissible when, once a newline is there, the bytes that have piled up end with one,
  and no number in them is beyond \<open>ROOT * ROOT\<close>.
\<close>

definition prime_ok :: "'j json_lib \<Rightarrow> int \<Rightarrow> prime_view \<Rightarrow> int \<Rightarrow> bool" where
  "prime_ok J listen_fd v fd =
     (case v of (pending, out, rx, conns, acc) \<Rightarrow>
        if fd = listen_fd then acc \<noteq> [] \<and> hd acc \<noteq> -1 \<and> hd acc \<notin> conns
        else 0 < fd \<and> fd \<in> conns \<and> 36 * (length pending + length (drained (rx fd)) + 1) < 2 ^ 31 \<and>
          (stop_code (rx fd) < -1 \<or> NL \<notin> set (pending @ drained (rx fd)) \<or>
           terminated (pending @ drained (rx fd)) \<and>
           small_numbers J (lines_of (pending @ drained (rx fd)))))"

text \<open>
  The service: the bytes of an event are appended to what is pending. If a newline is among them,
  all lines are answered on the connection of this event. The connection is closed
  at its end, on an error, and after a batch with no request or a malformed one.
\<close>

definition prime_service :: "'j json_lib \<Rightarrow> int \<Rightarrow> prime_view \<Rightarrow> int \<Rightarrow> prime_view" where
  "prime_service J listen_fd v fd =
     (case v of (pending, out, rx, conns, acc) \<Rightarrow>
        if fd = listen_fd then (pending, out, rx, insert (hd acc) conns, tl acc)
        else (let bs = pending @ drained (rx fd);
                  ls = lines_of bs;
                  serve = (stop_code (rx fd) \<ge> -1 \<and> NL \<in> set bs);
                  closing = (stop_code (rx fd) \<noteq> -1 \<or> serve \<and> (ls = [] \<or> some_malformed J ls))
              in (if serve then [] else bs,
                  if serve then out(fd := out fd @ concat (map (reply J) (handled J ls))) else out,
                  rx(fd := remaining (rx fd)),
                  if closing then conns - {fd} else conns, acc)))"

section \<open>Steps of an event\<close>

lemma length_lines_of: "length (lines_of xs) \<le> length xs"
proof (induction xs rule: lines_of.induct)
  case (1 xs)
  define ys where "ys = dropWhile (\<lambda>c. c = NL) xs"
  show ?case
  proof (cases "ys = []")
    case True
    then show ?thesis by (subst lines_of.simps) (simp add: ys_def Let_def)
  next
    case False
    define zs where "zs = dropWhile (\<lambda>c. c \<noteq> NL) ys"
    have "hd ys \<noteq> NL" using False hd_dropWhile [of "\<lambda>c. c = NL" xs] by (simp add: ys_def)
    then have "length zs < length ys"
      using False by (cases ys) (simp_all add: zs_def le_imp_less_Suc length_dropWhile_le)
    also have "length ys \<le> length xs" by (simp add: ys_def length_dropWhile_le)
    finally have "length zs < length xs" .
    moreover have "length (lines_of zs) \<le> length zs" using "1.IH" [OF ys_def False] by (simp add: zs_def)
    moreover have "lines_of xs = takeWhile (\<lambda>c. c \<noteq> NL) ys # lines_of zs"
      using False by (subst lines_of.simps) (simp add: ys_def zs_def Let_def)
    ultimately show ?thesis by simp
  qed
qed

lemma length_replies: "length (concat (map (reply J) (handled J ls))) \<le> 36 * length ls"
proof (induction ls)
  case (Cons l ls)
  then show ?case using reply_length [of J l] by simp
qed simp

lemma handled_Nil [simp]: "handled J ls = [] \<longleftrightarrow> ls = []"
  by (cases ls) simp_all

lemma handle_request_ok:
  assumes "json_total J" and "q_inv rq" and "ends_nul rq" and "q_bytes rq = bs" and "NL \<in> set bs"
    and "terminated bs" and "small_numbers J (lines_of bs)" and "ip_number junk < ROOT * ROOT"
    and "sdq_ok al no_percent sq" and "q_bytes sq = []" and "36 * (length bs + 1) < 2 ^ 31"
  shows "returns (handle_request al J junk sq (q_data rq) (length bs)) (\<lambda>(result, sq', mem').
      result = (if lines_of bs = [] then -1 else if some_malformed J (lines_of bs) then 0 else 1) \<and>
      sdq_ok al no_percent sq' \<and> q_bytes sq' = concat (map (reply J) (handled J (lines_of bs))) \<and>
      nulled (q_data rq) mem')"
proof -
  define slack where "slack = drop (length bs) (q_data rq)"
  have data: "q_data rq = bs @ slack"
    using assms(2,4) by (metis append_take_drop_id q_bytes_def q_inv_length slack_def)
  have "slack \<noteq> []"
    using assms(2,4) q_inv_length [OF assms(2)] by (auto simp: slack_def q_inv_def)
  then have nul: "NUL \<in> set slack"
    using assms(3) data by (metis ends_nul_def last_appendR last_in_set)
  have bs: "0 < length bs" "bs \<noteq> []" using assms(5) by (auto simp: length_pos_if_in_set)
  have chars: "response_chars no_percent"
    by (simp add: response_chars_def ill_response_def prime_response_def quoted_def quote_def NL_def
        NUL_def no_percent_def)
  have "length (q_bytes sq) + 36 * (length (lines_of bs) + 1) \<le> 2 ^ 40"
    using assms(10,11) length_lines_of [of bs] by simp
  from builder_loop_ok [OF assms(1) chars nul assms(6,7,8,9) this, of "[]" 1]
  obtain n mal sq' mem' where run: "is_prime_request_builder al J junk sq (q_data rq) (length bs) False
      = Inr (n, mal, sq', mem')"
    and post: "n = int (length (handled J (lines_of bs)))" "mal = some_malformed J (lines_of bs)"
      "sdq_ok al no_percent sq'" "q_bytes sq' = concat (map (reply J) (handled J (lines_of bs)))"
    using assms(10) bs data by (auto simp: returns_iff is_prime_request_builder_def)
  moreover have "nulled (q_data rq) mem'"
    using run bs(1) by (auto simp: is_prime_request_builder_def dest: builder_loop_nulled)
  ultimately show ?thesis
    using bs(2) by (simp add: handle_request_def)
qed

text \<open>Sending what the send queue holds, and emptying it.\<close>

lemma flushed_ok:
  "sdq_ok al no_percent sq \<Longrightarrow> sdq_ok al no_percent (flushed sq) \<and> q_bytes (flushed sq) = []"
  using queue_reset_ok [of sq] by (auto simp: sdq_ok_def flushed_def) (auto simp: queue_reset_def)

lemma flush_sends:
  assumes "sdq_ok al no_percent sq" and "length (q_bytes sq) < 2 ^ 31" and "fd \<noteq> 0" and "k_tx k fd = []"
  shows "(case queue_pop_no_copy sq of (sdsize, sddata, sdqu) \<Rightarrow>
       rbind (if sdsize > 0
              then (case sddata of
                      None \<Rightarrow> Inl Uninitialised
                    | Some mem \<Rightarrow> rbind (sendall fd mem sdsize k) (\<lambda>(rs, _, k). Inr (rs, k)))
              else Inr (0, k)) (\<lambda>(rs, k). f sdqu rs k)) = f (flushed sq) 0 (put_out fd (q_bytes sq) k)"
proof (cases "q_bytes sq = []")
  case True
  then show ?thesis
    using assms(1) queue_pop_no_copy_empty [of sq] by (simp add: sdq_ok_def flushed_def)
next
  case False
  have inv: "q_inv sq" "q_all no_percent sq" using assms(1) by (simp_all add: sdq_ok_def)
  have small: "unat (q_size sq) < 2 ^ 31" using assms(2) inv(1) by (simp add: q_inv_length)
  show ?thesis
    using False queue_pop_no_copy_ok [OF inv(1) small False] sendall_queue [OF inv(1) False inv(2) assms(3,4)]
    by (simp add: flushed_def)
qed

section \<open>Every event refines the service\<close>

lemma prime_event_accepts:
  assumes "prime_inv al J stk s" and "prime_ok J listen_fd (prime_view s) listen_fd"
  shows "returns (prime_event al J stk epollfd listen_fd s listen_fd)
    (\<lambda>s'. prime_inv al J stk s' \<and> prime_view s' = prime_service J listen_fd (prime_view s) listen_fd)"
proof -
  from assms(2) obtain fd fds where acc: "k_accept (p_k s) = fd # fds" "fd \<noteq> -1" "fd \<notin> registered (p_k s)"
    by (cases "k_accept (p_k s)") (auto simp: prime_ok_def prime_view_def)
  moreover have "k_ctl_fails (p_k s) = []" using assms(1) by (simp add: prime_inv_def)
  ultimately obtain k' where k': "fd_accept_and_epoll_add (epci epollfd listen_fd) (p_k s) = Inr (fd, k')"
    and post: "registered k' = insert fd (registered (p_k s))" "k_accept k' = fds"
      "k_out k' = k_out (p_k s)" "k_rx k' = k_rx (p_k s)" "k_ctl_fails k' = []" "k_tx k' = k_tx (p_k s)"
    using accept_and_add_ok [of "p_k s" fd fds "epci epollfd listen_fd"] by (auto simp: returns_iff)
  then show ?thesis
    using assms(1) acc by (simp add: prime_event_def prime_inv_def prime_view_def prime_service_def)
qed

lemma prime_event_hears:
  assumes "prime_inv al J stk s" and "prime_ok J listen_fd (prime_view s) fd" and "fd \<noteq> listen_fd"
  defines "rx \<equiv> k_rx (p_k s) fd"
  defines "bs \<equiv> q_bytes (p_rcqu s) @ drained rx"
  obtains rq where "recv_request al fd (p_rcqu s) (p_k s) = Inr (stop_code rx, rq, set_rx fd (remaining rx) (p_k s))"
    and "q_inv rq" and "q_bytes rq = bs" and "ends_nul rq" and "length (q_bytes rq) < 2 ^ 31"
proof -
  have inv: "zeroed al" "q_inv (p_rcqu s)" "ends_nul (p_rcqu s)" using assms(1) by (simp_all add: prime_inv_def)
  have ok: "0 < fd" "36 * (length bs + 1) < 2 ^ 31"
    using assms(2,3) by (simp_all add: prime_ok_def prime_view_def bs_def rx_def)
  have lim: "length (q_bytes (p_rcqu s)) + length (drained rx) \<le> 2 ^ 40" using ok(2) by (simp add: bs_def)
  have al: "alloc_ok al" using inv(1) by (simp add: zeroed_def)
  from recv_loop_drains [OF inv(2) al lim [unfolded rx_def], of "\<lambda>_. True"] obtain rq where
    recv: "recv_request al fd (p_rcqu s) (p_k s) = Inr (stop_code rx, rq, set_rx fd (remaining rx) (p_k s))"
    and rq: "q_inv rq" "q_bytes rq = bs"
    using ok(1) by (auto simp: returns_iff recv_request_def rx_def bs_def fresh_all_def q_all_def)
  moreover have "ends_nul rq"
    using recv ok(1) recv_loop_laid [OF _ inv(2) al lim [unfolded rx_def]] laid_ends_nul [OF _ rq(1) inv(3,1)]
    by (auto simp: recv_request_def)
  moreover have "length (q_bytes rq) < 2 ^ 31" using ok(2) rq(2) by simp
  ultimately show ?thesis using rq by (intro that)
qed

text \<open>Emptying the receiving queue leaves it ready for the next event: the zeros that cutting lines
  out has put into its buffer do not reach past the terminator at its end.\<close>

lemma prime_pops_lines:
  assumes "q_inv rq" and "ends_nul rq" and "NL \<in> set (q_bytes rq)" and "length (q_bytes rq) < 2 ^ 31"
    and "nulled (q_data rq) mem"
  defines "rq' \<equiv> (queue_reset rq)\<lparr>q_data := mem\<rparr>"
  shows "queue_pop_no_copy rq = (int (length (q_bytes rq)), Some (q_data rq), queue_reset rq)"
    and "q_inv rq'" and "q_bytes rq' = []" and "ends_nul rq'"
proof -
  have "q_bytes rq \<noteq> []" using assms(3) by auto
  moreover have "unat (q_size rq) < 2 ^ 31" using assms(4) q_inv_length [OF assms(1)] by simp
  ultimately show "queue_pop_no_copy rq = (int (length (q_bytes rq)), Some (q_data rq), queue_reset rq)"
    using queue_pop_no_copy_ok [OF assms(1)] by simp
  have nul: "q_data rq \<noteq> []" "last (q_data rq) = NUL" using assms(2) by (simp_all add: ends_nul_def)
  from nulled_last [OF assms(5) this] nul
  show "q_inv rq'" "q_bytes rq' = []" "ends_nul rq'"
    using assms(1) queue_reset_ok [OF assms(1)]
    by (auto simp: rq'_def q_inv_def q_bytes_def queue_reset_def ends_nul_def)
qed

text \<open>With a line in the buffer the event is its answers, then the connection closes or stays.\<close>

lemma prime_event_lines:
  assumes "prime_inv al J stk s" and "prime_ok J listen_fd (prime_view s) fd" and "fd \<noteq> listen_fd"
  defines "rx \<equiv> k_rx (p_k s) fd"
  defines "bs \<equiv> q_bytes (p_rcqu s) @ drained rx"
  defines "ls \<equiv> lines_of bs"
  defines "k1 \<equiv> set_rx fd (remaining rx) (p_k s)"
  assumes "\<not> stop_code rx < -1" and "NL \<in> set bs"
  obtains rq' sq where "prime_event al J stk epollfd listen_fd s fd =
      (let s1 = \<lparr>p_rcqu = rq', p_sdqu = flushed sq, p_k = put_out fd (concat (map (reply J) (handled J ls))) k1\<rparr>
       in if stop_code rx \<noteq> -1 \<or> ls = [] \<or> some_malformed J ls
          then rbind (drop_connection epollfd fd (p_k s1)) (\<lambda>k. Inr (s1\<lparr>p_k := k\<rparr>)) else Inr s1)"
    and "q_inv rq'" and "q_bytes rq' = []" and "ends_nul rq'" and "sdq_ok al no_percent sq"
proof -
  have inv: "sdq_ok al no_percent (p_sdqu s)" "q_bytes (p_sdqu s) = []" "json_total J"
    "ip_number (stk s) < ROOT * ROOT"
    using assms(1) by (simp_all add: prime_inv_def prime_env_ok_def)
  have ok: "0 < fd" "36 * (length bs + 1) < 2 ^ 31" "terminated bs" "small_numbers J ls"
    using assms(2,3,8,9) by (auto simp: prime_ok_def prime_view_def bs_def ls_def rx_def)
  obtain rq where recv: "recv_request al fd (p_rcqu s) (p_k s) = Inr (stop_code rx, rq, k1)"
    and rq: "q_inv rq" "q_bytes rq = bs" "ends_nul rq" and small: "length (q_bytes rq) < 2 ^ 31"
    using assms(1-3) unfolding rx_def bs_def k1_def by (rule prime_event_hears)
  define res where "res = (if ls = [] then -1 else if some_malformed J ls then 0 else 1 :: int)"
  define ans where "ans = concat (map (reply J) (handled J ls))"
  from handle_request_ok [OF inv(3) rq(1,3,2) assms(9) ok(3) _ inv(4,1,2) ok(2)] ok(4)
  obtain sq mem where hr: "handle_request al J (stk s) (p_sdqu s) (q_data rq) (length bs) = Inr (res, sq, mem)"
    and sq: "sdq_ok al no_percent sq" "q_bytes sq = ans" "nulled (q_data rq) mem"
    by (auto simp: returns_iff ls_def res_def ans_def)
  have "length ans \<le> 36 * length ls" unfolding ans_def by (rule length_replies)
  also have "\<dots> \<le> 36 * length bs" unfolding ls_def using length_lines_of [of bs] by simp
  finally have "length (q_bytes sq) < 2 ^ 31" using ok(2) sq(2) by simp
  note flush = flush_sends [OF sq(1) this, of fd k1]
  have nl: "NL \<in> set (q_bytes rq)" using assms(9) rq(2) by simp
  note pop = prime_pops_lines [OF rq(1,3) nl small sq(3)]
  have "k_tx k1 = (\<lambda>_. [])" using assms(1) by (simp add: k1_def prime_inv_def)
  moreover have "res \<le> 0 \<or> stop_code rx \<noteq> -1 \<longleftrightarrow> stop_code rx \<noteq> -1 \<or> ls = [] \<or> some_malformed J ls"
    by (auto simp: res_def)
  moreover have "stop_code rx = -1 \<or> stop_code rx = 0" using stop_code_cases [of rx] assms(8) by auto
  ultimately show ?thesis
    using assms(3,8,9) ok(1) sq(1) pop(2-4)
    by (intro that [of "(queue_reset rq)\<lparr>q_data := mem\<rparr>" sq])
      (auto simp: prime_event_def Let_def recv peek_byte [OF rq(1) small] rq(2) pop(1) hr flush sq(2) ans_def)
qed

lemma prime_event_answers:
  assumes "prime_inv al J stk s" and "prime_ok J listen_fd (prime_view s) fd" and "fd \<noteq> listen_fd"
  shows "returns (prime_event al J stk epollfd listen_fd s fd)
    (\<lambda>s'. prime_inv al J stk s' \<and> prime_view s' = prime_service J listen_fd (prime_view s) fd)"
proof -
  let ?rx = "k_rx (p_k s) fd" and ?bs = "q_bytes (p_rcqu s) @ drained (k_rx (p_k s) fd)"
  define k1 where "k1 = set_rx fd (remaining ?rx) (p_k s)"
  have fd: "0 < fd" "fd \<in> registered (p_k s)" using assms(2,3) by (simp_all add: prime_ok_def prime_view_def)
  obtain rq where recv: "recv_request al fd (p_rcqu s) (p_k s) = Inr (stop_code ?rx, rq, k1)"
    and rq: "q_inv rq" "q_bytes rq = ?bs" "ends_nul rq" and small: "length (q_bytes rq) < 2 ^ 31"
    using assms unfolding k1_def by (rule prime_event_hears)
  have drop: "returns (drop_connection epollfd fd (put_out fd ans k1)) (\<lambda>k'. k_out k' = k_out (put_out fd ans k1) \<and>
      k_rx k' = k_rx k1 \<and> k_ctl_fails k' = [] \<and> k_tx k' = (\<lambda>_. []) \<and> registered k' = registered k1 - {fd} \<and>
      k_accept k' = k_accept k1)" for ans
    using drop_connection_ok [of fd "put_out fd ans k1" epollfd] fd assms(1)
    by (auto simp: k1_def prime_inv_def elim!: returns_mono)
  consider "stop_code ?rx < -1" | "\<not> stop_code ?rx < -1" "NL \<notin> set ?bs" | "\<not> stop_code ?rx < -1" "NL \<in> set ?bs"
    by blast
  then show ?thesis
  proof cases
    case 3
    obtain rq' sq where ev: "prime_event al J stk epollfd listen_fd s fd =
        (let s1 = \<lparr>p_rcqu = rq', p_sdqu = flushed sq, p_k = put_out fd (concat (map (reply J) (handled J (lines_of ?bs)))) k1\<rparr>
         in if stop_code ?rx \<noteq> -1 \<or> lines_of ?bs = [] \<or> some_malformed J (lines_of ?bs)
            then rbind (drop_connection epollfd fd (p_k s1)) (\<lambda>k. Inr (s1\<lparr>p_k := k\<rparr>)) else Inr s1)"
      and "q_inv rq'" "q_bytes rq' = []" "ends_nul rq'" and sq: "sdq_ok al no_percent sq"
      using assms 3 unfolding k1_def by (rule prime_event_lines)
    then show ?thesis
      unfolding ev Let_def
      using drop [of "concat (map (reply J) (handled J (lines_of ?bs)))"] assms(1,3) 3 flushed_ok [OF sq]
      by (auto simp: returns_iff prime_inv_def prime_view_def prime_service_def Let_def k1_def)
  qed (use drop [of "[]"] assms(1,3) fd rq in
      \<open>auto simp: prime_event_def recv peek_byte [OF rq(1) small] returns_iff prime_inv_def prime_view_def
        prime_service_def Let_def k1_def\<close>)
qed

lemma prime_event_ok:
  assumes "prime_inv al J stk s" and "prime_ok J listen_fd (prime_view s) fd"
  shows "returns (prime_event al J stk epollfd listen_fd s fd)
    (\<lambda>s'. prime_inv al J stk s' \<and> prime_view s' = prime_service J listen_fd (prime_view s) fd)"
  using assms prime_event_accepts prime_event_answers by (cases "fd = listen_fd") blast+

interpretation prime: stepper "prime_event al J stk e listen_fd" "prime_inv al J stk" prime_view
  "prime_ok J listen_fd" "prime_service J listen_fd" for al J stk e listen_fd
  by unfold_locales (rule prime_event_ok)

lemma run_prime_wait:
  "Wait_error \<notin> set ws \<Longrightarrow>
   run_res (prime_wait al J stk e lfd) s ws = run_res (prime_event al J stk e lfd) s (wait_events ws)"
  by (induction ws arbitrary: s rule: wait_events.induct)
     (auto simp: prime_wait_def run_res_append)

section \<open>Properties\<close>

text \<open>C3: over any sequence of admissible events the prime server never faults and does what the prime service
  does: it answers the lines that have piled up, in order, on the connection whose event brought a newline, and
  closes connections at their end, on errors and after malformed or empty requests. An event is admissible when it is about the
  listening socket and a new connection waits there, or about an open connection such that 36 times the bytes piled up stays below \<open>2 ^ 31\<close> and
  either the receiving ends in an error, or no newline is among the piled-up bytes, or they end with a newline, hold no NUL and ask
  only for numbers below \<open>ROOT * ROOT\<close>. So a batch with a newline that ends within a line is excluded. Assumed of the environment:
  fresh memory is zero, the receive buffer ends in a NUL and the empty send queue has room for a response and no percent sign (as at the start and
  after every event), the number left on the stack is below \<open>ROOT * ROOT\<close>, sends take whole messages, epoll_ctl and the allocation do not fail, and reading an integer value of the JSON library sets no errno.\<close>

theorem prime_refines_service:
  assumes "prime_inv al J stk s" and "run_ok (prime_ok J lfd) (prime_service J lfd) (prime_view s) fds"
  shows "returns (run_res (prime_event al J stk e lfd) s fds)
    (\<lambda>s'. prime_inv al J stk s' \<and> prime_view s' = foldl (prime_service J lfd) (prime_view s) fds)"
  using assms by (rule prime.run_refines)

definition junk_request :: "prime_state \<Rightarrow> is_prime_request" where
  "junk_request s = \<lparr>ip_is_prime = True, ip_is_malformed = True, ip_number = -5\<rparr>"

definition prime_sample :: "kernel \<Rightarrow> prime_state" where
  "prime_sample k = \<lparr>p_rcqu = toy_send_queue, p_sdqu = toy_send_queue, p_k = k\<rparr>"

lemma zero_alloc_zeroed: "zeroed zero_alloc"
  by (simp add: zeroed_def zero_alloc_ok) (simp add: fresh_all_def zero_alloc_def)

lemma toy_env: "prime_env_ok toy_json junk_request"
  by (simp add: prime_env_ok_def json_total_def toy_json_def junk_request_def ROOT_def split: option.split)

lemma prime_sample_inv:
  assumes "k_ctl_fails k = []" and "k_tx k = (\<lambda>_. [])"
  shows "prime_inv zero_alloc toy_json junk_request (prime_sample k)"
    and "q_bytes (p_rcqu (prime_sample k)) = []"
proof -
  have "ends_nul toy_send_queue" by (simp add: ends_nul_def toy_send_queue_def)
  moreover have "q_bytes toy_send_queue = []" by (simp add: q_bytes_def toy_send_queue_def)
  moreover have "sdq_ok zero_alloc no_percent toy_send_queue"
    by (rule toy_send_queue_ok) (simp add: no_percent_def NUL_def)
  ultimately show "prime_inv zero_alloc toy_json junk_request (prime_sample k)"
    and "q_bytes (p_rcqu (prime_sample k)) = []"
    using assms
    by (simp_all add: prime_inv_def prime_sample_def zero_alloc_zeroed toy_env) (simp add: sdq_ok_def)
qed

definition prime_kernel :: kernel where
  "prime_kernel = quiet_kernel\<lparr>k_accept := [7, 8],
     k_rx := (\<lambda>_. [])(7 := [RxData [CHR ''7''], RxErr 11], 8 := [RxData [CHR ''3'', NL], RxEof])\<rparr>"

lemma toy_numbers:
  "request_number toy_json ''73'' = Some 73" "request_number toy_json ''7'' = Some 7"
  "request_number toy_json ''x'' = None"
  by (simp_all add: request_number_def toy_json_def Let_def)

lemma toy_prime: "prime_int 73" "prime_int 7"
  using is_prime_f_ok [of 73] is_prime_f_ok [of 7]
  by (simp_all add: is_prime_f_def prime_loop.simps ROOT_def)

lemma toy_line: "NL \<notin> set w \<Longrightarrow> w \<noteq> [] \<Longrightarrow> lines_of (w @ [NL]) = [w]"
  using lines_of_line [of w "[]"] by simp

lemma toy_line_73: "lines_of [CHR ''7'', CHR ''3'', NL] = [''73'']"
  using toy_line [of "''73''"] by (simp add: NL_def)

lemma prime_sample_view:
  "prime_view (prime_sample k) = ([], k_out k, k_rx k, registered k, k_accept k)"
  by (simp add: prime_view_def prime_sample_def toy_send_queue_def q_bytes_def)

lemma prime_sample_run:
  "case foldl (prime_service toy_json 4) (prime_view (prime_sample prime_kernel)) [4, 4, 7, 8] of
     (pending, out, rx, conns, acc) \<Rightarrow> out 7 = [] \<and> out 8 = prime_response True \<and> conns = {7}"
  unfolding prime_sample_view
  by (simp add: prime_service_def Let_def prime_kernel_def quiet_kernel_def registered_def
      EAGAIN_def EWOULDBLOCK_def toy_line_73 toy_numbers toy_prime some_malformed_def reply_def)
    (simp add: NL_def)

theorem prime_refines_service_witness:
  "returns (run_res (prime_event zero_alloc toy_json junk_request 5 4) (prime_sample prime_kernel) [4, 4, 7, 8])
    (\<lambda>s'. k_out (p_k s') 7 = [] \<and> k_out (p_k s') 8 = prime_response True \<and> registered (p_k s') = {7})"
proof -
  have "prime_inv zero_alloc toy_json junk_request (prime_sample prime_kernel)"
    by (rule prime_sample_inv) (simp_all add: prime_kernel_def quiet_kernel_def)
  moreover have "run_ok (prime_ok toy_json 4) (prime_service toy_json 4)
      (prime_view (prime_sample prime_kernel)) [4, 4, 7, 8]"
    unfolding prime_sample_view
    by (simp add: prime_ok_def prime_service_def Let_def prime_kernel_def quiet_kernel_def registered_def
        EAGAIN_def EWOULDBLOCK_def terminated_def small_numbers_def toy_line_73 toy_numbers ROOT_def)
      (simp add: NL_def NUL_def)
  ultimately have "returns (run_res (prime_event zero_alloc toy_json junk_request 5 4) (prime_sample prime_kernel) [4, 4, 7, 8])
    (\<lambda>s'. prime_inv zero_alloc toy_json junk_request s' \<and>
       prime_view s' = foldl (prime_service toy_json 4) (prime_view (prime_sample prime_kernel)) [4, 4, 7, 8])"
    by (rule prime_refines_service)
  then show ?thesis
    by (rule returns_mono) (use prime_sample_run in \<open>auto simp: prime_view_def simp del: foldl_Cons\<close>)
qed

definition split_kernel :: kernel where
  "split_kernel = quiet_kernel\<lparr>k_interest := [(7, []), (8, [])],
     k_rx := (\<lambda>_. [])(7 := [RxData [CHR ''7''], RxErr EAGAIN], 8 := [RxData [CHR ''3'', NL], RxErr EAGAIN])\<rparr>"

lemma prime_sample_k: "p_k (prime_sample k) = k"
  by (simp add: prime_sample_def)

text \<open>C19: the receive queue is shared, so the server mixes clients up: when one client's event ends within a
  line and another client's event completes it, the line put together from both is answered to
  the second client, and the first one gets no answer.\<close>

theorem prime_mixes_clients:
  assumes "prime_inv al J stk s" and "q_bytes (p_rcqu s) = []"
    and "0 < c" and "0 < d" and "c \<noteq> d" and "c \<noteq> lfd" and "d \<noteq> lfd"
    and "c \<in> registered (p_k s)" and "d \<in> registered (p_k s)"
    and "k_rx (p_k s) c = [RxData part, RxErr EAGAIN]" and "k_rx (p_k s) d = [RxData tail, RxErr EAGAIN]"
    and "part \<noteq> []" and "tail \<noteq> []" and "NL \<notin> set part" and "NL \<in> set tail" and "terminated (part @ tail)"
    and "small_numbers J (lines_of (part @ tail))" and "36 * (length (part @ tail) + 1) < 2 ^ 31"
  shows "returns (run_res (prime_event al J stk e lfd) s [c, d])
    (\<lambda>s'. k_out (p_k s') c = k_out (p_k s) c \<and>
       k_out (p_k s') d = k_out (p_k s) d @ concat (map (reply J) (handled J (lines_of (part @ tail)))))"
proof -
  let ?k = "p_k s"
  have "run_ok (prime_ok J lfd) (prime_service J lfd) (prime_view s) [c, d]"
    using assms(2-) by (simp add: prime_view_def prime_ok_def prime_service_def Let_def EAGAIN_def)
  from prime.run_refines [OF assms(1) this, of e] show ?thesis
    by (rule returns_mono)
      (use assms(2-) in \<open>simp add: prime_view_def prime_service_def Let_def EAGAIN_def\<close>)
qed

theorem prime_mixes_clients_witness:
  "returns (run_res (prime_event zero_alloc toy_json junk_request 5 4) (prime_sample split_kernel) [7, 8])
    (\<lambda>s'. k_out (p_k s') 7 = [] \<and> k_out (p_k s') 8 = prime_response True)"
proof -
  have inv: "prime_inv zero_alloc toy_json junk_request (prime_sample split_kernel)"
    "q_bytes (p_rcqu (prime_sample split_kernel)) = []"
    by (rule prime_sample_inv; simp add: split_kernel_def quiet_kernel_def)+
  have "returns (run_res (prime_event zero_alloc toy_json junk_request 5 4) (prime_sample split_kernel) [7, 8])
    (\<lambda>s'. k_out (p_k s') 7 = k_out (p_k (prime_sample split_kernel)) 7 \<and>
       k_out (p_k s') 8 = k_out (p_k (prime_sample split_kernel)) 8 @
         concat (map (reply toy_json) (handled toy_json (lines_of ([CHR ''7''] @ [CHR ''3'', NL])))))"
    by (rule prime_mixes_clients [OF inv])
      (simp_all add: prime_sample_k split_kernel_def registered_def terminated_def toy_line_73 small_numbers_def
        toy_numbers ROOT_def, simp_all add: NL_def NUL_def)
  then show ?thesis
    by (rule returns_mono)
      (simp add: prime_sample_k split_kernel_def quiet_kernel_def toy_line_73 toy_numbers toy_prime reply_def)
qed

text \<open>
  Traffic in which no event ends within a line: what is sent to a client then depends on its own
  bytes only.
\<close>

definition whole_lines :: "int \<Rightarrow> prime_view \<Rightarrow> int \<Rightarrow> bool" where
  "whole_lines lfd v fd =
     (case v of (pending, out, rx, conns, acc) \<Rightarrow> fd = lfd \<or>
        terminated (drained (rx fd)) \<and> (stop_code (rx fd) < -1 \<longrightarrow> drained (rx fd) = []))"

fun answers :: "'j json_lib \<Rightarrow> int \<Rightarrow> rx list \<Rightarrow> int list \<Rightarrow> char list" where
  "answers J c rx [] = []"
| "answers J c rx (fd # fds) =
     (if fd = c then concat (map (reply J) (handled J (lines_of (drained rx)))) @ answers J c (remaining rx) fds
      else answers J c rx fds)"

lemma terminated_newline: "terminated xs \<Longrightarrow> xs = [] \<or> NL \<in> set xs"
  by (metis last_in_set terminated_def)

lemma prime_service_out:
  "c \<noteq> lfd \<Longrightarrow> run_ok (whole_lines lfd) (prime_service J lfd) ([], out, rx, conns, acc) fds \<Longrightarrow>
   foldl (prime_service J lfd) ([], out, rx, conns, acc) fds = (pending', out', rx', conns', acc') \<Longrightarrow>
   out' c = out c @ answers J c (rx c) fds \<and> pending' = []"
proof (induction fds arbitrary: out rx conns acc)
  case (Cons fd fds)
  obtain p1 o1 rx1 c1 a1 where step: "prime_service J lfd ([], out, rx, conns, acc) fd = (p1, o1, rx1, c1, a1)"
    by (metis prod_cases5)
  have whole: "whole_lines lfd ([], out, rx, conns, acc) fd" using Cons.prems(2) by simp
  have nl: "fd \<noteq> lfd \<Longrightarrow> drained (rx fd) = [] \<or> NL \<in> set (drained (rx fd))"
    using whole by (intro terminated_newline) (simp add: whole_lines_def)
  have p1: "p1 = []"
    using step whole nl by (auto simp: prime_service_def whole_lines_def terminated_def Let_def split: if_splits)
  have "o1 c = out c @ (if fd = c then concat (map (reply J) (handled J (lines_of (drained (rx c))))) else [])"
    using step whole nl Cons.prems(1)
    by (auto simp: prime_service_def whole_lines_def terminated_def Let_def split: if_splits)
  moreover have "rx1 c = (if fd = c then remaining (rx c) else rx c)"
    using step Cons.prems(1) by (auto simp: prime_service_def Let_def split: if_splits)
  ultimately show ?case
    using Cons.IH [of o1 rx1 c1 a1] Cons.prems step p1 by auto
qed simp


definition batch_kernel :: kernel where
  "batch_kernel = quiet_kernel\<lparr>k_interest := [(7, []), (8, [])],
     k_rx := (\<lambda>_. [])(7 := [RxData [CHR ''7''], RxData [NL], RxErr EAGAIN, RxData [CHR ''x'', NL]],
       8 := [RxData [CHR ''7'', CHR ''3'', NL], RxEof])\<rparr>"

lemma toy_lines_7: "lines_of [CHR ''7'', NL] = [''7'']" "lines_of [CHR ''x'', NL] = [''x'']"
  using toy_line [of "''7''"] toy_line [of "''x''"] by (simp_all add: NL_def)


text \<open>C29: the whole program: once started, with fresh memory that is zero, it serves the events of the returns of
  \<open>epoll_wait\<close>, time-outs among them, as the prime service does, starting with nothing pending, as long as \<open>epoll_wait\<close> reports no error; at
  its first error it exits with a failure. Assumed, as for the event loop alone: the events are admissible (once a newline is there the piled-up bytes end
  with one, hold no NUL and ask only for numbers below \<open>ROOT * ROOT\<close>; a batch that goes on after a newline is excluded), whole
  sends, no failure of epoll_ctl or of the allocation, a small number left on the stack, and a JSON library that sets no errno for integers.\<close>

theorem prime_main_serves:
  assumes "server_start env L k = Inr (lfd, L', k0)" and "zeroed al" and "prime_env_ok J stk"
    and "k_ctl_fails k0 = []" and "k_tx k0 = (\<lambda>_. [])" and "Wait_error \<notin> set ws"
    and "run_ok (prime_ok J lfd) (prime_service J lfd) ([], k_out k0, k_rx k0, registered k0, k_accept k0)
      (wait_events ws)"
  shows "returns (prime_main al J stk env L k ws) (\<lambda>s. prime_inv al J stk s \<and> prime_view s
      = foldl (prime_service J lfd) ([], k_out k0, k_rx k0, registered k0, k_accept k0) (wait_events ws)) \<and>
    prime_main al J stk env L k (ws @ Wait_error # ws') = Inl Exit_failure"
proof -
  have al: "alloc_ok al" "fresh_all (\<lambda>c. c = NUL) al" using assms(2) by (simp_all add: zeroed_def)
  obtain q where init: "queue_init al None 2048 = Inr (Some q)" and q: "q_inv q" "q_bytes q = []" "q_capacity q = 2048"
    using queue_init_ok [of al 2048] al(1) by (auto simp: returns_iff)
  have zeros: "q_all (\<lambda>c. c = NUL) q" using init al(2) by (rule queue_init_all)
  have "q_data q \<noteq> []" using q by (auto simp: q_inv_def)
  then have "ends_nul q"
    using zeros last_in_set [of "q_data q"] by (simp add: q_all_def ends_nul_def)
  moreover have "sdq_ok al no_percent q"
  proof -
    have "no_percent NUL" by (simp add: no_percent_def NUL_def)
    then have "fresh_all no_percent al" "q_all no_percent q"
      using al(2) zeros unfolding fresh_all_def q_all_def by metis+
    then show ?thesis using q al(1) q_inv_length [OF q(1)] by (simp add: sdq_ok_def)
  qed
  ultimately have "prime_inv al J stk \<lparr>p_rcqu = q, p_sdqu = q, p_k = k0\<rparr>"
    using assms q by (simp add: prime_inv_def)
  moreover have "prime_view \<lparr>p_rcqu = q, p_sdqu = q, p_k = k0\<rparr> = ([], k_out k0, k_rx k0, registered k0, k_accept k0)"
    using q by (simp add: prime_view_def)
  ultimately show ?thesis
    using prime.run_refines [of al J stk "\<lparr>p_rcqu = q, p_sdqu = q, p_k = k0\<rparr>" lfd "wait_events ws" "env_epollfd env"]
      assms(7)
    by (auto simp: prime_main_def assms(1) init run_res_append run_prime_wait [OF assms(6)] returns_iff prime_wait_def)
qed

theorem prime_main_serves_witness:
  "returns (prime_main zero_alloc toy_json junk_request sample_env log_initial prime_kernel
      [Events [4, 4], Timeout, Events [7, 8]])
    (\<lambda>s. k_out (p_k s) 8 = prime_response True) \<and>
   prime_main zero_alloc toy_json junk_request sample_env log_initial prime_kernel
      ([Events [4, 4], Timeout, Events [7, 8]] @ [Wait_error]) = Inl Exit_failure"
proof -
  obtain L' k0 where start: "server_start sample_env log_initial prime_kernel = Inr (4, L', k0)"
    and k0: "k_out k0 = (\<lambda>_. [])" "k_rx k0 = k_rx prime_kernel" "registered k0 = {4}" "k_accept k0 = [7, 8]"
      "k_ctl_fails k0 = []" "k_tx k0 = (\<lambda>_. [])"
    using sample_start [of prime_kernel] by (auto simp: quiet_kernel_def prime_kernel_def)
  let ?v = "([], k_out k0, k_rx k0, registered k0, k_accept k0)"
  have "run_ok (prime_ok toy_json 4) (prime_service toy_json 4) ?v (wait_events [Events [4, 4], Timeout, Events [7, 8]])"
    by (simp add: k0 prime_ok_def prime_service_def Let_def prime_kernel_def quiet_kernel_def
        EAGAIN_def EWOULDBLOCK_def terminated_def small_numbers_def toy_line_73 toy_numbers ROOT_def)
      (simp add: NL_def NUL_def)
  then have run: "returns (prime_main zero_alloc toy_json junk_request sample_env log_initial prime_kernel
      [Events [4, 4], Timeout, Events [7, 8]])
    (\<lambda>s. prime_inv zero_alloc toy_json junk_request s \<and> prime_view s
       = foldl (prime_service toy_json 4) ?v (wait_events [Events [4, 4], Timeout, Events [7, 8]])) \<and>
    prime_main zero_alloc toy_json junk_request sample_env log_initial prime_kernel
      ([Events [4, 4], Timeout, Events [7, 8]] @ [Wait_error]) = Inl Exit_failure"
    by (intro prime_main_serves [OF start zero_alloc_zeroed toy_env k0(5,6)]) simp_all
  have "case foldl (prime_service toy_json 4) ?v (wait_events [Events [4, 4], Timeout, Events [7, 8]]) of
     (pending, out, rx, conns, acc) \<Rightarrow> out 8 = prime_response True"
    by (simp add: k0 prime_service_def Let_def prime_kernel_def quiet_kernel_def
        EAGAIN_def EWOULDBLOCK_def toy_line_73 toy_numbers toy_prime some_malformed_def reply_def)
      (simp add: NL_def)
  with run show ?thesis
    by (auto simp: prime_view_def simp del: foldl_Cons wait_events.simps elim!: returns_mono)
qed

end
