(* ===== verification/HostilePrime.thy ===== *)
theory HostilePrime
  imports Hostile PrimeMain
begin

text \<open>
  The prime server in a hostile world. It shares its receive queue between clients, and its tokenizer runs over bytes
  of earlier contents of that queue, so what it answers may depend on anybody. What stays true of it, however the kernel
  answers, whatever memory and the stack hold and whatever the JSON library makes of the lines, is what it can answer at
  all: its three responses, and no more of them than it had bytes at hand.
\<close>

section \<open>Batches of responses\<close>

definition responses :: "char list set" where
  "responses = {ill_response, prime_response True, prime_response False}"

lemma response_in_responses: "response r \<in> responses"
  by (cases "ip_is_prime r") (simp_all add: response_def responses_def)

text \<open>What the server can make of the bytes at hand in one event.\<close>

definition response_batch :: "char list \<Rightarrow> char list \<Rightarrow> bool" where
  "response_batch bs out \<longleftrightarrow> (\<exists>rs. set rs \<subseteq> responses \<and> length rs \<le> length bs \<and> out = concat rs)"

lemma response_batch_Nil [simp]: "response_batch bs []"
  unfolding response_batch_def by (intro exI [of _ "[]"]) simp

section \<open>The builder, whatever it is given\<close>

text \<open>A send queue with room for a response at its head, as the code relies on without a check.\<close>

definition response_room :: "queue \<Rightarrow> bool" where
  "response_room q \<longleftrightarrow> q_inv q \<and> 2048 \<le> unat (q_capacity q) \<and> unat (q_size q) + 36 \<le> unat (q_capacity q)"

lemma response_room_ok: "sdq_ok (total_alloc al) (\<lambda>_. True) q \<longleftrightarrow> response_room q"
  by (auto simp: sdq_ok_def response_room_def fresh_all_def q_all_def)

text \<open>One turn of the loop, if it returns: it stops, or it writes a response for a token before \<open>req_size\<close>.\<close>

lemma builder_loop_turn:
  assumes "builder_loop al J n r q mal mem pos j = Inr (m, mal', q', mem')"
  obtains (stop) "q' = q" and "length mem' = length mem"
  | (answer) t save mem1 r1 bytes k d q1 where "strtok_r mem pos = Inr (Some t, save, mem1)" and "t < n"
      and "is_prime_beget_response r1 = (bytes, k)" and "poke (q_data q) (q_head q) bytes = Inr d"
      and "queue_push_ex al (q\<lparr>q_data := d\<rparr>) (of_nat k) = Inr q1"
      and "q' = q1 \<and> mem' = mem1 \<or> (\<exists>i. builder_loop al J n r1 q1 False mem1 save i = Inr (m, mal', q', mem'))"
proof -
  note run = assms [unfolded builder_loop.simps [of al J n r q mal mem pos j]]
  obtain tok save mem1 where tok: "strtok_r mem pos = Inr (tok, save, mem1)"
    using run by (auto simp: res_simps)
  then have len: "length mem1 = length mem"
    by (auto simp: strtok_r_def Let_def split: if_splits)
  show ?thesis
  proof (cases "\<exists>t. tok = Some t \<and> t < n")
    case False
    then show ?thesis using stop run tok len by (auto split: option.splits if_splits)
  next
    case True
    then obtain t where t: "tok = Some t" "t < n" by blast
    obtain req mal1 r1 b where turn: "(case is_prime_beget_response (r1\<lparr>ip_is_prime := b\<rparr>) of (bytes, k) \<Rightarrow>
        rbind (poke (q_data q) (q_head q) bytes) (\<lambda>d. rbind (queue_push_ex al (q\<lparr>q_data := d\<rparr>) (of_nat k)) (\<lambda>sdq.
        if mal1 then Inr (j, mal1, sdq, mem1)
        else builder_loop al J n (r1\<lparr>ip_is_prime := b\<rparr>) sdq mal1 mem1 save (j + 1)))) = Inr (m, mal', q', mem')"
      using run tok t by (auto simp: res_simps)
    obtain bytes k where bytes: "is_prime_beget_response (r1\<lparr>ip_is_prime := b\<rparr>) = (bytes, k)" by fastforce
    obtain d q1 where d: "poke (q_data q) (q_head q) bytes = Inr d"
      and q1: "queue_push_ex al (q\<lparr>q_data := d\<rparr>) (of_nat k) = Inr q1"
      and rest: "(if mal1 then Inr (j, mal1, q1, mem1)
        else builder_loop al J n (r1\<lparr>ip_is_prime := b\<rparr>) q1 mal1 mem1 save (j + 1)) = Inr (m, mal', q', mem')"
      using turn bytes by (auto simp: res_simps)
    show ?thesis
      by (rule answer [OF tok [unfolded t(1)] t(2) bytes d q1]) (use rest in \<open>auto split: if_splits\<close>)
  qed
qed

text \<open>Writing a response and claiming its room, where memory may run out.\<close>

lemma respond_any:
  assumes "response_room q" and "length (q_bytes q) + 36 \<le> 2 ^ 40" and "is_prime_beget_response r = (bytes, n)"
    and "poke (q_data q) (q_head q) bytes = Inr d" and "queue_push_ex al (q\<lparr>q_data := d\<rparr>) (of_nat n) = Inr q'"
  shows "response_room q'" and "q_bytes q' = q_bytes q @ response r"
proof -
  have "sdq_ok (total_alloc al) (\<lambda>_. True) q" using assms(1) by (simp add: response_room_ok)
  moreover have "response_chars (\<lambda>_. True)" by (simp add: response_chars_def list_all_iff)
  ultimately have "returns (rbind (poke (q_data q) (q_head q) bytes)
      (\<lambda>d. queue_push_ex (total_alloc al) (q\<lparr>q_data := d\<rparr>) (of_nat n)))
    (\<lambda>q'. sdq_ok (total_alloc al) (\<lambda>_. True) q' \<and> q_bytes q' = q_bytes q @ response r)"
    using assms(2,3) by (rule respond_ok)
  then show "response_room q'" "q_bytes q' = q_bytes q @ response r"
    using assms(4) impliesD [OF queue_push_ex_total assms(5)] by (auto simp: response_room_ok)
qed

lemma builder_loop_any:
  "builder_loop al J n r q mal mem pos j = Inr (m, mal', q', mem') \<Longrightarrow> response_room q \<Longrightarrow>
   length (q_bytes q) + 36 * (n - pos + 1) \<le> 2 ^ 40 \<Longrightarrow>
   response_room q' \<and> length mem' = length mem \<and>
     (\<exists>rs. set rs \<subseteq> responses \<and> length rs \<le> n - pos \<and> q_bytes q' = q_bytes q @ concat rs)"
proof (induction "length mem - pos" arbitrary: r q mal mem pos j rule: less_induct)
  case less
  from less.prems(1) show ?case
  proof (cases rule: builder_loop_turn)
    case stop
    then show ?thesis using less.prems(2) by (auto intro!: exI [of _ "[]"])
  next
    case (answer t save mem1 r1 bytes k d q1)
    note tok = strtok_r_progress [OF answer(1)]
    have room: "length (q_bytes q) + 36 \<le> 2 ^ 40" using less.prems(3) by simp
    note q1 = respond_any [OF less.prems(2) room answer(3-5)]
    have resp: "response r1 \<in> responses" "length (response r1) \<le> 36"
      using response_in_responses [of r1] by (auto simp: responses_def response_lengths)
    from answer(6) show ?thesis
    proof (elim disjE conjE exE)
      assume "q' = q1" and "mem' = mem1"
      then show ?thesis
        using q1 tok resp answer(2) by (intro conjI exI [of _ "[response r1]"]) simp_all
    next
      fix i
      assume run: "builder_loop al J n r1 q1 False mem1 save i = Inr (m, mal', q', mem')"
      have "n - save < n - pos" using tok answer(2) by linarith
      then have lim: "length (q_bytes q1) + 36 * (n - save + 1) \<le> 2 ^ 40"
        using less.prems(3) resp(2) by (simp add: q1(2))
      from less.hyps [OF strtok_r_shrinks [OF answer(1)] run q1(1) lim]
      obtain rs where rs: "response_room q'" "length mem' = length mem1" "set rs \<subseteq> responses"
        "length rs \<le> n - save" "q_bytes q' = q_bytes q1 @ concat rs" by blast
      then show ?thesis
        using q1(2) tok resp(1) \<open>n - save < n - pos\<close> by (intro conjI exI [of _ "response r1 # rs"]) simp_all
    qed
  qed
qed

lemma handle_request_any:
  assumes "handle_request al J junk sq mem n = Inr (res, sq', mem')" and "response_room sq" and "q_bytes sq = []"
    and "36 * (n + 1) \<le> 2 ^ 40" and "length bs = n"
  shows "response_room sq'" and "length mem' = length mem" and "response_batch bs (q_bytes sq')"
proof -
  have "response_room sq' \<and> length mem' = length mem \<and> response_batch bs (q_bytes sq')"
  proof (cases "n = 0")
    case True
    then show ?thesis using assms by (simp add: handle_request_def)
  next
    case False
    then obtain m mal where "builder_loop al J n junk sq False mem 0 1 = Inr (m, mal, sq', mem')"
      using assms(1) by (auto simp: handle_request_def is_prime_request_builder_def res_simps split: if_splits)
    from builder_loop_any [OF this assms(2)] show ?thesis
      using assms(3-5) by (auto simp: response_batch_def)
  qed
  then show "response_room sq'" "length mem' = length mem" "response_batch bs (q_bytes sq')" by simp_all
qed

section \<open>An event, whatever happens\<close>

text \<open>How the handling of the bytes at hand returns: \<open>fin\<close> is the state it ends in.\<close>

lemma prime_answer_cases:
  assumes "rbind (handle_request al J junk sq mem sz) (\<lambda>(result, sdqu, mem).
      case queue_pop_no_copy sdqu of (sdsize, sddata, sdqu) \<Rightarrow>
      rbind (if sdsize > 0
             then (case sddata of
                     None \<Rightarrow> Inl Uninitialised
                   | Some mem \<Rightarrow> rbind (sendall fd mem sdsize k) (\<lambda>(rs, _, k). Inr (rs, k)))
             else Inr (0, k)) (\<lambda>(rs, k).
      if result \<le> 0 \<or> rs \<noteq> 0 then rbind (drop_connection e fd k) (\<lambda>k. Inr (fin mem sdqu k))
      else if r = -1 then Inr (fin mem sdqu k)
      else rbind (drop_connection e fd k) (\<lambda>k. Inr (fin mem sdqu k)))) = Inr s'"
  obtains res sdqu mem' n sent sq' k1 k2 where "handle_request al J junk sq mem sz = Inr (res, sdqu, mem')"
    and "queue_pop_no_copy sdqu = (n, sent, sq')"
    and "n \<le> 0 \<and> k1 = k \<or> (\<exists>m rs l. 0 < n \<and> sent = Some m \<and> sendall fd m n k = Inr (rs, l, k1))"
    and "k2 = k1 \<or> drop_connection e fd k1 = Inr k2" and "s' = fin mem' sq' k2"
proof -
  obtain res sdqu mem' where hr: "handle_request al J junk sq mem sz = Inr (res, sdqu, mem')"
    using assms by (auto simp: rbind_eq_Inr)
  obtain n sent sq' where pop: "queue_pop_no_copy sdqu = (n, sent, sq')" by (cases "queue_pop_no_copy sdqu") auto
  obtain rs k1 where flush: "(if n > 0 then (case sent of None \<Rightarrow> Inl Uninitialised
      | Some mem \<Rightarrow> rbind (sendall fd mem n k) (\<lambda>(rs, _, k). Inr (rs, k))) else Inr (0, k)) = Inr (rs, k1)"
    and last: "(if res \<le> 0 \<or> rs \<noteq> 0 then rbind (drop_connection e fd k1) (\<lambda>k. Inr (fin mem' sq' k))
      else if r = -1 then Inr (fin mem' sq' k1) else rbind (drop_connection e fd k1) (\<lambda>k. Inr (fin mem' sq' k))) = Inr s'"
    using assms unfolding hr rbind_Inr prod.case pop by (auto simp only: rbind_eq_Inr prod.case)
  have "n \<le> 0 \<and> k1 = k \<or> (\<exists>m rs l. 0 < n \<and> sent = Some m \<and> sendall fd m n k = Inr (rs, l, k1))"
    using flush by (auto simp: rbind_eq_Inr split: if_splits option.splits)
  moreover obtain k2 where "k2 = k1 \<or> drop_connection e fd k1 = Inr k2" "s' = fin mem' sq' k2"
    using last by (auto simp: rbind_eq_Inr split: if_splits)
  ultimately show ?thesis using hr pop by (intro that)
qed

text \<open>How an event of a connection returns: either nothing is answered, or the bytes at hand are handled.\<close>

lemma prime_event_cases:
  assumes "prime_event al J stk e lfd s fd = Inr s'" and "fd \<noteq> lfd"
  obtains (quiet) r qu k k' where "recv_request al fd (p_rcqu s) (p_k s) = Inr (r, qu, k)"
      and "k' = k \<or> drop_connection e fd k = Inr k'" and "s' = s\<lparr>p_rcqu := qu, p_k := k'\<rparr>"
  | (answer) r qu k sz mem rq res sdqu mem' n sent sq k1 k2 where "recv_request al fd (p_rcqu s) (p_k s) = Inr (r, qu, k)"
      and "queue_pop_no_copy qu = (sz, Some mem, rq)"
      and "handle_request al J (stk s) (p_sdqu s) mem (nat sz) = Inr (res, sdqu, mem')"
      and "queue_pop_no_copy sdqu = (n, sent, sq)"
      and "n \<le> 0 \<and> k1 = k \<or> (\<exists>m rs l. 0 < n \<and> sent = Some m \<and> sendall fd m n k = Inr (rs, l, k1))"
      and "k2 = k1 \<or> drop_connection e fd k1 = Inr k2" and "s' = \<lparr>p_rcqu = rq\<lparr>q_data := mem'\<rparr>, p_sdqu = sq, p_k = k2\<rparr>"
proof -
  obtain r qu k where recv: "recv_request al fd (p_rcqu s) (p_k s) = Inr (r, qu, k)"
    using assms by (auto simp: prime_event_def res_simps)
  obtain sz mem rq where pop: "queue_pop_no_copy qu = (sz, mem, rq)" by (cases "queue_pop_no_copy qu") auto
  note run = assms(1) [unfolded prime_event_def if_not_P [OF assms(2)] recv rbind_Inr prod.case pop]
  have closes: ?thesis if "rbind (drop_connection e fd k) (\<lambda>k. Inr (s\<lparr>p_rcqu := qu, p_k := k\<rparr>)) = Inr s'"
    using that quiet [OF recv] by (auto simp: res_simps)
  show ?thesis
  proof (cases "r < -1")
    case True
    then show ?thesis using run closes by simp
  next
    case False
    obtain psz peeked where peek: "queue_peek qu = (psz, peeked)" by fastforce
    from False obtain complete where rest: "(if complete
        then (case mem of
           None \<Rightarrow> Inl Uninitialised
         | Some mem \<Rightarrow>
            rbind (handle_request al J (stk s) (p_sdqu s) mem (nat sz)) (\<lambda>(result, sdqu, mem).
            let rcqu = rq\<lparr>q_data := mem\<rparr> in
            case queue_pop_no_copy sdqu of (sdsize, sddata, sdqu) \<Rightarrow>
            rbind (if sdsize > 0
                   then (case sddata of
                           None \<Rightarrow> Inl Uninitialised
                         | Some mem \<Rightarrow> rbind (sendall fd mem sdsize k) (\<lambda>(rs, _, k). Inr (rs, k)))
                   else Inr (0, k)) (\<lambda>(rs, k).
            if result \<le> 0 \<or> rs \<noteq> 0
            then rbind (drop_connection e fd k) (\<lambda>k. Inr \<lparr>p_rcqu = rcqu, p_sdqu = sdqu, p_k = k\<rparr>)
            else if r = -1 then Inr \<lparr>p_rcqu = rcqu, p_sdqu = sdqu, p_k = k\<rparr>
            else rbind (drop_connection e fd k) (\<lambda>k. Inr \<lparr>p_rcqu = rcqu, p_sdqu = sdqu, p_k = k\<rparr>))))
        else if r = -1 then Inr (s\<lparr>p_rcqu := qu, p_k := k\<rparr>)
        else rbind (drop_connection e fd k) (\<lambda>k. Inr (s\<lparr>p_rcqu := qu, p_k := k\<rparr>))) = Inr s'"
      using run unfolding if_not_P [OF False] peek prod.case rbind_eq_Inr by (elim exE conjE) (rule that)
    show ?thesis
    proof (cases complete)
      case False
      show ?thesis
      proof (cases "r = -1")
        case True
        then show ?thesis using rest \<open>\<not> complete\<close> by (intro quiet [OF recv, of k]) simp_all
      qed (rule closes, use rest \<open>\<not> complete\<close> in simp)
    next
      case True
      obtain m where m: "mem = Some m" using rest True by (cases mem) simp_all
      show ?thesis
        using rest unfolding if_P [OF True] m option.case Let_def
        by (rule prime_answer_cases) (rule answer [OF recv pop [unfolded m]])
    qed
  qed
qed

definition prime_sound :: "prime_state \<Rightarrow> bool" where
  "prime_sound s \<longleftrightarrow> q_inv (p_rcqu s) \<and> response_room (p_sdqu s) \<and> q_bytes (p_sdqu s) = [] \<and> k_inv (p_k s)"

text \<open>The bytes at hand: what is pending, from whatever client, and what the connection delivers.\<close>

definition at_hand :: "prime_state \<Rightarrow> int \<Rightarrow> char list" where
  "at_hand s fd = q_bytes (p_rcqu s) @ drained (k_rx (p_k s) fd)"

definition prime_sends :: "int \<Rightarrow> char list \<Rightarrow> prime_state \<Rightarrow> prime_state \<Rightarrow> bool" where
  "prime_sends fd bs s s' \<longleftrightarrow> (\<exists>batch p. response_batch bs batch \<and> prefix p batch \<and>
     k_out (p_k s') = (k_out (p_k s))(fd := k_out (p_k s) fd @ p))"

lemma prime_sends_none: "k_out (p_k s') = k_out (p_k s) \<Longrightarrow> prime_sends fd bs s s'"
  unfolding prime_sends_def by (intro exI [of _ "[]"]) simp

lemma response_room_flushed: "response_room q \<Longrightarrow> response_room (flushed q) \<and> q_bytes (flushed q) = []"
  using queue_reset_ok [of q] by (auto simp: response_room_def flushed_def) (auto simp: queue_reset_def)

lemma reset_with:
  assumes "q_inv q" and "length mem = length (q_data q)"
  shows "q_inv ((queue_reset q)\<lparr>q_data := mem\<rparr>)" and "q_bytes ((queue_reset q)\<lparr>q_data := mem\<rparr>) = []"
  using assms queue_reset_ok [OF assms(1)] by (auto simp: q_inv_def q_bytes_def queue_reset_def)

lemma response_batch_length:
  assumes "response_batch bs out"
  shows "length out \<le> 36 * length bs"
proof -
  obtain rs where rs: "set rs \<subseteq> responses" "length rs \<le> length bs" "out = concat rs"
    using assms unfolding response_batch_def by blast
  have "length (concat rs) \<le> 36 * length rs"
    using rs(1) by (induction rs) (auto simp: responses_def response_lengths)
  then show ?thesis using rs(2,3) by simp
qed

lemma prime_event_any:
  assumes "prime_event al J stk e lfd s fd = Inr s'" and "prime_sound s"
    and "fd \<noteq> lfd \<longrightarrow> 36 * (length (at_hand s fd) + 1) < 2 ^ 31"
  shows "prime_sound s' \<and> prime_sends fd (if fd = lfd then [] else at_hand s fd) s s'"
proof (cases "fd = lfd")
  case True
  then show ?thesis
    using assms(1,2) accept_any [of "epci e fd" "p_k s"]
    by (auto simp: prime_event_def res_simps prime_sound_def intro!: prime_sends_none)
next
  case other: False
  let ?bs = "at_hand s fd"
  have sound: "q_inv (p_rcqu s)" "response_room (p_sdqu s)" "q_bytes (p_sdqu s) = []" "k_inv (p_k s)"
    using assms(2) by (simp_all add: prime_sound_def)
  have small: "36 * (length ?bs + 1) < 2 ^ 31" using assms(3) other by simp
  then have lim: "length (q_bytes (p_rcqu s)) + length (drained (k_rx (p_k s) fd)) \<le> 2 ^ 40"
    by (simp add: at_hand_def)
  have heard: "q_inv qu" "q_bytes qu = ?bs" "k_out k = k_out (p_k s)" "k_inv k"
    if "recv_request al fd (p_rcqu s) (p_k s) = Inr (r, qu, k)" for r qu k
    using recv_request_any [OF that sound(1) lim] sound(4) by (simp_all add: at_hand_def)
  from assms(1) other show ?thesis
  proof (cases rule: prime_event_cases)
    case (quiet r qu k k')
    then show ?thesis
      using heard [OF quiet(1)] drop_maybe [OF quiet(2)] sound other
      by (auto simp: prime_sound_def intro!: prime_sends_none)
  next
    case (answer r qu k sz mem rq res sdqu mem' n sent sq k1 k2)
    note heard = heard [OF answer(1)]
    have pop: "sz = int (length ?bs)" "mem = q_data qu" "rq = queue_reset qu"
      using answer(2) pop_flushed [OF heard(1)] small by (auto simp: heard(2) flushed_def split: if_splits)
    have room: "36 * (nat sz + 1) \<le> 2 ^ 40" and len: "length ?bs = nat sz" using small by (simp_all add: pop(1))
    note req = handle_request_any [OF answer(3) sound(2,3) room len]
    have "length (q_bytes sdqu) < 2 ^ 31" using response_batch_length [OF req(3)] small by simp
    with answer(4) have flush: "n = int (length (q_bytes sdqu))" "sq = flushed sdqu"
      "q_bytes sdqu \<noteq> [] \<longrightarrow> sent = Some (q_data sdqu)"
      using pop_flushed [of sdqu] req(1) by (auto simp: response_room_def)
    have "k1 = k \<or> (\<exists>rs l. sendall fd (q_data sdqu) (int (length (q_bytes sdqu))) k = Inr (rs, l, k1))"
      using answer(5) flush by auto
    from flush_any [OF _ this] heard(4) req(1)
    have out: "\<exists>p. prefix p (q_bytes sdqu) \<and> k_out k1 = (k_out k)(fd := k_out k fd @ p)" and inv: "k_inv k1"
      by (simp_all add: response_room_def)
    have "q_inv (rq\<lparr>q_data := mem'\<rparr>)"
      unfolding pop(3) by (rule reset_with [OF heard(1)]) (use req(2) pop(2) in simp)
    then show ?thesis
      using answer(7) req out inv drop_maybe [OF answer(6)] response_room_flushed [OF req(1)] heard(3) other
      by (auto simp: prime_sound_def prime_sends_def flush(2))
  qed
qed

section \<open>Runs\<close>

definition prime_step ::
  "'j json_lib \<Rightarrow> (prime_state \<Rightarrow> is_prime_request) \<Rightarrow> int \<Rightarrow> int \<Rightarrow> prime_state \<Rightarrow> allocator \<times> int \<Rightarrow> prime_state res" where
  "prime_step J stk e lfd s i = (case i of (al, fd) \<Rightarrow> prime_event al J stk e lfd s fd)"

definition prime_can :: "int \<Rightarrow> prime_state \<Rightarrow> allocator \<times> int \<Rightarrow> bool" where
  "prime_can lfd s i \<longleftrightarrow> (snd i \<noteq> lfd \<longrightarrow> 36 * (length (at_hand s (snd i)) + 1) < 2 ^ 31)"

definition prime_moves :: "prime_state \<Rightarrow> prime_state \<Rightarrow> bool" where
  "prime_moves s s' \<longleftrightarrow> p_rcqu s' = p_rcqu s \<and> p_sdqu s' = p_sdqu s \<and> kernel_moves (p_k s) (p_k s')"

definition prime_obs :: "int \<Rightarrow> prime_state \<Rightarrow> allocator \<times> int \<Rightarrow> int \<times> char list" where
  "prime_obs lfd s i = (snd i, if snd i = lfd then [] else at_hand s (snd i))"

text \<open>Each event has a batch of responses, and what goes out is made of front parts of these.\<close>

definition batched :: "(int \<times> char list) list \<Rightarrow> (int \<times> char list) list \<Rightarrow> bool" where
  "batched tr bss \<longleftrightarrow> list_all2 (\<lambda>(fd, bs) (c, out). c = fd \<and> response_batch bs out) tr bss"

lemma batched_snoc: "batched tr bss \<Longrightarrow> response_batch bs b \<Longrightarrow> batched (tr @ [(fd, bs)]) (bss @ [(fd, b)])"
  by (simp add: batched_def list_all2_appendI)

definition prime_good :: "(int \<Rightarrow> char list) \<Rightarrow> (int \<times> char list) list \<Rightarrow> prime_state \<Rightarrow> bool" where
  "prime_good out0 tr s \<longleftrightarrow> prime_sound s \<and> (\<exists>bss. batched tr bss \<and> pieces out0 bss (k_out (p_k s)))"

interpretation prime_world: driver "prime_step J stk e lfd" "prime_can lfd" prime_moves "prime_obs lfd" "prime_good out0"
  for J :: "'j json_lib" and stk e lfd out0
proof
  fix tr s i s'
  assume good: "prime_good out0 tr s" and can: "prime_can lfd s i" and step: "prime_step J stk e lfd s i = Inr s'"
  obtain al fd where i: "i = (al, fd)" by (cases i)
  from step have "prime_event al J stk e lfd s fd = Inr s'" by (simp add: prime_step_def i)
  from prime_event_any [OF this] good can have
    post: "prime_sound s'" "prime_sends fd (snd (prime_obs lfd s i)) s s'"
    by (auto simp: prime_good_def prime_can_def prime_obs_def i)
  then obtain batch p where batch: "response_batch (snd (prime_obs lfd s i)) batch" and p: "prefix p batch"
    and out: "k_out (p_k s') = (k_out (p_k s))(fd := k_out (p_k s) fd @ p)"
    unfolding prime_sends_def by blast
  obtain bss where bss: "batched tr bss" "pieces out0 bss (k_out (p_k s))"
    using good unfolding prime_good_def by blast
  have "(fd, snd (prime_obs lfd s i)) = prime_obs lfd s i" by (simp add: prime_obs_def i)
  then have "batched (tr @ [prime_obs lfd s i]) (bss @ [(fd, batch)])"
    using batched_snoc [OF bss(1) batch, of fd] by simp
  then show "prime_good out0 (tr @ [prime_obs lfd s i]) s'"
    using post(1) pieces_step [OF bss(2) p out] unfolding prime_good_def by blast
next
  fix tr s s'
  assume "prime_good out0 tr s" and "prime_moves s s'"
  then show "prime_good out0 tr s'"
    using kernel_moves_keeps [of "p_k s" "p_k s'"] by (simp add: prime_good_def prime_sound_def prime_moves_def)
qed

lemma prime_start:
  assumes "prime_main al J stk env L k [] = Inr s0" and "k_inv k"
  shows "prime_sound s0" and "k_out (p_k s0) = k_out k"
proof -
  obtain lfd L' k0 q q' where start: "server_start env L k = Inr (lfd, L', k0)"
    and q: "queue_init al None 2048 = Inr (Some q)" "queue_init al None 2048 = Inr (Some q')"
    and s0: "s0 = \<lparr>p_rcqu = q, p_sdqu = q', p_k = k0\<rparr>"
    using assms(1) by (auto simp: prime_main_def res_simps split: option.splits)
  have "returns (queue_init (total_alloc al) None 2048)
    (\<lambda>qu. \<exists>q. qu = Some q \<and> q_inv q \<and> q_bytes q = [] \<and> q_capacity q = 2048)"
    by (rule queue_init_ok) simp_all
  then have "q_inv q" "q_bytes q = []" "q_capacity q = 2048"
    using impliesD [OF queue_init_total q(1)] by auto
  then show "prime_sound s0"
    using server_start_any(3) [OF start] assms(2) q q_inv_length [of q]
    by (simp add: prime_sound_def response_room_def s0)
  show "k_out (p_k s0) = k_out k" using server_start_any(2) [OF start] by (simp add: s0)
qed

text \<open>C8: in whatever way the kernel answers, memory runs out, sends fail and bytes and connections arrive, whatever fresh
  memory and the stack hold, and whatever the JSON library makes of a line: as long as the prime server has not
  stopped, its send queue is empty between events, with room for the response that is written without a check, and
  everything sent on a connection is put together from front parts of one batch per event of that connection, each batch a
  sequence of its three responses, no more of them than there were bytes at hand.\<close>

theorem prime_sends_responses_only:
  assumes "prime_main al J stk env L k [] = Inr s0" and "k_inv k"
    and "driven (prime_step J stk e lfd) (prime_can lfd) prime_moves (prime_obs lfd) s0 tr s"
  shows "q_bytes (p_sdqu s) = [] \<and> response_room (p_sdqu s) \<and> q_inv (p_rcqu s) \<and> k_inv (p_k s) \<and>
    (\<exists>bss. batched tr bss \<and> pieces (k_out k) bss (k_out (p_k s)))"
proof -
  have "batched [] [] \<and> pieces (k_out k) [] (k_out (p_k s0))"
    using prime_start(2) [OF assms(1,2)] by (simp add: batched_def pieces_start)
  then have "prime_good (k_out k) [] s0"
    using prime_start(1) [OF assms(1,2)] unfolding prime_good_def by blast
  from prime_world.driven_good [OF assms(3) this] show ?thesis
    by (simp add: prime_good_def prime_sound_def)
qed

text \<open>A run in which a connection is accepted and its request arrives only then.\<close>

definition request_kernel :: "kernel \<Rightarrow> kernel" where
  "request_kernel k = k\<lparr>k_rx := (k_rx k)(7 := [RxData [CHR ''7'', NL]])\<rparr>"

lemma batched_two:
  "batched [(a, xs), (b, ys)] bss \<longleftrightarrow> (\<exists>u v. bss = [(a, u), (b, v)] \<and> response_batch xs u \<and> response_batch ys v)"
  by (auto simp: batched_def list_all2_Cons1)

theorem prime_sends_responses_only_witness:
  "\<exists>s0 s. prime_main zero_alloc toy_json junk_request sample_env log_initial idle_kernel [] = Inr s0 \<and>
     driven (prime_step toy_json junk_request 5 4) (prime_can 4) prime_moves (prime_obs 4) s0
       [(4, []), (7, [CHR ''7'', NL])] s \<and>
     k_out (p_k s) 7 = prime_response True \<and>
     (\<exists>batch. response_batch [CHR ''7'', NL] batch \<and> prefix (k_out (p_k s) 7) batch)"
proof -
  let ?step = "prime_step toy_json junk_request 5 4" and ?inv = "prime_inv zero_alloc toy_json junk_request"
  obtain L' k0 where start: "server_start sample_env log_initial idle_kernel = Inr (4, L', k0)"
    and k0: "registered k0 = {4}" "k_accept k0 = [7]" "k_ctl_fails k0 = []" "k_tx k0 = (\<lambda>_. [])"
      "k_out k0 = (\<lambda>_. [])"
    using sample_start [of idle_kernel] by (auto simp: quiet_kernel_def idle_kernel_def)
  obtain s0 where main: "prime_main zero_alloc toy_json junk_request sample_env log_initial idle_kernel [] = Inr s0"
    and s0: "?inv s0" "prime_view s0 = ([], k_out k0, k_rx k0, registered k0, k_accept k0)"
    using prime_main_serves [OF start zero_alloc_zeroed toy_env k0(3,4), of "[]"] by (auto simp: returns_iff)
  obtain s1 where s1: "prime_event zero_alloc toy_json junk_request 5 4 s0 4 = Inr s1" "?inv s1"
    "prime_view s1 = prime_service toy_json 4 (prime_view s0) 4"
    using prime_event_accepts [OF s0(1), of 4 5] by (auto simp: returns_iff s0(2) prime_ok_def k0)
  let ?s1 = "s1\<lparr>p_k := request_kernel (p_k s1)\<rparr>"
  have "prime_view s1 = ([], k_out k0, k_rx k0, {4, 7}, [])"
    unfolding s1(3) s0(2) by (auto simp: prime_service_def k0)
  then have view: "prime_view ?s1 = ([], k_out k0, (k_rx k0)(7 := [RxData [CHR ''7'', NL]]), {4, 7}, [])"
    by (simp add: prime_view_def request_kernel_def registered_def)
  have "?inv ?s1" using s1(2) by (simp add: prime_inv_def request_kernel_def)
  moreover have "prime_ok toy_json 4 (prime_view ?s1) 7"
    unfolding view by (simp add: prime_ok_def terminated_def small_numbers_def toy_lines_7 toy_numbers ROOT_def)
      (simp add: NL_def NUL_def)
  ultimately obtain s2 where s2: "prime_event zero_alloc toy_json junk_request 5 4 ?s1 7 = Inr s2"
    "prime_view s2 = prime_service toy_json 4 (prime_view ?s1) 7"
    using prime_event_answers [of zero_alloc toy_json junk_request ?s1 4 7 5] by (auto simp: returns_iff)
  have hand: "at_hand ?s1 7 = [CHR ''7'', NL]"
    using view by (simp add: at_hand_def prime_view_def)
  have "driven ?step (prime_can 4) prime_moves (prime_obs 4) s0 ([] @ [prime_obs 4 s0 (zero_alloc, 4)]) s1"
    by (rule driven_event [OF driven_start]) (simp_all add: prime_can_def prime_step_def s1(1))
  then have "driven ?step (prime_can 4) prime_moves (prime_obs 4) s0 ([] @ [prime_obs 4 s0 (zero_alloc, 4)]) ?s1"
    by (rule driven_world) (simp add: prime_moves_def kernel_moves_def request_kernel_def)
  then have "driven ?step (prime_can 4) prime_moves (prime_obs 4) s0
      (([] @ [prime_obs 4 s0 (zero_alloc, 4)]) @ [prime_obs 4 ?s1 (zero_alloc, 7)]) s2"
    by (rule driven_event) (simp add: prime_can_def hand, simp add: prime_step_def s2(1))
  then have run: "driven ?step (prime_can 4) prime_moves (prime_obs 4) s0 [(4, []), (7, [CHR ''7'', NL])] s2"
    by (simp add: prime_obs_def hand)
  have "k_inv idle_kernel" by (simp add: k_inv_def idle_kernel_def quiet_kernel_def)
  from prime_sends_responses_only [OF main this run] obtain u v where
    "response_batch [CHR ''7'', NL] v" "pieces (k_out idle_kernel) [(4, u), (7, v)] (k_out (p_k s2))"
    by (auto simp: batched_two)
  then have "response_batch [CHR ''7'', NL] v" "prefix (k_out (p_k s2) 7) v"
    by (auto simp: pieces_def batches_def made_of_def list_all2_Cons2 idle_kernel_def quiet_kernel_def dest!: spec [of _ 7])
  moreover have "k_out (p_k s2) 7 = prime_response True"
    using s2(2) unfolding view
    by (simp add: prime_view_def prime_service_def Let_def toy_lines_7 toy_numbers toy_prime reply_def some_malformed_def k0(5))
  ultimately show ?thesis using main run by blast
qed

end
