(* ===== verification/Answers.thy ===== *)
theory Answers
  imports Means Echo
begin

text \<open>
  The price server from the side of one client: whatever the other clients do and however the events interleave, the answers it gets
  are those of its own requests, however its bytes were cut on the way, and its session ends with its connection.
\<close>

section \<open>Requests in pieces\<close>

lemma serve_from: "foldl serve (cs, out) rs = (fst (foldl serve (cs, []) rs), out @ snd (foldl serve (cs, []) rs))"
proof (induction rs arbitrary: cs out)
  case (Cons r rs)
  obtain cs' o' where r: "serve (cs, []) r = (cs', o')" by fastforce
  then have "serve (cs, out) r = (cs', out @ o')" by (cases r) auto
  then show ?case using r Cons.IH [of cs' o'] Cons.IH [of cs' "out @ o'"] by simp
qed simp

lemma requests_append:
  assumes "length xs mod 9 = 0"
  shows "requests (xs @ ys) = requests xs @ requests ys"
  using assms
proof (induction xs rule: requests.induct)
  case (1 xs)
  show ?case
  proof (cases "length xs < 9")
    case True
    then have "xs = []" using "1.prems" by simp
    then show ?thesis by (simp add: requests.simps [of "[]"])
  next
    case False
    then have "length (drop 9 xs) mod 9 = 0" using "1.prems" by (simp add: le_mod_geq)
    then show ?thesis
      using False "1.IH" by (simp add: requests.simps [of xs] requests.simps [of "xs @ ys"])
  qed
qed

text \<open>What a client is owed for bytes that make up whole messages.\<close>

definition due_to :: "asset_price list \<Rightarrow> char list \<Rightarrow> char list" where
  "due_to cs bs = snd (foldl serve (cs, []) (requests bs))"

lemma due_to_append:
  "length xs mod 9 = 0 \<Longrightarrow> due_to cs (xs @ ys) = due_to cs xs @ due_to (fst (foldl serve (cs, []) (requests xs))) ys"
  using serve_from [of "fst (foldl serve (cs, []) (requests xs))" "snd (foldl serve (cs, []) (requests xs))" "requests ys"]
  by (simp add: due_to_def requests_append)

section \<open>One client\<close>

definition means_local :: "int \<Rightarrow> means_view \<Rightarrow> char list \<times> rx list \<times> bool \<times> (asset_price list \<times> char list) option" where
  "means_local c v = (case v of (out, rx, conns, acc, t) \<Rightarrow> (out c, rx c, c \<in> conns, map_of t c))"

definition means_away :: "int \<Rightarrow> int \<Rightarrow> means_view \<Rightarrow> bool" where
  "means_away lfd c v \<longleftrightarrow> c \<noteq> lfd \<and> c \<notin> set (fst (snd (snd (snd v))))"

definition means_lstep :: "char list \<times> rx list \<times> bool \<times> (asset_price list \<times> char list) option \<Rightarrow>
    char list \<times> rx list \<times> bool \<times> (asset_price list \<times> char list) option" where
  "means_lstep l = (case l of (out, rx, conn, row) \<Rightarrow> (case the row of (cs, pending) \<Rightarrow>
     (let bs = pending @ drained rx; a = answer cs bs in
      (if stop_code rx < -1 then out else out @ snd a, remaining rx, conn \<and> stop_code rx = -1,
       if stop_code rx = -1 then Some (fst a, if complete bs then [] else bs) else None))))"

lemma map_of_set_row: "map_of (set_row k v t) c = (if c = k then map_option (\<lambda>_. v) (map_of t c) else map_of t c)"
  by (induction t) (auto simp: set_row_def)

lemma map_of_dropped: "map_of (filter (\<lambda>e. fst e \<noteq> k) t) c = (if c = k then None else map_of t c)"
  by (induction t) auto

interpretation means_client: per_client "means_service lfd" "means_ok lfd" "means_away lfd c" "means_local c" means_lstep c
  for lfd c
proof unfold_locales
  fix v assume "means_away lfd c v" and "means_ok lfd v c"
  then show "means_local c (means_service lfd v c) = means_lstep (means_local c v)"
    by (cases "map_of (snd (snd (snd (snd v)))) c")
      (auto simp: means_away_def means_ok_def means_local_def means_lstep_def means_service_def Let_def map_of_set_row
        map_of_dropped map_of_eq_None_iff split: prod.splits)
next
  fix v i assume "means_away lfd c v" and "means_ok lfd v i" and "i \<noteq> c"
  then show "means_local c (means_service lfd v i) = means_local c v"
    by (auto simp: means_away_def means_ok_def means_local_def means_service_def Let_def map_of_set_row map_of_dropped map_add_def
        split: prod.splits option.splits if_splits)
next
  fix v i assume "means_away lfd c v" and "means_ok lfd v i"
  then show "means_away lfd c (means_service lfd v i)"
    by (auto simp: means_away_def means_ok_def means_service_def Let_def split: prod.splits if_splits dest: list.set_sel)
qed

lemma means_lstep_stream:
  "[] \<notin> set bs \<Longrightarrow> length (pending @ concat bs @ fin) mod 9 = 0 \<Longrightarrow>
   \<exists>rx. (means_lstep ^^ Suc (length bs)) (out, stream bs fin, conn, Some (cs, pending))
     = (out @ due_to cs (pending @ concat bs @ fin), rx, False, None)"
proof (induction bs arbitrary: out conn cs pending)
  case Nil
  then have "snd (answer cs (pending @ fin)) = due_to cs (pending @ fin)"
    by (cases "pending @ fin") (auto simp: answer_def complete_def due_to_def requests.simps [of "[]"])
  then show ?case using stream_steps(1,2) [of fin] by (simp add: means_lstep_def)
next
  case (Cons b bs)
  then have b: "b \<noteq> []" "[] \<notin> set bs" by auto
  have step: "means_lstep (out, stream (b # bs) fin, conn, Some (cs, pending))
      = (out @ snd (answer cs (pending @ b)), stream bs fin, conn,
         Some (fst (answer cs (pending @ b)), if complete (pending @ b) then [] else pending @ b))"
    using stream_steps(3-5) [OF b(1), of bs fin] by (simp only: means_lstep_def prod.case option.sel) (simp add: Let_def)
  show ?case
  proof (cases "complete (pending @ b)")
    case False
    then have "means_lstep (out, stream (b # bs) fin, conn, Some (cs, pending)) = (out, stream bs fin, conn, Some (cs, pending @ b))"
      using step by (simp add: answer_def)
    then show ?thesis
      using Cons.IH [OF b(2), of "pending @ b" out conn cs] Cons.prems(2) by (simp add: funpow_Suc_right del: funpow.simps)
  next
    case True
    define cs' where "cs' = fst (foldl serve (cs, []) (requests (pending @ b)))"
    have nine: "length (pending @ b) mod 9 = 0" using True by (simp add: complete_def)
    have "length (concat bs @ fin) mod 9 = 0"
    proof -
      have "length (pending @ b) + length (concat bs @ fin) = length (pending @ concat (b # bs) @ fin)" by simp
      then show ?thesis using Cons.prems(2) nine by (metis add_0 mod_add_left_eq)
    qed
    then obtain rx where "(means_lstep ^^ Suc (length bs)) (out @ due_to cs (pending @ b), stream bs fin, conn, Some (cs', []))
        = ((out @ due_to cs (pending @ b)) @ due_to cs' (concat bs @ fin), rx, False, None)"
      using Cons.IH [OF b(2), of "[]" "out @ due_to cs (pending @ b)" conn cs'] by auto
    moreover have "means_lstep (out, stream (b # bs) fin, conn, Some (cs, pending))
        = (out @ due_to cs (pending @ b), stream bs fin, conn, Some (cs', []))"
      using step True by (simp add: answer_def due_to_def cs'_def)
    moreover have "due_to cs (pending @ concat (b # bs) @ fin) = due_to cs (pending @ b) @ due_to cs' (concat bs @ fin)"
      using due_to_append [OF nine, of cs "concat bs @ fin"] by (simp add: cs'_def)
    ultimately show ?thesis by (simp add: funpow_Suc_right del: funpow.simps)
  qed
qed

section \<open>Properties\<close>

text \<open>C15: under the conditions of theory Means for the events of all clients (no byte 0x25 in the answers due to any of them or in fresh
  memory, whole sends, no failure of epoll_ctl or of the allocation, sizes below \<open>2 ^ 31\<close>), every client of the price server is served to its end: however the
  events of the others are interleaved, when as many events have come for a client as it sends batches and it sent a whole number of messages, it has been
  sent the answers to all its requests, in order and computed from its own prices, wherever its bytes were cut; and
  its connection and its session are gone.\<close>

theorem prices_answered_to_the_end:
  assumes "means_inv al lfd s" and "run_ok (means_ok lfd) (means_service lfd) (means_view s) fds" and "c \<noteq> lfd"
    and "k_rx (m_k s) c = stream bs fin" and "[] \<notin> set bs" and "count_list fds c = length bs + 1"
    and "c \<notin> set (k_accept (m_k s))" and "map_of (sl_table (m_ca s)) c = Some (cs, pending)"
    and "length (pending @ concat bs @ fin) mod 9 = 0"
  shows "returns (run_res (means_event al e lfd) s fds)
    (\<lambda>s'. k_out (m_k s') c = k_out (m_k s) c @ snd (foldl serve (cs, []) (requests (pending @ concat bs @ fin))) \<and>
       c \<notin> registered (m_k s') \<and> c \<notin> fst ` set (sl_table (m_ca s')))"
proof -
  have away: "means_away lfd c (means_view s)" using assms(3,7) by (simp add: means_away_def means_view_def)
  have "means_local c (means_view s) = (k_out (m_k s) c, stream bs fin, c \<in> registered (m_k s), Some (cs, pending))"
    using assms(4,8) by (simp add: means_local_def means_view_def)
  with means_client.run_local [OF away assms(2)] means_lstep_stream [OF assms(5,9)] obtain rx where
    final: "means_local c (foldl (means_service lfd) (means_view s) fds)
      = (k_out (m_k s) c @ due_to cs (pending @ concat bs @ fin), rx, False, None)"
    unfolding assms(6) by (metis Suc_eq_plus1)
  from means.run_refines [OF assms(1,2), of e] show ?thesis
    by (rule returns_mono)
      (use final in \<open>simp add: means_local_def means_view_def due_to_def map_of_eq_None_iff split: prod.splits\<close>)
qed

definition price_caller :: "session_list \<Rightarrow> means_state" where
  "price_caller ca = \<lparr>m_ca = ca, m_sdqu = queue_reset small_queue,
     m_k = quiet_kernel\<lparr>k_interest := [(7, [EPOLLIN]), (4, [EPOLLIN])], k_accept := [8],
       k_rx := (\<lambda>_. [])(7 := stream [take 5 session_bytes] (drop 5 session_bytes))\<rparr>\<rparr>"

theorem prices_answered_to_the_end_witness:
  "\<exists>ca. clients_session_add zero_alloc no_sessions 7 = Inr ca \<and>
     returns (run_res (means_event zero_alloc 5 4) (price_caller ca) [7, 4, 7])
       (\<lambda>s'. k_out (m_k s') 7 = be32 101 \<and> 7 \<notin> registered (m_k s') \<and> 7 \<notin> fst ` set (sl_table (m_ca s')))"
proof -
  obtain ca where ca: "clients_session_add zero_alloc no_sessions 7 = Inr ca" "sl_rows ca" "sl_table ca = [(7, [], [])]"
    using sl_add_law [of no_sessions zero_alloc 7] no_sessions_rows zero_alloc_ok by (auto simp: returns_iff)
  have inv: "means_inv zero_alloc 4 (price_caller ca)"
    using queue_reset_ok [OF small_queue_inv] ca(2,3)
    by (simp add: means_inv_def price_caller_def zero_alloc_ok quiet_kernel_def registered_def)
      (simp add: q_all_def small_queue_def no_percent_def fresh_all_def zero_alloc_def NUL_def insert_Diff_if)
  have view: "means_view (price_caller ca) = ((\<lambda>_. []), (\<lambda>_. [])(7 := stream [take 5 session_bytes] (drop 5 session_bytes)),
      {7, 4}, [8], [(7, [], [])])"
    using ca(3) by (simp add: means_view_def price_caller_def quiet_kernel_def registered_def)
  have rx: "take 5 session_bytes \<noteq> []" "drop 5 session_bytes \<noteq> []" "\<not> complete (take 5 session_bytes)"
    using session_bytes_facts by (auto simp: complete_def)
  have "run_ok (means_ok 4) (means_service 4) (means_view (price_caller ca)) [7, 4, 7]"
    using rx no_percent_101 session_bytes_facts(2)
    by (simp add: view means_ok_def means_service_def sample_answers set_row_def EAGAIN_def EWOULDBLOCK_def)
  from prices_answered_to_the_end [OF inv this, of 7 "[take 5 session_bytes]" "drop 5 session_bytes" "[]" "[]" 5]
  have "returns (run_res (means_event zero_alloc 5 4) (price_caller ca) [7, 4, 7])
    (\<lambda>s'. k_out (m_k s') 7 = k_out (m_k (price_caller ca)) 7 @ snd (foldl serve ([], []) (requests session_bytes)) \<and>
       7 \<notin> registered (m_k s') \<and> 7 \<notin> fst ` set (sl_table (m_ca s')))"
    using rx session_bytes_facts(2) ca(3) by (simp add: price_caller_def quiet_kernel_def)
  moreover have "snd (foldl serve ([], []) (requests session_bytes)) = be32 101"
    using sample_answers(1) session_bytes_facts by (simp add: answer_def complete_def)
  ultimately show ?thesis using ca(1) by (auto simp: price_caller_def quiet_kernel_def)
qed

end
