(* ===== verification/ChatRoom.thy ===== *)
theory ChatRoom
  imports ChatMain
begin

text \<open>
  What the handler of an event in \<open>budget-chat/main.c\<close> does to a whole room. The list of clients in the heap, their queues
  and the kernel are read as a \<open>room\<close>: the members in order, what each one has sent since its last line, what the buffer of
  its queue still holds, and the sockets. \<open>room_event\<close> says what an event does to a room, with everything that is sent, and
  \<open>chat_event\<close> refines it, for any list of clients and not only for the lone client the server comes to have.
\<close>

section \<open>A room\<close>

record member =
  mb_id :: int
  mb_name :: "char list"
  mb_size :: size_t
  mb_bytes :: "char list"
  mb_text :: "char list"

type_synonym outputs = "int \<Rightarrow> char list"

record room =
  rm_members :: "member list"
  rm_rx :: "int \<Rightarrow> rx list"
  rm_out :: outputs
  rm_waiting :: "int list"
  rm_conns :: "int set"

text \<open>Those with a name, other than \<open>me\<close>; and the name as it is printed.\<close>

definition rivals :: "int \<Rightarrow> member list \<Rightarrow> member list" where
  "rivals me ms = filter (\<lambda>m. mb_id m \<noteq> me \<and> mb_name m \<noteq> [] \<and> hd (mb_name m) \<noteq> NUL) ms"

definition shown :: "member \<Rightarrow> char list" where
  "shown m = takeWhile (\<lambda>c. c \<noteq> NUL) (mb_name m)"

definition say :: "int \<Rightarrow> char list \<Rightarrow> outputs \<Rightarrow> outputs" where
  "say fd bs out = out(fd := out fd @ bs)"

text \<open>What is meant for everybody else goes to the first member, once for each of the others.\<close>

definition announce :: "member list \<Rightarrow> int \<Rightarrow> char list \<Rightarrow> outputs \<Rightarrow> outputs" where
  "announce ms me txt = say (mb_id (hd ms)) (concat (replicate (length (rivals me ms)) txt))"

definition the_member :: "int \<Rightarrow> member list \<Rightarrow> member" where
  "the_member fd ms = the (find (\<lambda>m. mb_id m = fd) ms)"

definition put_member :: "member \<Rightarrow> member list \<Rightarrow> member list" where
  "put_member m ms = map (\<lambda>x. if mb_id x = mb_id m then m else x) ms"

text \<open>Received bytes are laid over what the buffer holds.\<close>

definition hear :: "char list \<Rightarrow> member \<Rightarrow> member" where
  "hear bs m = m\<lparr>mb_bytes := mb_bytes m @ bs, mb_text := over (mb_bytes m @ bs) (mb_text m)\<rparr>"

definition room_list :: "int \<Rightarrow> member list \<Rightarrow> char list" where
  "room_list me ms = CLIENT_MEMBERS @ concat (map (\<lambda>x. '', '' @ take (unat (mb_size x)) (mb_name x)) (rivals me ms))"

text \<open>A complete line: a message or a name. The result says whether the connection is kept.\<close>

definition room_handle :: "member list \<Rightarrow> member \<Rightarrow> outputs \<Rightarrow> bool \<times> member \<times> outputs" where
  "room_handle ms m out =
     (let bs = mb_bytes m; me = mb_id m; heard = m\<lparr>mb_bytes := []\<rparr> in
      if mb_name m \<noteq> [] \<and> hd (mb_name m) \<noteq> NUL
      then (True, heard,
        if 2 \<le> length bs \<and> length bs \<le> 1025 then announce ms me (message_text (shown m) (mb_text m)) out else out)
      else (case name_verdict (map mb_name (rivals me ms)) bs of
          Some msg \<Rightarrow> (False, heard, say me msg out)
        | None \<Rightarrow> (True, heard\<lparr>mb_name := stored_name (mb_name m) (butlast bs), mb_size := of_nat (length bs - 1),
              mb_text := over (room_list me ms) (mb_text m)\<rparr>,
            announce ms me (joined_note (shown_name (mb_name m) (butlast bs))) (say me (room_list me ms) out))))"

definition room_serve :: "int \<Rightarrow> room \<Rightarrow> room" where
  "room_serve fd r =
     (let stop = stop_code (rm_rx r fd); m = hear (drained (rm_rx r fd)) (the_member fd (rm_members r));
          ms = put_member m (rm_members r); gone = rm_conns r - {fd};
          r = r\<lparr>rm_rx := (rm_rx r)(fd := remaining (rm_rx r fd))\<rparr>
      in if stop < -1 then r\<lparr>rm_members := ms, rm_conns := gone\<rparr>
         else (case (if CHR 0x0A \<in> set (mb_bytes m) then room_handle ms m (rm_out r) else (True, m, rm_out r)) of
           (alive, m, out) \<Rightarrow>
             let ms = put_member m ms in
             if \<not> alive then r\<lparr>rm_members := ms, rm_out := out, rm_conns := gone\<rparr>
             else if stop = -1 then r\<lparr>rm_members := ms, rm_out := out\<rparr>
             else r\<lparr>rm_members := filter (\<lambda>x. mb_id x \<noteq> fd) ms, rm_out := announce ms fd (left_note (shown m)) out,
                    rm_conns := gone\<rparr>))"

text \<open>A connection that is accepted makes the listening socket the only member, without a name.\<close>

definition newcomer :: "int \<Rightarrow> member" where
  "newcomer fd = \<lparr>mb_id = fd, mb_name = replicate 33 NUL, mb_size = 0, mb_bytes = [], mb_text = []\<rparr>"

definition room_event :: "int \<Rightarrow> room \<Rightarrow> int \<Rightarrow> room" where
  "room_event lfd r fd =
     (if fd = lfd
      then r\<lparr>rm_members := [newcomer lfd], rm_out := say lfd CLIENT_WELCOME_PROMPT (rm_out r),
             rm_waiting := tl (rm_waiting r), rm_conns := insert (hd (rm_waiting r)) (rm_conns r)\<rparr>
      else room_serve fd r)"

text \<open>
  What the peers and the kernel have to respect: an event is about a member of the room whose connection is open, as is the
  first member's, to which the announcements go; bytes are neither NUL nor percent signs; and a message fits into the array
  it is composed in together with what its buffer held before.
\<close>

definition room_ok :: "int \<Rightarrow> room \<Rightarrow> int \<Rightarrow> bool" where
  "room_ok lfd r fd \<longleftrightarrow>
     (if fd = lfd then rm_waiting r \<noteq> [] \<and> hd (rm_waiting r) \<noteq> -1 \<and> hd (rm_waiting r) \<notin> rm_conns r
      else (let bs = drained (rm_rx r fd); m = hear bs (the_member fd (rm_members r)) in
        fd \<in> mb_id ` set (rm_members r) \<and> fd \<in> rm_conns r \<and> mb_id (hd (rm_members r)) \<in> rm_conns r \<and>
        NUL \<notin> set bs \<and> list_all no_percent bs \<and>
        length (mb_bytes m) < 2 ^ 31 \<and> 33 * length (rm_members r) + 21 < 2 ^ 31 \<and>
        (CHR 0x0A \<in> set (mb_bytes m) \<longrightarrow> length (mb_bytes m) \<le> 1025 \<longrightarrow>
           length (message_text (shown m) (mb_text m)) \<le> 1056)))"

section \<open>The room of a state\<close>

definition member_of :: "client \<Rightarrow> member" where
  "member_of n = \<lparr>mb_id = c_id n, mb_name = c_name n, mb_size = c_name_size n,
     mb_bytes = q_bytes (the (c_recv_qu n)), mb_text = q_text (the (c_recv_qu n))\<rparr>"

definition members :: "client heap \<Rightarrow> nat list \<Rightarrow> member list" where
  "members h xs = map member_of (clients h xs)"

definition room_with :: "client heap \<Rightarrow> nat list \<Rightarrow> kernel \<Rightarrow> room" where
  "room_with h xs k = \<lparr>rm_members = members h xs, rm_rx = k_rx k, rm_out = k_out k, rm_waiting = k_accept k,
     rm_conns = registered k\<rparr>"

definition room_of :: "chat_state \<Rightarrow> room" where
  "room_of s = room_with (ch_heap s) (addresses (ch_heap s) (ch_c s)) (ch_k s)"

definition client_ok :: "client \<Rightarrow> bool" where
  "client_ok n \<longleftrightarrow> 0 < c_id n \<and> name_wf n \<and> list_all no_percent (c_name n) \<and>
     (case c_recv_qu n of None \<Rightarrow> False | Some q \<Rightarrow> q_clean q \<and> q_all no_percent q)"

definition crowd :: "client heap \<Rightarrow> nat list \<Rightarrow> bool" where
  "crowd h xs \<longleftrightarrow> dll h xs \<and> distinct (map mb_id (members h xs)) \<and> (\<forall>n \<in> set (clients h xs). client_ok n)"

text \<open>The kernel takes everything that is sent, and \<open>epoll_ctl\<close> has the resources it needs.\<close>

definition willing :: "kernel \<Rightarrow> bool" where
  "willing k \<longleftrightarrow> k_tx k = (\<lambda>_. []) \<and> k_ctl_fails k = []"

definition room_at :: "chat_state \<Rightarrow> nat list \<Rightarrow> bool" where
  "room_at s xs \<longleftrightarrow> crowd (ch_heap s) xs \<and> points_into (ch_c s) xs \<and> willing (ch_k s)"

definition room_inv :: "chat_state \<Rightarrow> bool" where
  "room_inv s \<longleftrightarrow> room_at s (addresses (ch_heap s) (ch_c s))"

lemma room_at_room: "room_at s xs \<Longrightarrow> room_inv s \<and> room_of s = room_with (ch_heap s) xs (ch_k s)"
  by (auto simp: room_at_def room_inv_def room_of_def crowd_def addresses_dll)

lemma willing_frame [simp]:
  "willing (set_rx fd rs k) \<longleftrightarrow> k_tx k = (\<lambda>_. []) \<and> k_ctl_fails k = []" "willing (put_out fd bs k) = willing k"
  by (simp_all add: willing_def)

section \<open>Members\<close>

lemma member_of_fields [simp]:
  "mb_id (member_of n) = c_id n" "mb_name (member_of n) = c_name n" "mb_size (member_of n) = c_name_size n"
  by (simp_all add: member_of_def)

lemma rivals_members: "rivals me (map member_of ns) = map member_of (others me ns)"
  by (induction ns) (auto simp: rivals_def others_def named_hd)

lemma room_list_members: "room_list me (map member_of ns) = CLIENT_MEMBERS @ concat (map member_text (others me ns))"
  by (simp add: room_list_def rivals_members member_text_def [abs_def] comp_def)

lemma other_names_members: "other_names me (people ns) = map mb_name (rivals me (map member_of ns))"
  by (simp add: rivals_members others_names [symmetric])

lemma members_first: "xs \<noteq> [] \<Longrightarrow> mb_id (hd (members h xs)) = c_id (hd (clients h xs))"
  by (cases xs) (simp_all add: members_def clients_def)

lemma announce_put_out:
  assumes "xs \<noteq> []"
  shows "k_out (put_out (c_id (hd (clients h xs))) (concat (replicate (length (others me (clients h xs))) txt)) k)
    = announce (members h xs) me txt (k_out k)"
  using members_first [OF assms, of h] by (simp add: announce_def say_def members_def rivals_members)

lemma crowd_put:
  assumes "crowd h xs" and "a \<in> set xs" and "h_mem h a = Some n" and "same_place n n'" and "client_ok n'"
  shows "crowd (h_put a n' h) xs" and "members (h_put a n' h) xs = put_member (member_of n') (members h xs)"
proof -
  have dll: "dll h xs" and dist: "distinct (map mb_id (members h xs))" and ok: "\<forall>n \<in> set (clients h xs). client_ok n"
    using assms(1) by (simp_all add: crowd_def)
  have id: "c_id n' = c_id n" using assms(4) by (simp add: same_place_def)
  have inj: "inj_on (\<lambda>b. c_id (the (h_mem h b))) (set xs)"
    using dist by (simp add: members_def clients_def distinct_map comp_def)
  show mems: "members (h_put a n' h) xs = put_member (member_of n') (members h xs)"
    using inj_onD [OF inj, of _ a] assms(2,3) id
    by (auto simp: members_def put_member_def clients_put clients_def)
  have "map mb_id (put_member m ms) = map mb_id ms" for m ms by (simp add: put_member_def comp_def)
  then show "crowd (h_put a n' h) xs"
    using put_client(1) [OF dll assms(2-4)] dist ok assms(5)
    by (auto simp: crowd_def mems clients_put clients_def)
qed

text \<open>Every address of the list holds a client, and the search finds it by its id.\<close>

lemma crowd_mem:
  assumes "crowd h xs" and "a \<in> set xs"
  obtains n q where "h_mem h a = Some n" and "client_ok n" and "n \<in> set (clients h xs)"
    and "c_recv_qu n = Some q" and "q_clean q" and "q_all no_percent q"
proof -
  obtain n where n: "h_mem h a = Some n"
    using lseg_live [of "h_mem h" None xs None a] assms by (auto simp: crowd_def dll_def)
  then have "n \<in> set (clients h xs)" using assms(2) by (force simp: clients_def)
  then show ?thesis using that [OF n] assms(1) by (auto simp: crowd_def client_ok_def split: option.splits)
qed

lemma client_find_ok:
  assumes "crowd h xs" and "points_into c xs" and "fd \<in> mb_id ` set (members h xs)"
  obtains a n where "client_find h c fd = Inr (True, Some a)" and "a \<in> set xs" and "h_mem h a = Some n" and "c_id n = fd"
    and "the_member fd (members h xs) = member_of n"
proof -
  have dll: "dll h xs" using assms(1) by (simp add: crowd_def)
  obtain b where b: "b \<in> set xs" "c_id (the (h_mem h b)) = fd"
    using assms(3) by (auto simp: members_def clients_def)
  obtain m where "h_mem h b = Some m" "client_ok m" using assms(1) b(1) by (rule crowd_mem)
  then have ne: "xs \<noteq> []" and pos: "0 < fd" using b by (auto simp: client_ok_def)
  obtain d where d: "c = Some d" "d \<in> set xs"
    using assms(2) ne by (auto simp: points_into_def split: option.splits)
  have "find (\<lambda>x. c_id (the (h_mem h x)) = fd) xs \<noteq> None"
    using b by (auto simp: find_None_iff)
  then obtain a where a: "find (\<lambda>x. c_id (the (h_mem h x)) = fd) xs = Some a" by auto
  then have "a \<in> set xs" "c_id (the (h_mem h a)) = fd" by (auto simp: find_Some_iff)
  moreover obtain n where n: "h_mem h a = Some n" using assms(1) \<open>a \<in> set xs\<close> by (rule crowd_mem)
  moreover have "the_member fd (members h xs) = member_of n"
  proof -
    have "find (\<lambda>m. mb_id m = fd) (map (\<lambda>x. member_of (the (h_mem h x))) ys)
        = map_option (\<lambda>x. member_of (the (h_mem h x))) (find (\<lambda>x. c_id (the (h_mem h x)) = fd) ys)" for ys
      by (induction ys) auto
    then show ?thesis using a n by (simp add: the_member_def members_def clients_def comp_def)
  qed
  moreover have "client_find h c fd = Inr (True, Some a)"
    using pos d(1) walk_from_first [OF dll d(2)] search_dll [OF dll ne, of "\<lambda>n. c_id n = fd"] a
    by (simp add: client_find_def client_first_def)
  ultimately show ?thesis using that by simp
qed

section \<open>A refused name\<close>

lemma verdict_text:
  "name_verdict names bs = Some msg \<Longrightarrow> msg \<noteq> [] \<and> length msg \<le> 126 \<and> list_all no_percent msg"
  by (auto simp: name_verdict_def LONG_NAME_def EMPTY_NAME_def BAD_NAME_def TAKEN_NAME_def no_percent_def split: if_splits)

lemma refuse_ok:
  assumes "dll h xs" and "a \<in> set xs" and "\<forall>nd \<in> set (clients h xs). name_wf nd" and "h_mem h a = Some n"
    and "c_recv_qu n = Some q" and "q_inv q" and "length (q_bytes q) < 2 ^ 31"
    and "name_verdict (other_names (c_id n) (people (clients h xs))) (q_bytes q) = Some msg"
    and "c_id n \<noteq> 0" and "k_tx k (c_id n) = []"
  shows "client_handle_newclient al junk h (Some a) k = Inr (-1, h_put a (popped n q) h, put_out (c_id n) msg k)"
proof -
  have lens: "\<forall>nd \<in> set (clients h xs). length (c_name nd) = 33" using assms(3) by (auto simp: name_wf_def)
  obtain req where valid: "client_validate_username h (Some a) junk = Inr (False, req, h_put a (popped n q) h)"
    "nr_response req = msg"
    using validate_ok [OF assms(1,2) lens assms(4-6) refl assms(7) refl, of junk] assms(8) by (auto simp: returns_iff)
  have msg: "msg \<noteq> []" "length msg \<le> 126" "list_all no_percent msg" using verdict_text [OF assms(8)] by simp_all
  then obtain buf where buf: "sprintf_buf 128 msg = Inr buf" "length msg + 2 \<le> length buf"
    "take (length msg + 1) buf = msg @ [NUL]"
    using sprintf_buf_text [of msg 128] by auto
  have "int_of_size (of_nat (length msg)) = int (length msg)"
    using int_of_size_popped [of "length msg"] msg(2) by simp
  moreover have "sends (c_id n) buf (of_nat (length msg)) msg"
    using assms(9) msg buf(2,3) by (intro sends_text) simp_all
  ultimately obtain l where "sendall (c_id n) buf (int (length msg)) k = Inr (0, l, put_out (c_id n) msg k)"
    using assms(10) by (auto simp: sends_def)
  then show ?thesis
    by (simp add: client_handle_newclient_def valid buf(1))
qed

section \<open>A complete line\<close>

lemma put_out_say: "put_out fd bs k = k\<lparr>k_out := say fd bs (k_out k)\<rparr>"
  by (simp add: put_out_def say_def)

lemma name_wf_string: "name_wf n \<Longrightarrow> c_string (c_name n) = Inr (shown (member_of n))"
proof -
  assume wf: "name_wf n"
  have "NUL \<in> set (c_name n)"
  proof (cases "named n")
    case True
    then have "c_name n ! (unat (c_name_size n) + 1) = NUL" "unat (c_name_size n) + 1 < length (c_name n)"
      using wf by (auto simp: name_wf_def Let_def)
    then show ?thesis by (metis nth_mem)
  next
    case False
    then show ?thesis using wf by (cases "c_name n") (auto simp: name_wf_def named_hd)
  qed
  then show ?thesis by (simp add: c_string_def shown_def)
qed

lemma shown_chars:
  assumes "client_ok n"
  shows "list_all no_percent (shown (member_of n))" and "length (shown (member_of n)) \<le> 33"
  using assms length_takeWhile_le [of "\<lambda>c. c \<noteq> NUL" "c_name n"]
  by (auto simp: client_ok_def shown_def list_all_iff name_wf_def dest: set_takeWhileD)

lemma flushed_bytes: "q_clean q \<Longrightarrow> q_bytes (flushed q) = []"
  by (simp add: q_clean_def)

lemma NUL_no_percent: "no_percent NUL"
  by (simp add: no_percent_def NUL_def)

lemma popped_ok:
  assumes "client_ok n" and "c_recv_qu n = Some q"
  shows "client_ok (popped n q)" and "same_place n (popped n q)" and "member_of (popped n q) = member_of n\<lparr>mb_bytes := []\<rparr>"
  using assms
  by (auto simp: client_ok_def same_place_def member_of_def name_wf_def named_def q_clean_flushed flushed_bytes q_all_def)

lemma member_text_no_nul: "name_wf n \<Longrightarrow> named n \<Longrightarrow> NUL \<notin> set (member_text n)"
  using isalnum_chars [of NUL] by (auto simp: name_wf_def Let_def member_text_def list_all_iff) (simp_all add: NUL_def)

lemma members_no_nul: "\<forall>n \<in> set ns. name_wf n \<Longrightarrow> NUL \<notin> set (concat (map member_text (others me ns)))"
  using member_text_no_nul by (auto simp: others_def)

lemma joined_ok:
  assumes "client_ok n" and "name_verdict names bs = None" and "q_clean q" and "q_all no_percent q"
  shows "client_ok (joined n bs q)"
proof -
  have len: "length (c_name n) = 33" using assms(1) by (simp add: client_ok_def name_wf_def)
  have bs: "list_all isalnum (butlast bs)" "length (butlast bs) \<le> 31"
    using assms(2) by (auto simp: name_verdict_None)
  have old: "\<forall>c \<in> set (c_name n). no_percent c" using assms(1) by (simp add: client_ok_def list_all_iff)
  have "list_all no_percent (stored_name (c_name n) (butlast bs))"
    using bs old len isalnum_chars
    by (auto simp: stored_name_def list_all_iff NUL_no_percent dest: in_set_dropD)
  then show ?thesis
    using assms joined_wf [OF assms(2) len, of q] by (simp add: client_ok_def)
qed

text \<open>A message that is empty or too long is thrown away.\<close>

lemma message_ignored:
  assumes "h_mem h a = Some n" and "named n" and "c_recv_qu n = Some q" and "q_inv q" and "q_bytes q \<noteq> []"
    and "length (q_bytes q) < 2 ^ 31" and "length (q_bytes q) = 1 \<or> 1025 < length (q_bytes q)"
  shows "client_handle_request al junk h (Some a) k = Inr (0, h_put a (popped n q) h, k)"
proof -
  have pop: "queue_pop_no_copy q = (int (length (q_bytes q)), Some (q_data q), flushed q)"
    using pop_flushed [OF assms(4,6)] assms(5) by simp
  define sz where "sz = (of_int (int (length (q_bytes q))) :: size_t) - 1"
  have unat: "unat sz = length (q_bytes q) - 1" unfolding sz_def using assms(5,6) by (rule popped_size)
  then have sz: "sz = 0 \<or> unat sz > CLIENT_MAX_MESSAGE_SIZE"
    using assms(7) by (auto simp: CLIENT_MAX_MESSAGE_SIZE_def unat_eq_zero)
  show ?thesis
    using assms(2) sz
    unfolding client_handle_request_def deref_simps(2) [OF assms(1)] rbind_Inr assms(3) option.case pop prod.case
      Let_def h_set_live [OF assms(1)] sz_def [symmetric]
    by auto
qed

lemma announces:
  assumes "xs \<noteq> []" and "first = c_id (hd (clients h xs))"
  shows "put_out first (concat (replicate (length (others me (clients h xs))) msg)) k
    = k\<lparr>k_out := announce (members h xs) me msg (k_out k)\<rparr>"
  using announce_put_out [OF assms(1), of h me msg k] by (simp add: put_out_def assms(2))

lemma names_ok: "crowd h xs \<Longrightarrow> \<forall>nd \<in> set (clients h xs). name_wf nd"
  by (simp add: crowd_def client_ok_def)

lemma first_positive: "crowd h xs \<Longrightarrow> a \<in> set xs \<Longrightarrow> 0 < c_id (hd (clients h xs))"
  by (cases xs) (auto simp: crowd_def client_ok_def clients_def)

text \<open>The effect of a handler on the client at \<open>a\<close>, as one on a member.\<close>

definition turns :: "client heap \<Rightarrow> nat \<Rightarrow> client \<Rightarrow> client heap \<Rightarrow> member \<Rightarrow> bool" where
  "turns h a n h' m \<longleftrightarrow> (\<exists>n'. h' = h_put a n' h \<and> same_place n n' \<and> client_ok n' \<and> member_of n' = m)"

lemma turns_popped: "client_ok n \<Longrightarrow> c_recv_qu n = Some q \<Longrightarrow> turns h a n (h_put a (popped n q) h) (member_of n\<lparr>mb_bytes := []\<rparr>)"
  unfolding turns_def using popped_ok [of n q] by blast

lemma talk_ok:
  assumes "crowd h xs" and "a \<in> set xs" and "h_mem h a = Some n" and "c_recv_qu n = Some q" and "named n"
    and "q_bytes q \<noteq> []" and "length (q_bytes q) < 2 ^ 31" and "willing k"
    and "length (q_bytes q) \<le> 1025 \<longrightarrow> length (message_text (shown (member_of n)) (q_text q)) \<le> 1056"
    and "room_handle (members h xs) (member_of n) (k_out k) = (alive, m', out')"
  shows "returns (client_handle_request al junk h (Some a) k)
    (\<lambda>(rs, h', k'). 0 \<le> rs \<and> alive \<and> k' = k\<lparr>k_out := out'\<rparr> \<and> turns h a n h' m')"
proof -
  let ?bs = "q_bytes q" and ?nm = "shown (member_of n)"
  have ne: "xs \<noteq> []" and dll: "dll h xs" using assms(1,2) by (auto simp: crowd_def)
  have ok: "client_ok n" "q_clean q" "q_all no_percent q"
    using crowd_mem [OF assms(1,2)] assms(3,4) by (metis option.inject)+
  then have inv: "q_inv q" by (simp add: q_clean_def)
  have name: "mb_name (member_of n) \<noteq> [] \<and> hd (mb_name (member_of n)) \<noteq> NUL" using assms(5) by (simp add: named_hd)
  have m: "mb_bytes (member_of n) = ?bs" "mb_text (member_of n) = q_text q" "mb_id (member_of n) = c_id n"
    using assms(4) by (simp_all add: member_of_def)
  have post: "alive" "m' = member_of n\<lparr>mb_bytes := []\<rparr>" "out' = (if 2 \<le> length ?bs \<and> length ?bs \<le> 1025
      then announce (members h xs) (c_id n) (message_text ?nm (q_text q)) (k_out k) else k_out k)"
    using assms(10) unfolding room_handle_def Let_def if_P [OF name] m by simp_all
  note turn = turns_popped [OF ok(1) assms(4), of h a, folded post(2)]
  show ?thesis
  proof (cases "2 \<le> length ?bs \<and> length ?bs \<le> 1025")
    case True
    have body: "list_all no_percent (q_text q)"
      using ok(3) by (auto simp: q_text_def q_all_def list_all_iff dest: set_takeWhileD)
    have wf: "name_wf n" using ok(1) by (simp add: client_ok_def)
    have "c_id (hd (clients h xs)) \<noteq> 0" using first_positive [OF assms(1,2)] by simp
    then have "client_handle_request al junk h (Some a) k = Inr (1, h_put a (popped n q) h,
        put_out (c_id (hd (clients h xs))) (concat (replicate (length (others (c_id n) (clients h xs))) (message_text ?nm (q_text q)))) k)"
      using True assms(8,9)
      by (intro message_ok [OF dll assms(2,3,5,4) inv _ _ name_wf_string [OF wf] q_clean_string [OF ok(2)] _
            shown_chars(1) [OF ok(1)] body refl]) (auto simp: willing_def)
    then show ?thesis
      using True turn post(1,3) by (simp add: announces [OF ne refl])
  next
    case False
    moreover have "1 \<le> length ?bs" using assms(6) by (cases ?bs) simp_all
    ultimately have "length ?bs = 1 \<or> 1025 < length ?bs" by linarith
    then show ?thesis
      using False turn post(1,3) message_ignored [OF assms(3,5,4) inv assms(6,7), of al junk k] by auto
  qed
qed

text \<open>A name that is accepted: the new member, the list it is sent and the note to the others.\<close>

abbreviation entered :: "client \<Rightarrow> char list \<Rightarrow> char list \<Rightarrow> char list \<Rightarrow> member" where
  "entered n bs names txt \<equiv> member_of n\<lparr>mb_bytes := [], mb_name := stored_name (c_name n) (butlast bs),
     mb_size := of_nat (length bs - 1), mb_text := over names txt\<rparr>"

lemma entered_ok:
  assumes "client_ok n" and "c_recv_qu n = Some q" and "name_verdict names (q_bytes q) = None" and "zeroed al"
    and "q_inv q1" and "q_all no_percent q1" and "laid al (flushed q) q1" and "NUL \<notin> set (q_bytes q1)"
  shows "client_ok (joined n (q_bytes q) (flushed q1))"
    and "member_of (joined n (q_bytes q) (flushed q1)) = entered n (q_bytes q) (q_bytes q1) (q_text q)"
proof -
  have q: "q_clean q" using assms(1,2) by (simp add: client_ok_def)
  have clean: "q_clean q1" "q_text q1 = over (q_bytes q1) (q_text q)"
    using laid_clean [OF assms(7) q_clean_flushed(1) [OF q] assms(4,5,8)] q_clean_flushed(2) by simp_all
  show "client_ok (joined n (q_bytes q) (flushed q1))"
    using joined_ok [OF assms(1,3) q_clean_flushed(1) [OF clean(1)]] assms(6) by (simp add: q_all_def)
  show "member_of (joined n (q_bytes q) (flushed q1)) = entered n (q_bytes q) (q_bytes q1) (q_text q)"
    by (simp add: member_of_def joined_def q_clean_flushed(2) flushed_bytes [OF clean(1)] clean(2))
qed

lemma enter_joins:
  assumes "crowd h xs" and "a \<in> set xs" and "h_mem h a = Some n" and "c_recv_qu n = Some q"
    and "33 * length xs + 21 < 2 ^ 31" and "zeroed al" and "willing k"
    and "name_verdict (other_names (c_id n) (people (clients h xs))) (q_bytes q) = None"
  defines "names \<equiv> room_list (c_id n) (members h xs)"
  shows "returns (client_handle_newclient al junk h (Some a) k) (\<lambda>(rs, h', k'). rs = 1 \<and>
    k' = k\<lparr>k_out := announce (members h xs) (c_id n) (joined_note (shown_name (c_name n) (butlast (q_bytes q))))
      (say (c_id n) names (k_out k))\<rparr> \<and>
    turns h a n h' (entered n (q_bytes q) names (q_text q)))"
proof -
  let ?bs = "q_bytes q" and ?cs = "clients h xs"
  have ne: "xs \<noteq> []" and dll: "dll h xs" using assms(1,2) by (auto simp: crowd_def)
  have ok: "client_ok n" "q_inv q" "q_all no_percent q"
    using crowd_mem [OF assms(1,2)] assms(3,4) by (metis option.inject q_clean_def)+
  have id: "c_id n \<noteq> 0" using ok(1) by (simp add: client_ok_def)
  have tx: "k_tx k = (\<lambda>_. [])" using assms(7) by (simp add: willing_def)
  have al: "alloc_ok al" "fresh_all no_percent al"
    using assms(6) NUL_no_percent unfolding zeroed_def fresh_all_def by metis+
  have "no_percent (c_name n ! (length ?bs - 1))"
    using ok(1) assms(8) by (auto simp: client_ok_def name_wf_def list_all_iff name_verdict_None)
  then obtain h' k' q1 where run: "client_handle_newclient al junk h (Some a) k = Inr (1, h', k')"
    and q1: "q_inv q1" "q_all no_percent q1" "laid al (flushed q) q1"
      "q_bytes q1 = CLIENT_MEMBERS @ concat (map member_text (others (c_id n) ?cs))"
    and h': "h' = h_put a (joined n ?bs (flushed q1)) h"
    and k': "k' = put_out (c_id (hd ?cs)) (concat (replicate (length (others (c_id n) ?cs))
        (joined_note (shown_name (c_name n) (butlast ?bs)))))
      (put_out (c_id n) (CLIENT_MEMBERS @ concat (map member_text (others (c_id n) ?cs))) k)"
    using join_ok [OF dll assms(2-4) ok(2) refl names_ok [OF assms(1)] assms(8) al ok(3) _ id _ tx assms(5), of junk]
      first_positive [OF assms(1,2)] by (auto simp: returns_iff)
  have list: "q_bytes q1 = names" using q1(4) by (simp add: names_def members_def room_list_members)
  have "NUL \<notin> set (q_bytes q1)"
    unfolding q1(4) using members_no_nul [OF names_ok [OF assms(1)]] by (simp add: CLIENT_MEMBERS_def NUL_def)
  note joined = entered_ok [OF ok(1) assms(4,8,6) q1(1-3) this, unfolded list]
  have "turns h a n h' (entered n ?bs names (q_text q))"
    using joined unfolding turns_def h' by (intro exI conjI) (rule refl, simp_all)
  moreover have "k' = k\<lparr>k_out := announce (members h xs) (c_id n) (joined_note (shown_name (c_name n) (butlast ?bs)))
      (say (c_id n) names (k_out k))\<rparr>"
    unfolding k' announces [OF ne refl] unfolding q1(4) [symmetric] list put_out_say by simp
  ultimately show ?thesis using run by simp
qed

lemma enter_ok:
  assumes "crowd h xs" and "a \<in> set xs" and "h_mem h a = Some n" and "c_recv_qu n = Some q" and "\<not> named n"
    and "length (q_bytes q) < 2 ^ 31" and "33 * length xs + 21 < 2 ^ 31" and "zeroed al" and "willing k"
    and "room_handle (members h xs) (member_of n) (k_out k) = (alive, m', out')"
  shows "returns (client_handle_request al junk h (Some a) k)
    (\<lambda>(rs, h', k'). (rs < 0 \<longleftrightarrow> \<not> alive) \<and> k' = k\<lparr>k_out := out'\<rparr> \<and> turns h a n h' m')"
proof -
  let ?bs = "q_bytes q" and ?ms = "members h xs" and ?cs = "clients h xs"
  let ?v = "name_verdict (other_names (c_id n) (people ?cs)) ?bs" and ?list = "room_list (c_id n) (members h xs)"
  have dll: "dll h xs" using assms(1) by (simp add: crowd_def)
  have ok: "client_ok n" "q_clean q" "q_all no_percent q"
    using crowd_mem [OF assms(1,2)] assms(3,4) by (metis option.inject)+
  then have inv: "q_inv q" by (simp add: q_clean_def)
  have id: "c_id n \<noteq> 0" using ok(1) by (simp add: client_ok_def)
  have tx: "k_tx k = (\<lambda>_. [])" using assms(9) by (simp add: willing_def)
  have call: "client_handle_request al junk h (Some a) k = client_handle_newclient al junk h (Some a) k"
    using assms(3,5) by (simp add: client_handle_request_def)
  have m: "mb_bytes (member_of n) = ?bs" "mb_text (member_of n) = q_text q" "mb_id (member_of n) = c_id n"
    "\<not> (mb_name (member_of n) \<noteq> [] \<and> hd (mb_name (member_of n)) \<noteq> NUL)"
    using assms(4,5) by (auto simp: member_of_def named_hd)
  have post: "(alive, m', out') = (case ?v of Some msg \<Rightarrow> (False, member_of n\<lparr>mb_bytes := []\<rparr>, say (c_id n) msg (k_out k))
      | None \<Rightarrow> (True, member_of n\<lparr>mb_bytes := [], mb_name := stored_name (c_name n) (butlast ?bs),
            mb_size := of_nat (length ?bs - 1), mb_text := over ?list (q_text q)\<rparr>,
          announce ?ms (c_id n) (joined_note (shown_name (c_name n) (butlast ?bs))) (say (c_id n) ?list (k_out k))))"
    unfolding assms(10) [symmetric] room_handle_def Let_def if_not_P [OF m(4)] m(1,2,3)
    by (simp add: other_names_members members_def split: option.split)
  show ?thesis
  proof (cases ?v)
    case (Some msg)
    have "client_handle_newclient al junk h (Some a) k = Inr (-1, h_put a (popped n q) h, put_out (c_id n) msg k)"
      by (rule refuse_ok [OF dll assms(2) names_ok [OF assms(1)] assms(3,4) inv assms(6) Some id]) (simp add: tx)
    then show ?thesis
      using post Some turns_popped [OF ok(1) assms(4), of h a] by (simp add: call put_out_say)
  next
    case None
    then show ?thesis
      using enter_joins [OF assms(1-4,7-9) None, of junk] post by (auto simp: call elim!: returns_mono)
  qed
qed

section \<open>Receiving, leaving, dropping\<close>

lemma hear_ok:
  assumes "client_ok n" and "c_recv_qu n = Some q" and "zeroed al" and "fd = c_id n" and "bs = drained (k_rx k fd)"
    and "NUL \<notin> set bs" and "list_all no_percent bs" and "length (mb_bytes (hear bs (member_of n))) < 2 ^ 31"
  obtains qu where "recv_request al fd q k = Inr (stop_code (k_rx k fd), qu, set_rx fd (remaining (k_rx k fd)) k)"
    and "client_ok (n\<lparr>c_recv_qu := Some qu\<rparr>)" and "member_of (n\<lparr>c_recv_qu := Some qu\<rparr>) = hear bs (member_of n)"
    and "q_inv qu" and "q_bytes qu = mb_bytes (hear bs (member_of n))"
proof -
  have ok: "q_clean q" "q_all no_percent q" "0 < fd" using assms(1,2,4) by (simp_all add: client_ok_def)
  have al: "alloc_ok al" "fresh_all no_percent al"
    using assms(3) NUL_no_percent unfolding zeroed_def fresh_all_def by metis+
  have m: "mb_bytes (member_of n) = q_bytes q" "mb_text (member_of n) = q_text q"
    using assms(2) by (simp_all add: member_of_def)
  have size: "length (q_bytes q) + length (drained (k_rx k fd)) \<le> 2 ^ 40"
    using assms(5,8) by (simp add: hear_def m)
  obtain r qu k' where run: "recv_request al fd q k = Inr (r, qu, k')" and all: "q_all no_percent qu"
    using recv_loop_drains [where qu = q and al = al and fd = fd and k = k and P = no_percent] ok al size assms(5,7)
    by (auto simp: recv_request_def returns_iff q_clean_def list_all_iff)
  note clean = recv_request_clean [OF run ok(1) assms(3) _ size]
  have nul: "NUL \<notin> set (drained (k_rx k fd))" using assms(5,6) by simp
  have "client_ok (n\<lparr>c_recv_qu := Some qu\<rparr>)"
    using assms(1) clean(2) [OF nul] all by (simp add: client_ok_def name_wf_def named_def)
  moreover have "member_of (n\<lparr>c_recv_qu := Some qu\<rparr>) = hear bs (member_of n)"
    using clean(3,4) [OF nul] assms(5) by (simp add: hear_def m) (simp add: member_of_def)
  ultimately show ?thesis
    using that [of qu] run clean(1,2,3,5) [OF nul] assms(5) by (auto simp: hear_def m q_clean_def)
qed

lemma more_eq_member:
  "links.more n = links.more n' \<Longrightarrow> member_of n = member_of n' \<and> client_ok n = client_ok n'"
  by (cases n; cases n') (simp add: member_of_def client_ok_def name_wf_def named_def)

lemma filter_others: "distinct (map f (us @ x # vs)) \<Longrightarrow> filter (\<lambda>m. f m \<noteq> f x) (us @ x # vs) = us @ vs"
  by (auto intro!: arg_cong2 [where f = append] filter_True simp: image_iff)

lemma leave_ok:
  assumes "crowd h xs" and "a \<in> set xs" and "h_mem h a = Some n" and "willing k"
  obtains p h' ys where "client_close (Some a) h k =
      Inr (p, h', k\<lparr>k_out := announce (members h xs) (c_id n) (left_note (shown (member_of n))) (k_out k)\<rparr>)"
    and "crowd h' ys" and "points_into p ys" and "members h' ys = filter (\<lambda>m. mb_id m \<noteq> c_id n) (members h xs)"
proof -
  obtain ys zs where xs: "xs = ys @ a # zs" using assms(2) by (auto dest: split_list)
  have dll: "dll h (ys @ a # zs)" and dist: "distinct (map mb_id (members h xs))"
    using assms(1) by (simp_all add: crowd_def xs)
  have ok: "client_ok n" "c_recv_qu n \<noteq> None" using crowd_mem [OF assms(1,2)] assms(3) by (metis option.inject option.distinct(1))+
  then have wf: "name_wf n" by (simp add: client_ok_def)
  have first: "c_id (hd (clients h xs)) \<noteq> 0" using first_positive [OF assms(1,2)] by simp
  obtain p h' where run: "client_close (Some a) h k = Inr (p, h', put_out (c_id (hd (clients h xs)))
      (concat (replicate (length (others (c_id n) (clients h xs))) (left_note (shown (member_of n))))) k)"
    and h': "dll h' (ys @ zs)" "payloads h' (ys @ zs) = payloads h (ys @ zs)" and p: "points_into p (ys @ zs)"
    using close_ok [OF dll assms(3) ok(2) name_wf_string [OF wf] shown_chars [OF ok(1)], of "c_id (hd (clients h xs))" k] first
      assms(4) by (auto simp: returns_iff willing_def xs)
  have ne: "xs \<noteq> []" by (simp add: xs)
  have "links.more (the (h_mem h' b)) = links.more (the (h_mem h b))" if "b \<in> set (ys @ zs)" for b
    using h'(2) that by (auto simp: payloads_def)
  note same = more_eq_member [OF this]
  have "members h' (ys @ zs) = members h (ys @ zs)" using same by (simp add: members_def clients_def)
  moreover have "filter (\<lambda>m. mb_id m \<noteq> c_id n) (members h xs) = members h (ys @ zs)"
    using dist assms(3) filter_others [of mb_id "members h ys" "member_of n" "members h zs"]
    by (simp add: xs members_def clients_def)
  moreover have "distinct (map mb_id (members h (ys @ zs)))" using dist by (auto simp: xs members_def clients_def)
  moreover have "\<forall>m \<in> set (clients h' (ys @ zs)). client_ok m"
    using assms(1) same by (auto simp: crowd_def clients_def xs)
  ultimately show ?thesis
    using that [of p h' "ys @ zs"] run h'(1) p announces [OF ne refl, of h "c_id n" "left_note (shown (member_of n))" k]
    by (simp add: crowd_def)
qed

text \<open>The end of the handler: the connection is dropped, or stays, or its client leaves the room.\<close>

lemma room_withI:
  assumes "crowd h xs" and "points_into c xs" and "willing k"
  shows "room_inv \<lparr>ch_c = c, ch_heap = h, ch_k = k\<rparr> \<and> room_of \<lparr>ch_c = c, ch_heap = h, ch_k = k\<rparr> = room_with h xs k"
  using room_at_room [of "\<lparr>ch_c = c, ch_heap = h, ch_k = k\<rparr>" xs] assms by (simp add: room_at_def)

lemma chat_drop_ok:
  assumes "crowd h xs" and "points_into c xs" and "willing k" and "fd \<in> registered k"
  shows "returns (chat_drop e fd c h k)
    (\<lambda>s'. room_inv s' \<and> room_of s' = (room_with h xs k)\<lparr>rm_conns := registered k - {fd}\<rparr>)"
proof -
  obtain k' where k': "fd_poll_del_and_close (epci e fd) k = Inr (0, k')" "registered k' = registered k - {fd}"
    "k_out k' = k_out k" "k_rx k' = k_rx k" "k_accept k' = k_accept k" "willing k'"
    using poll_del_and_close_ok [of "epci e fd" k] assms(3,4) by (auto simp: returns_iff willing_def)
  then show ?thesis
    using room_withI [OF assms(1,2) k'(6)] by (simp add: chat_drop_def room_with_def)
qed

lemma chat_end_ok:
  assumes "crowd h xs" and "a \<in> set xs" and "h_mem h a = Some n" and "willing k" and "c_id n = fd" and "fd \<in> registered k"
  shows "returns (if r = -1 then Inr \<lparr>ch_c = Some a, ch_heap = h, ch_k = k\<rparr>
      else rbind (client_close (Some a) h k) (\<lambda>(c, h, k). rbind (drop_connection e fd k) (\<lambda>k.
        Inr \<lparr>ch_c = c, ch_heap = h, ch_k = k\<rparr>)))
    (\<lambda>s'. room_inv s' \<and> room_of s' = (if r = -1 then room_with h xs k
       else (room_with h xs k)\<lparr>rm_members := filter (\<lambda>m. mb_id m \<noteq> fd) (members h xs),
         rm_out := announce (members h xs) fd (left_note (shown (member_of n))) (k_out k), rm_conns := registered k - {fd}\<rparr>))"
proof (cases "r = -1")
  case True
  have "points_into (Some a) xs" using assms(2) by (simp add: points_into_def)
  then show ?thesis using True room_withI [OF assms(1) _ assms(4)] by simp
next
  case False
  let ?out = "announce (members h xs) fd (left_note (shown (member_of n))) (k_out k)"
  obtain p h' ys where close: "client_close (Some a) h k = Inr (p, h', k\<lparr>k_out := ?out\<rparr>)"
    and left: "crowd h' ys" "points_into p ys" "members h' ys = filter (\<lambda>m. mb_id m \<noteq> fd) (members h xs)"
    using leave_ok [OF assms(1-4)] assms(5) by metis
  have "registered (k\<lparr>k_out := ?out\<rparr>) = registered k" "k_ctl_fails (k\<lparr>k_out := ?out\<rparr>) = []"
    using assms(4) by (simp_all add: registered_def willing_def)
  then obtain k' where k': "drop_connection e fd (k\<lparr>k_out := ?out\<rparr>) = Inr k'" "registered k' = registered k - {fd}"
    "k_out k' = ?out" "k_rx k' = k_rx k" "k_accept k' = k_accept k" "willing k'"
    using drop_connection_ok [of fd "k\<lparr>k_out := ?out\<rparr>" e] assms(4,6) by (auto simp: returns_iff willing_def)
  then show ?thesis
    using False room_withI [OF left(1,2) k'(6)] left(3) by (simp add: close room_with_def)
qed

section \<open>The handler of an event\<close>

lemma crowd_turns:
  assumes "crowd h xs" and "a \<in> set xs" and "h_mem h a = Some n" and "turns h a n h' m"
  obtains n' where "crowd h' xs" and "members h' xs = put_member m (members h xs)" and "h_mem h' a = Some n'"
    and "member_of n' = m" and "c_id n' = c_id n"
proof -
  obtain n' where h': "h' = h_put a n' h" "same_place n n'" "client_ok n'" "member_of n' = m"
    using assms(4) by (auto simp: turns_def)
  then show ?thesis
    using that [of n'] crowd_put [OF assms(1-3) h'(2,3)] by (simp add: same_place_def)
qed

lemma handle_ok:
  assumes "crowd h xs" and "a \<in> set xs" and "h_mem h a = Some n" and "c_recv_qu n = Some q"
    and "q_bytes q \<noteq> []" and "length (q_bytes q) < 2 ^ 31" and "33 * length xs + 21 < 2 ^ 31" and "zeroed al" and "willing k"
    and "length (q_bytes q) \<le> 1025 \<longrightarrow> length (message_text (shown (member_of n)) (q_text q)) \<le> 1056"
    and "room_handle (members h xs) (member_of n) (k_out k) = (alive, m', out')"
  obtains rs h' where "client_handle_request al junk h (Some a) k = Inr (rs, h', k\<lparr>k_out := out'\<rparr>)"
    and "rs < 0 \<longleftrightarrow> \<not> alive" and "turns h a n h' m'"
proof (cases "named n")
  case True
  then show ?thesis using talk_ok [OF assms(1-4) _ assms(5,6,9,10,11), of al junk] that by (auto simp: returns_iff)
next
  case False
  then show ?thesis using enter_ok [OF assms(1-4) _ assms(6-9,11), of junk] that by (auto simp: returns_iff)
qed

lemma turns_same: "h_mem h a = Some n \<Longrightarrow> client_ok n \<Longrightarrow> turns h a n h (member_of n)"
  unfolding turns_def by (intro exI [of _ n]) (simp add: same_place_def h_put_def fun_upd_idem)

lemma kernel_out_frame [simp]:
  "willing (k\<lparr>k_out := out\<rparr>) = willing k" "registered (k\<lparr>k_out := out\<rparr>) = registered k"
  by (simp_all add: willing_def registered_def)

text \<open>The second half of an event, once what was received is in the queue \<open>q\<close>.\<close>

abbreviation chat_tail ::
  "allocator \<Rightarrow> name_request \<Rightarrow> int \<Rightarrow> int \<Rightarrow> int \<Rightarrow> nat \<Rightarrow> queue \<Rightarrow> client heap \<Rightarrow> kernel \<Rightarrow> chat_state res" where
  "chat_tail al junk e fd r a q h k \<equiv>
     rbind (if 0 < int (length (q_bytes q)) \<and> CHR 0x0A \<in> set (q_bytes q)
            then client_handle_request al junk h (Some a) k else Inr (1, h, k))
       (\<lambda>(rs, h, k). if rs < 0 then chat_drop e fd (Some a) h k
          else if r = -1 then Inr \<lparr>ch_c = Some a, ch_heap = h, ch_k = k\<rparr>
          else rbind (client_close (Some a) h k) (\<lambda>(c, h, k). rbind (drop_connection e fd k) (\<lambda>k.
            Inr \<lparr>ch_c = c, ch_heap = h, ch_k = k\<rparr>)))"

lemma room_rest_ok:
  assumes "crowd h xs" and "a \<in> set xs" and "h_mem h a = Some n" and "c_recv_qu n = Some q" and "c_id n = fd"
    and "length (q_bytes q) < 2 ^ 31" and "33 * length xs + 21 < 2 ^ 31" and "zeroed al" and "willing k" and "fd \<in> registered k"
    and "line \<Longrightarrow> length (q_bytes q) \<le> 1025 \<longrightarrow> length (message_text (shown (member_of n)) (q_text q)) \<le> 1056"
    and "line = (CHR 0x0A \<in> set (q_bytes q))"
    and "(if line then room_handle (members h xs) (member_of n) (k_out k) else (True, member_of n, k_out k)) = (alive, m, out)"
    and "ms = put_member m (members h xs)"
  shows "returns (chat_tail al junk e fd r a q h k)
    (\<lambda>s'. room_inv s' \<and> room_of s' =
      (if \<not> alive then (room_with h xs k)\<lparr>rm_members := ms, rm_out := out, rm_conns := registered k - {fd}\<rparr>
       else if r = -1 then (room_with h xs k)\<lparr>rm_members := ms, rm_out := out\<rparr>
       else (room_with h xs k)\<lparr>rm_members := filter (\<lambda>x. mb_id x \<noteq> fd) ms,
         rm_out := announce ms fd (left_note (shown m)) out, rm_conns := registered k - {fd}\<rparr>))"
proof -
  let ?k = "k\<lparr>k_out := out\<rparr>"
  obtain rs h' where run: "(if 0 < int (length (q_bytes q)) \<and> line then client_handle_request al junk h (Some a) k else Inr (1, h, k))
      = Inr (rs, h', ?k)" and rs: "rs < 0 \<longleftrightarrow> \<not> alive" and turn: "turns h a n h' m"
  proof (cases line)
    case True
    then have "q_bytes q \<noteq> []" using assms(12) by auto
    then show ?thesis
      using handle_ok [OF assms(1-4) _ assms(6-9) assms(11), of alive m out junk] assms(13) True that by (metis length_greater_0_conv of_nat_0_less_iff)
  next
    case False
    have "client_ok n" using crowd_mem [OF assms(1,2)] assms(3) by (metis option.inject)
    then show ?thesis using that [of 1 h] turns_same [OF assms(3)] False assms(13) by simp
  qed
  from turn obtain n' where h': "crowd h' xs" "members h' xs = ms" "h_mem h' a = Some n'" "member_of n' = m" "c_id n' = fd"
    using crowd_turns [OF assms(1-3)] assms(5,14) by metis
  have into: "points_into (Some a) xs" using assms(2) by (simp add: points_into_def)
  have base: "room_with h' xs ?k = (room_with h xs k)\<lparr>rm_members := ms, rm_out := out\<rparr>" by (simp add: room_with_def h'(2))
  have w: "willing ?k" and reg: "fd \<in> registered ?k" using assms(9,10) by simp_all
  show ?thesis
    unfolding assms(12) [symmetric] run rbind_Inr prod.case
    using rs chat_drop_ok [OF h'(1) into w reg, of e] chat_end_ok [OF h'(1) assms(2) h'(3) w h'(5) reg, of r e]
    by (cases alive; cases "r = -1") (simp_all add: base h'(2,4))
qed

text \<open>The first half of an event: the client is found, and what its socket delivers goes to its queue.\<close>

lemma chat_event_hears:
  assumes "crowd h xs" and "points_into (ch_c s) xs" and "h = ch_heap s" and "k = ch_k s" and "fd \<noteq> lfd" and "zeroed al"
    and "fd \<in> mb_id ` set (members h xs)" and "bs = drained (k_rx k fd)" and "m = hear bs (the_member fd (members h xs))"
    and "NUL \<notin> set bs" and "list_all no_percent bs" and "length (mb_bytes m) < 2 ^ 31" and "stop = stop_code (k_rx k fd)"
    and "k1 = set_rx fd (remaining (k_rx k fd)) k"
  obtains a n q h1 where "chat_event al rodata stk e lfd s fd = (if stop < -1 then chat_drop e fd (Some a) h1 k1
      else chat_tail al (stk s) e fd stop a q h1 k1)"
    and "crowd h1 xs" and "members h1 xs = put_member m (members h xs)" and "a \<in> set xs" and "h_mem h1 a = Some n"
    and "c_recv_qu n = Some q" and "c_id n = fd" and "member_of n = m"
proof -
  obtain a n where find: "client_find h (ch_c s) fd = Inr (True, Some a)" and a: "a \<in> set xs" "h_mem h a = Some n" "c_id n = fd"
    and m: "the_member fd (members h xs) = member_of n"
    using client_find_ok [OF assms(1,2,7)] .
  obtain q where n: "client_ok n" "c_recv_qu n = Some q"
    using crowd_mem [OF assms(1) a(1)] a(2) by (metis option.inject)
  obtain qu where recv: "recv_request al fd q k = Inr (stop, qu, k1)"
    and n1: "client_ok (n\<lparr>c_recv_qu := Some qu\<rparr>)" "member_of (n\<lparr>c_recv_qu := Some qu\<rparr>) = m"
    and qu: "q_inv qu" "q_bytes qu = mb_bytes m"
    using hear_ok [OF n assms(6) a(3) [symmetric] assms(8,10,11)] assms(9,12-14) m by metis
  define h1 where "h1 = h_put a (n\<lparr>c_recv_qu := Some qu\<rparr>) h"
  have small: "length (q_bytes qu) < 2 ^ 31" using assms(12) qu(2) by simp
  have "turns h a n h1 m" using n1 unfolding turns_def h1_def by (intro exI conjI) (auto simp: same_place_def)
  from crowd_turns [OF assms(1) a(1,2) this] have "crowd h1 xs" "members h1 xs = put_member m (members h xs)" by metis+
  moreover have "chat_event al rodata stk e lfd s fd = (if stop < -1 then chat_drop e fd (Some a) h1 k1
      else chat_tail al (stk s) e fd stop a qu h1 k1)"
    unfolding chat_event_def if_not_P [OF assms(5)] assms(3) [symmetric] find rbind_Inr prod.case deref_simps(2) [OF a(2)] n(2)
      option.case assms(4) [symmetric] recv h_set_live [OF a(2)] h1_def [symmetric] peek_byte [OF qu(1) small]
    by simp
  ultimately show ?thesis
    using that [where a = a and q = qu and ?h1.0 = h1 and n = "n\<lparr>c_recv_qu := Some qu\<rparr>"] a(1,3) n1(2) by (simp add: h1_def)
qed

lemma room_serve_ok:
  assumes "room_inv s" and "room_ok lfd (room_of s) fd" and "zeroed al" and "fd \<noteq> lfd"
  shows "returns (chat_event al rodata stk e lfd s fd) (\<lambda>s'. room_inv s' \<and> room_of s' = room_serve fd (room_of s))"
proof -
  obtain xs where at: "room_at s xs" using assms(1) by (auto simp: room_inv_def)
  define h k where "h = ch_heap s" and "k = ch_k s"
  have room: "room_of s = room_with h xs k" using room_at_room [OF at] by (simp add: h_def k_def)
  have crowd: "crowd h xs" "points_into (ch_c s) xs" "willing k" using at by (simp_all add: room_at_def h_def k_def)
  define bs where "bs = drained (k_rx k fd)"
  define stop where "stop = stop_code (k_rx k fd)"
  define k1 where "k1 = set_rx fd (remaining (k_rx k fd)) k"
  define m1 where "m1 = hear bs (the_member fd (members h xs))"
  have ok: "fd \<in> mb_id ` set (members h xs)" "fd \<in> registered k" "NUL \<notin> set bs" "list_all no_percent bs"
    "length (mb_bytes m1) < 2 ^ 31" "33 * length xs + 21 < 2 ^ 31"
    "CHR 0x0A \<in> set (mb_bytes m1) \<Longrightarrow> length (mb_bytes m1) \<le> 1025 \<longrightarrow> length (message_text (shown m1) (mb_text m1)) \<le> 1056"
    using assms(2,4) by (simp_all add: room_ok_def room room_with_def Let_def bs_def m1_def members_def clients_def)
  note event = chat_event_hears [OF crowd(1,2) h_def k_def assms(4,3) ok(1) bs_def m1_def ok(3-5) stop_def k1_def]
  obtain a n q h1 where event: "chat_event al rodata stk e lfd s fd = (if stop < -1 then chat_drop e fd (Some a) h1 k1
      else chat_tail al (stk s) e fd stop a q h1 k1)"
    and c1: "crowd h1 xs" "members h1 xs = put_member m1 (members h xs)"
    and a: "a \<in> set xs" "h_mem h1 a = Some n" "c_recv_qu n = Some q" "c_id n = fd" "member_of n = m1"
    by (rule event)
  have q: "q_bytes q = mb_bytes m1" "q_text q = mb_text m1" using a(3,5) by (auto simp: member_of_def)
  have k1: "willing k1" "registered k1 = registered k" "k_out k1 = k_out k" "k_accept k1 = k_accept k"
    "k_rx k1 = (k_rx k)(fd := remaining (k_rx k fd))"
    using crowd(3) by (simp_all add: k1_def willing_def)
  have reg: "fd \<in> registered k1" using ok(2) k1(2) by simp
  note serve = room_serve_def room_with_def Let_def c1(2) k1 bs_def [symmetric] stop_def [symmetric] m1_def [symmetric]
  show ?thesis
  proof (cases "stop < -1")
    case True
    have "points_into (Some a) xs" using a(1) by (simp add: points_into_def)
    from chat_drop_ok [OF c1(1) this k1(1) reg, of e] show ?thesis
      using True unfolding event room by (simp add: serve)
  next
    case False
    define line where "line = (CHR 0x0A \<in> set (q_bytes q))"
    obtain alive m2 out where step: "(if line then room_handle (members h1 xs) m1 (k_out k1) else (True, m1, k_out k1)) = (alive, m2, out)"
      by (metis prod_cases3)
    have serve': "room_serve fd (room_with h xs k) =
      (if \<not> alive then (room_with h1 xs k1)\<lparr>rm_members := put_member m2 (members h1 xs), rm_out := out, rm_conns := registered k1 - {fd}\<rparr>
       else if stop = -1 then (room_with h1 xs k1)\<lparr>rm_members := put_member m2 (members h1 xs), rm_out := out\<rparr>
       else (room_with h1 xs k1)\<lparr>rm_members := filter (\<lambda>x. mb_id x \<noteq> fd) (put_member m2 (members h1 xs)),
         rm_out := announce (put_member m2 (members h1 xs)) fd (left_note (shown m2)) out, rm_conns := registered k1 - {fd}\<rparr>)"
      using False step by (cases line) (simp_all add: line_def q(1) serve)
    show ?thesis
      unfolding event if_not_P [OF False] room serve'
      by (rule room_rest_ok [OF c1(1) a(1-4) _ ok(6) assms(3) k1(1) reg _ line_def step [folded a(5)] refl])
        (use ok(5,7) q a(5) in \<open>simp_all add: line_def\<close>)
  qed
qed

section \<open>A new connection\<close>

lemma queue_init_clean:
  assumes "zeroed al" and "2 \<le> unat cap" and "unat cap \<le> 2 ^ 48"
  obtains q where "queue_init al None cap = Inr (Some q)" and "q_clean q" and "q_bytes q = []" and "q_text q = []"
    and "q_all no_percent q"
proof -
  have "alloc_ok al" using assms(1) by (simp add: zeroed_def)
  from queue_init_ok [OF this assms(2,3)] obtain q where q: "queue_init al None cap = Inr (Some q)" "q_inv q" "q_bytes q = []"
    by (auto simp: returns_iff)
  from q(1) obtain junk n where junk: "al n = Some junk" "q_data q = realloc_bytes junk [] n"
    by (auto simp: queue_init_def queue_init_data_def res_simps split: if_splits option.splits)
  have "list_all (fresh_byte al) (q_data q)" using junk by (auto simp: realloc_bytes_def list_all_iff fresh_byte_def)
  then have nuls: "nuls (q_data q)" using assms(1) by (rule zeroed_nuls [rotated])
  then have q_text: "q_text q = []" using takeWhile_nuls [of "q_data q" "[]"] by (simp add: q_text_def)
  have "q_data q \<noteq> []" using q(2) by (auto simp: q_inv_def)
  then have "q_clean q" using q(2,3) nuls nuls_last [OF nuls] by (simp add: q_clean_def ends_nul_def q_text)
  moreover have "q_all no_percent q" using nuls NUL_no_percent by (auto simp: q_all_def nuls_def list_all_iff)
  ultimately show ?thesis using that q(1,3) q_text by blast
qed

lemma client_open_ok:
  assumes "zeroed al" and "0 < fd" and "willing k" and "rodata \<noteq> []"
  obtains h' where "client_open al rodata fd h k = Inr (Some (h_brk h), h', put_out fd CLIENT_WELCOME_PROMPT k)"
    and "crowd h' [h_brk h]" and "members h' [h_brk h] = [newcomer fd]"
proof -
  have "alloc_ok al" using assms(1) by (simp add: zeroed_def)
  then obtain junk where junk: "al 72 = Some junk" by (rule alloc_okE)
  then have nul: "\<forall>i. junk i = NUL" using assms(1) by (auto simp: zeroed_def fresh_all_def)
  have "(2 :: nat) \<le> unat (1024 :: size_t)" "unat (1024 :: size_t) \<le> 2 ^ 48" by simp_all
  then obtain q where q: "queue_init al None 1024 = Inr (Some q)" "q_clean q" "q_bytes q = []" "q_text q = []" "q_all no_percent q"
    using queue_init_clean [OF assms(1)] by metis
  obtain b rest where rodata: "rodata = b # rest" using assms(4) by (cases rodata) auto
  have len: "length CLIENT_WELCOME_PROMPT = 45" by (simp add: CLIENT_WELCOME_PROMPT_def)
  have "sendall fd (CLIENT_WELCOME_PROMPT @ NUL # rodata) (int 45) k =
    Inr (0, int 45, put_out fd (take 45 (CLIENT_WELCOME_PROMPT @ NUL # rodata)) k)"
    using assms(2,3) prompt_prints [of b rest] by (intro sendall_whole) (simp_all add: rodata len willing_def)
  then have send: "sendall fd (CLIENT_WELCOME_PROMPT @ NUL # rodata) 45 k = Inr (0, 45, put_out fd CLIENT_WELCOME_PROMPT k)"
    by (simp add: len)
  have zero: "map junk [5..<37] = replicate 32 NUL" "map junk [40..<48] = replicate 8 NUL"
    using nul by (simp_all add: map_replicate_trivial [symmetric] eval_nat_numeral upt_rec)
  define n where "n = \<lparr>n_next = None, n_prev = None, c_id = fd, c_name = NUL # map junk [5..<37],
    c_name_size = horner_sum of_char 256 (map junk [40..<48]), c_recv_qu = Some q\<rparr>"
  have fields: "c_id n = fd" "c_recv_qu n = Some q" "n_next n = None" "n_prev n = None" by (simp_all add: n_def)
  have "horner_sum of_char 256 (replicate 8 NUL) = (0 :: size_t)" by (simp add: NUL_def eval_nat_numeral)
  then have size: "c_name_size n = 0" unfolding n_def zero by simp
  have "replicate 33 NUL = NUL # replicate 32 NUL" using replicate_Suc [of 32 NUL] by (simp del: replicate_Suc)
  then have name: "c_name n = replicate 33 NUL" unfolding n_def zero by simp
  have "hd (replicate 33 NUL) = NUL" by (simp add: hd_replicate)
  then have n: "client_ok n" "member_of n = newcomer fd"
    using q(2-5) assms(2) size NUL_no_percent name fields
    by (simp_all add: client_ok_def name_wf_def named_hd member_of_def newcomer_def list_all_iff)
  define h' where "h' = h\<lparr>h_mem := (h_mem h)(h_brk h \<mapsto> n), h_brk := h_brk h + 1\<rparr>"
  have "client_open al rodata fd h k = Inr (Some (h_brk h), h', put_out fd CLIENT_WELCOME_PROMPT k)"
    unfolding client_open_def junk option.case q(1) rbind_Inr h_new_def n_def [symmetric] prod.case send h'_def [symmetric]
    by simp
  moreover have "crowd h' [h_brk h]" "members h' [h_brk h] = [newcomer fd]"
    using n by (simp_all add: crowd_def members_def clients_def dll_def h'_def fields)
  ultimately show ?thesis using that by blast
qed

lemma room_event_ok:
  assumes "room_inv s" and "room_ok lfd (room_of s) fd" and "zeroed al" and "0 < lfd" and "rodata \<noteq> []"
  shows "returns (chat_event al rodata stk e lfd s fd) (\<lambda>s'. room_inv s' \<and> room_of s' = room_event lfd (room_of s) fd)"
proof (cases "fd = lfd")
  case False
  then show ?thesis using room_serve_ok [OF assms(1-3)] by (simp add: room_event_def)
next
  case True
  define k where "k = ch_k s"
  obtain xs where at: "room_at s xs" using assms(1) by (auto simp: room_inv_def)
  have willing: "willing k" using at by (simp add: room_at_def k_def)
  have room: "room_of s = room_with (ch_heap s) xs k" using room_at_room [OF at] by (simp add: k_def)
  obtain c cs where c: "k_accept k = c # cs" "c \<noteq> -1" "c \<notin> registered k"
    using assms(2) True by (cases "k_accept k") (auto simp: room_ok_def room room_with_def)
  obtain k1 where k1: "fd_accept_and_epoll_add (epci e lfd) k = Inr (c, k1)" "registered k1 = insert c (registered k)"
    "k_accept k1 = cs" "k_out k1 = k_out k" "k_rx k1 = k_rx k" "willing k1"
    using accept_and_add_ok [OF c, of "epci e lfd"] willing by (auto simp: returns_iff willing_def)
  let ?k2 = "put_out lfd CLIENT_WELCOME_PROMPT k1"
  obtain h' where h': "client_open al rodata lfd (ch_heap s) k1 = Inr (Some (h_brk (ch_heap s)), h', ?k2)"
    "crowd h' [h_brk (ch_heap s)]" "members h' [h_brk (ch_heap s)] = [newcomer lfd]"
    using client_open_ok [OF assms(3,4) k1(6) assms(5)] .
  have "points_into (Some (h_brk (ch_heap s))) [h_brk (ch_heap s)]" by (simp add: points_into_def)
  from room_withI [OF h'(2) this, of ?k2] show ?thesis
    using True k1 c(1) h'(1,3) by (simp add: chat_event_def k_def [symmetric] room_event_def room room_with_def say_def)
qed

text \<open>The memory and what follows the prompt in it, as every run has them.\<close>

definition sound_memory :: "allocator \<Rightarrow> char list \<Rightarrow> int \<Rightarrow> bool" where
  "sound_memory al rodata lfd \<longleftrightarrow> zeroed al \<and> rodata \<noteq> [] \<and> 0 < lfd"

interpretation chat: stepper "chat_event al rodata stk e lfd" "\<lambda>s. room_inv s \<and> sound_memory al rodata lfd" room_of
  "room_ok lfd" "room_event lfd" for al rodata stk e lfd
proof unfold_locales
  fix s fd
  assume "room_inv s \<and> sound_memory al rodata lfd" and "room_ok lfd (room_of s) fd"
  then show "returns (chat_event al rodata stk e lfd s fd)
    (\<lambda>s'. (room_inv s' \<and> sound_memory al rodata lfd) \<and> room_of s' = room_event lfd (room_of s) fd)"
    using room_event_ok [of s lfd fd al rodata stk e] by (simp add: sound_memory_def)
qed

section \<open>Names stay distinct\<close>

text \<open>
  No two members are shown by the same name. A new name must not be a front part of a stored one, so it is not even when the byte
  after it, which is not cleared, shows.
\<close>

definition named_member :: "member \<Rightarrow> bool" where
  "named_member m \<longleftrightarrow> mb_name m \<noteq> [] \<and> hd (mb_name m) \<noteq> NUL"

definition names_distinct :: "member list \<Rightarrow> bool" where
  "names_distinct ms \<longleftrightarrow> (\<forall>x \<in> set ms. \<forall>y \<in> set ms. mb_id x \<noteq> mb_id y \<longrightarrow> named_member x \<longrightarrow> named_member y \<longrightarrow>
     shown x \<noteq> shown y)"

lemma names_distinct_put_same:
  assumes "names_distinct ms" and "m0 \<in> set ms" and "mb_id m = mb_id m0" and "mb_name m = mb_name m0"
  shows "names_distinct (put_member m ms)"
  using assms unfolding names_distinct_def put_member_def by (auto simp: named_member_def shown_def)

lemma names_distinct_filter: "names_distinct ms \<Longrightarrow> names_distinct (filter P ms)"
  by (simp add: names_distinct_def)

lemma names_distinct_join:
  assumes "names_distinct ms" and "name_verdict (map mb_name (rivals me ms)) bs = None"
    and "mb_id m = me" and "mb_name m = stored_name old (butlast bs)"
  shows "names_distinct (put_member m ms)"
proof -
  have bs: "list_all isalnum (butlast bs)" and free: "\<And>y. y \<in> set (rivals me ms) \<Longrightarrow> take (length (butlast bs)) (mb_name y) \<noteq> butlast bs"
    using assms(2) by (auto simp: name_verdict_None list_ex_iff)
  have shown: "shown m = shown_name old (butlast bs)"
    using c_string_stored [OF bs, of old] assms(4) by (simp add: c_string_def shown_def split: if_splits)
  have "shown y \<noteq> shown m" if y: "y \<in> set ms" "mb_id y \<noteq> me" "named_member y" for y
  proof
    assume eq: "shown y = shown m"
    have "take (length (butlast bs)) (shown y) = butlast bs" unfolding eq shown by (simp add: shown_name_def)
    moreover obtain rest where "mb_name y = shown y @ rest" unfolding shown_def by (metis takeWhile_dropWhile_id)
    moreover have "length (butlast bs) \<le> length (shown y)" unfolding eq shown by (simp add: shown_name_def)
    ultimately have "take (length (butlast bs)) (mb_name y) = butlast bs" by simp
    then show False using free [of y] y by (simp add: rivals_def named_member_def)
  qed
  then show ?thesis
    using assms(1,3) unfolding names_distinct_def put_member_def by (auto dest: not_sym)
qed

lemma room_handle_names:
  assumes "names_distinct ms" and "m \<in> set ms" and "room_handle ms m out = (alive, m', out')"
  shows "mb_id m' = mb_id m" and "names_distinct (put_member m' ms)"
proof -
  show id: "mb_id m' = mb_id m" using assms(3) by (auto simp: room_handle_def Let_def split: if_splits option.splits)
  consider "mb_name m' = mb_name m" | bs where "name_verdict (map mb_name (rivals (mb_id m) ms)) bs = None"
      "mb_name m' = stored_name (mb_name m) (butlast bs)"
    using assms(3) by (auto simp: room_handle_def Let_def split: if_splits option.splits)
  then show "names_distinct (put_member m' ms)"
    using names_distinct_put_same [OF assms(1,2) id] names_distinct_join [OF assms(1) _ id] by cases blast+
qed

lemma the_member_in: "fd \<in> mb_id ` set ms \<Longrightarrow> the_member fd ms \<in> set ms \<and> mb_id (the_member fd ms) = fd"
  by (induction ms) (auto simp: the_member_def)

lemma room_event_names:
  assumes "names_distinct (rm_members r)" and "room_ok lfd r fd"
  shows "names_distinct (rm_members (room_event lfd r fd))"
proof (cases "fd = lfd")
  case True
  then show ?thesis by (simp add: room_event_def names_distinct_def)
next
  case False
  let ?m0 = "the_member fd (rm_members r)"
  define m where "m = hear (drained (rm_rx r fd)) ?m0"
  define ms where "ms = put_member m (rm_members r)"
  have m0: "?m0 \<in> set (rm_members r)" "mb_id ?m0 = fd"
    using assms(2) False the_member_in by (simp_all add: room_ok_def Let_def)
  have m: "mb_id m = mb_id ?m0" "mb_name m = mb_name ?m0" by (simp_all add: m_def hear_def)
  have ms: "names_distinct ms" unfolding ms_def by (rule names_distinct_put_same [OF assms(1) m0(1) m])
  have "m \<in> set ms" using m0 m(1) by (force simp: ms_def put_member_def)
  obtain alive m2 out where step: "(if CHR 0x0A \<in> set (mb_bytes m) then room_handle ms m (rm_out r) else (True, m, rm_out r))
      = (alive, m2, out)"
    by (metis prod_cases3)
  have "names_distinct (put_member m2 ms)"
    using room_handle_names(2) [OF ms \<open>m \<in> set ms\<close>] names_distinct_put_same [OF ms \<open>m \<in> set ms\<close> refl refl] step
    by (auto split: if_splits)
  then show ?thesis
    using False ms step names_distinct_filter
    by (auto simp: room_event_def room_serve_def Let_def m_def [symmetric] ms_def [symmetric])
qed

section \<open>Properties\<close>

text \<open>C4: over any sequence of admissible events about members of the room, the chat handlers never fault and do to the list of clients, the
  buffers and the sockets exactly what \<open>room_event\<close> does to the room: who is told what, in which order, which name is
  stored, whose connection is closed although it stays a member, and who leaves. An event is admissible when it is about the
  listening socket and a new connection waits there, or about a member that is still connected, as is the first member, that sends
  no NUL and no percent sign (the texts are format strings for the logger: a conversion such as percent d faults), and whose message, if it
  completes one, fits the array of 1056 bytes together with the stale text that is sent with it; sizes below \<open>2 ^ 31\<close>. Assumed of the environment: fresh
  memory is zero, a byte can be read behind the prompt's string literal, sends take whole messages, epoll_ctl and the allocation of memory do not fail.\<close>

theorem chat_refines_room:
  assumes "room_inv s" and "sound_memory al rodata lfd" and "run_ok (room_ok lfd) (room_event lfd) (room_of s) fds"
  shows "returns (run_res (chat_event al rodata stk e lfd) s fds)
    (\<lambda>s'. room_inv s' \<and> room_of s' = foldl (room_event lfd) (room_of s) fds)"
proof -
  have "room_inv s \<and> sound_memory al rodata lfd" using assms(1,2) ..
  from chat.run_refines [OF this assms(3), of stk e] show ?thesis
    by (rule returns_mono) simp
qed

text \<open>Ann and Bob are in the room, a third client is about to choose its name.\<close>

definition room_sample :: chat_state where
  "room_sample = \<lparr>ch_c = Some 4,
     ch_heap = h_put 5 (chat_client (Some 4) None 9 [] (chat_queue ''cat'' (replicate 5 NUL))) chat_heap,
     ch_k = quiet_kernel\<lparr>k_interest := [(4, [EPOLLIN]), (7, [EPOLLIN]), (8, [EPOLLIN]), (9, [EPOLLIN])],
       k_rx := (\<lambda>_. [RxData [CHR 0x0A], RxErr 11])(7 := [RxEof])\<rparr>\<rparr>"

definition sample_member :: "int \<Rightarrow> char list \<Rightarrow> char list \<Rightarrow> char list \<Rightarrow> member" where
  "sample_member i nm bs t = \<lparr>mb_id = i, mb_name = nm @ replicate (33 - length nm) NUL, mb_size = of_nat (length nm),
     mb_bytes = bs, mb_text = t\<rparr>"

definition room_before :: room where
  "room_before = \<lparr>rm_members = [sample_member 7 ''ann'' ''hi.'' ''hi.room'', sample_member 8 ''bob'' ''hi.'' ''hi.room'',
       sample_member 9 [] ''cat'' ''cat''],
     rm_rx = (\<lambda>_. [RxData [CHR 0x0A], RxErr 11])(7 := [RxEof]), rm_out = (\<lambda>_. []), rm_waiting = [], rm_conns = {4, 7, 8, 9}\<rparr>"

lemma chat_queue_clean:
  assumes "NUL \<notin> set (bs @ ts)" and "list_all no_percent (bs @ ts)" and "length (bs @ ts) + j < 1000" and "2 \<le> j"
    and "q = chat_queue bs (ts @ replicate j NUL)"
  shows "q_clean q" and "q_all no_percent q" and "q_bytes q = bs" and "q_text q = bs @ ts"
proof -
  have n: "unat (of_nat m :: size_t) = m" if "m < 1000" for m
    using that by (intro unat_of_nat_small) simp
  have inv: "q_inv q" and bytes: "q_bytes q = bs"
    using assms(3,4) n [of "length bs"] n [of "length (bs @ ts) + j"]
    by (simp_all add: assms(5) chat_queue_def q_inv_def q_bytes_def add.assoc)
  have nuls: "nuls (replicate j NUL)" by (simp add: nuls_def list_all_iff)
  have data: "q_data q = (bs @ ts) @ replicate j NUL" by (simp add: assms(5) chat_queue_def)
  have shows_text: "q_text q = bs @ ts"
    unfolding q_text_def data by (rule takeWhile_nuls [OF nuls assms(1)])
  have "ends_nul q" using assms(4) by (simp add: ends_nul_def data)
  then show "q_clean q" "q_bytes q = bs" "q_text q = bs @ ts"
    using inv bytes assms(1) shows_text nuls data unfolding q_clean_def by auto
  show "q_all no_percent q" using assms(2) NUL_no_percent by (auto simp: q_all_def data list_all_iff)
qed



lemma room_sample_clients: "clients (ch_heap room_sample) [3, 4, 5] = [chat_client None (Some 4) 7 ''ann'' ann_queue,
    chat_client (Some 3) (Some 5) 8 ''bob'' ann_queue, chat_client (Some 4) None 9 [] (chat_queue ''cat'' (replicate 5 NUL))]"
  by (simp add: room_sample_def clients_put chat_heap_mem)

lemma sample_client:
  assumes "q_clean q" and "q_all no_percent q" and "q_bytes q = bs" and "q_text q = t"
    and "0 < i" and "list_all isalnum nm" and "length nm \<le> 31"
  shows "client_ok (chat_client p n i nm q)" and "member_of (chat_client p n i nm q) = sample_member i nm bs t"
proof -
  have "unat (of_nat (length nm) :: size_t) = length nm" using assms(7) by (intro unat_of_nat_small) simp
  then show "client_ok (chat_client p n i nm q)"
    using assms isalnum_chars NUL_no_percent
    by (auto simp: client_ok_def name_wf_def chat_named chat_client_def named_hd hd_replicate Let_def nth_append list_all_iff Suc_le_eq)
  show "member_of (chat_client p n i nm q) = sample_member i nm bs t"
    using assms by (simp add: member_of_def sample_member_def chat_client_def)
qed

lemma room_sample_view: "room_inv room_sample" "room_of room_sample = room_before"
proof -
  have hi: "q_clean ann_queue" "q_all no_percent ann_queue" "q_bytes ann_queue = ''hi.''" "q_text ann_queue = ''hi.room''"
    using chat_queue_clean [of "''hi.''" "''room''" 2 ann_queue]
    by (simp_all add: ann_queue_def no_percent_def NUL_def numeral_eq_Suc)
  let ?q = "chat_queue ''cat'' (replicate 5 NUL)"
  have cat: "q_clean ?q" "q_all no_percent ?q" "q_bytes ?q = ''cat''" "q_text ?q = ''cat''"
    using chat_queue_clean [of "''cat''" "[]" 5 ?q] by (simp_all add: no_percent_def NUL_def)
  note sample_client [OF hi] sample_client [OF cat]
  moreover have "dll (ch_heap room_sample) [3, 4, 5]"
    unfolding room_sample_def by (simp add: dll_put [OF chat_heap_dll] chat_heap_mem chat_client_def)
  moreover have "list_all isalnum ''ann''" "list_all isalnum ''bob''" by (simp_all add: isalnum_def)
  ultimately have at: "room_at room_sample [3, 4, 5]" and
    "members (ch_heap room_sample) [3, 4, 5] = rm_members room_before"
    by (simp_all add: room_at_def crowd_def members_def room_sample_clients room_before_def)
      (simp_all add: sample_member_def room_sample_def points_into_def willing_def quiet_kernel_def)
  with room_at_room [OF at] show "room_inv room_sample" "room_of room_sample = room_before"
    by (simp_all add: room_with_def room_before_def) (simp add: room_sample_def quiet_kernel_def registered_def)
qed

definition room_joined :: room where
  "room_joined = room_before\<lparr>rm_members := [sample_member 7 ''ann'' ''hi.'' ''hi.room'', sample_member 8 ''bob'' ''hi.'' ''hi.room'',
       sample_member 9 ''cat'' [] ''* The room contains: , ann, bob''],
     rm_rx := (rm_rx room_before)(9 := []),
     rm_out := (\<lambda>_. [])(9 := ''* The room contains: , ann, bob'', 7 := joined_note ''cat'' @ joined_note ''cat'')\<rparr>"

definition room_talked :: room where
  "room_talked = room_joined\<lparr>rm_members := [sample_member 7 ''ann'' ''hi.'' ''hi.room'',
       sample_member 8 ''bob'' [] (''hi.'' @ [CHR 0x0A] @ ''oom''), sample_member 9 ''cat'' [] ''* The room contains: , ann, bob''],
     rm_rx := (rm_rx room_joined)(8 := []),
     rm_out := (rm_out room_joined)(7 := rm_out room_joined 7 @ concat (replicate 2 (''[bob] hi.'' @ [CHR 0x0A] @ ''oom'')))\<rparr>"

definition room_left :: room where
  "room_left = room_talked\<lparr>rm_members := tl (rm_members room_talked), rm_conns := {4, 8, 9},
     rm_rx := (rm_rx room_talked)(7 := [RxEof]),
     rm_out := (rm_out room_talked)(7 := rm_out room_talked 7 @ concat (replicate 2 (left_note ''ann'')))\<rparr>"

lemmas room_eval = room_event_def room_serve_def room_handle_def the_member_def hear_def over_def put_member_def rivals_def
  sample_member_def shown_def announce_def say_def room_list_def CLIENT_MEMBERS_def name_verdict_def isalnum_def stored_name_def shown_name_def
  message_text_def NUL_def EAGAIN_def

lemma replicate_30: "replicate 30 CHR 0x00 = CHR 0x00 # CHR 0x00 # replicate 28 CHR 0x00"
  by (simp add: numeral_eq_Suc)

lemma room_sample_steps:
  "room_event 4 room_before 9 = room_joined" "room_event 4 room_joined 8 = room_talked" "room_event 4 room_talked 7 = room_left"
  subgoal by (simp add: room_eval room_before_def room_joined_def joined_note_def Let_def replicate_30)
  subgoal by (simp add: room_eval room_before_def room_joined_def room_talked_def Let_def numeral_2_eq_2)
  subgoal by (simp add: room_eval room_before_def room_joined_def room_talked_def room_left_def left_note_def joined_note_def Let_def numeral_2_eq_2) auto
  done

lemma room_sample_ok:
  "room_ok 4 room_before 9" "room_ok 4 room_joined 8" "room_ok 4 room_talked 7"
  by (simp_all add: room_ok_def room_eval room_before_def room_joined_def room_talked_def Let_def no_percent_def)

lemma room_sample_run:
  "run_ok (room_ok 4) (room_event 4) room_before [9, 8, 7]" "foldl (room_event 4) room_before [9, 8, 7] = room_left"
  "sound_memory zero_alloc [NUL] 4"
  using zero_alloc_ok
  by (simp_all add: room_sample_ok room_sample_steps sound_memory_def zeroed_def fresh_all_def)
    (simp add: zero_alloc_def)

theorem chat_refines_room_witness:
  "returns (run_res (chat_event zero_alloc [NUL] no_request 5 4) room_sample [9, 8, 7])
    (\<lambda>s'. map mb_id (rm_members (room_of s')) = [8, 9] \<and> k_out (ch_k s') 9 = ''* The room contains: , ann, bob'' \<and>
       k_out (ch_k s') 8 = [] \<and> registered (ch_k s') = {4, 8, 9} \<and>
       k_out (ch_k s') 7 = joined_note ''cat'' @ joined_note ''cat'' @
         concat (replicate 2 (''[bob] hi.'' @ [CHR 0x0A] @ ''oom'')) @ left_note ''ann'' @ left_note ''ann'')"
proof -
  have "returns (run_res (chat_event zero_alloc [NUL] no_request 5 4) room_sample [9, 8, 7])
      (\<lambda>s'. room_inv s' \<and> room_of s' = foldl (room_event 4) (room_of room_sample) [9, 8, 7])"
    by (rule chat_refines_room [OF room_sample_view(1) room_sample_run(3)]) (unfold room_sample_view, rule room_sample_run)
  then show ?thesis
  proof (rule returns_mono)
    fix s' assume "room_inv s' \<and> room_of s' = foldl (room_event 4) (room_of room_sample) [9, 8, 7]"
    then have "room_of s' = room_left" by (simp only: room_sample_view room_sample_run)
    moreover have "k_out (ch_k s') = rm_out (room_of s')" "registered (ch_k s') = rm_conns (room_of s')"
      by (simp_all add: room_of_def room_with_def)
    ultimately show "map mb_id (rm_members (room_of s')) = [8, 9] \<and> k_out (ch_k s') 9 = ''* The room contains: , ann, bob'' \<and>
       k_out (ch_k s') 8 = [] \<and> registered (ch_k s') = {4, 8, 9} \<and>
       k_out (ch_k s') 7 = joined_note ''cat'' @ joined_note ''cat'' @
         concat (replicate 2 (''[bob] hi.'' @ [CHR 0x0A] @ ''oom'')) @ left_note ''ann'' @ left_note ''ann''"
      by (simp add: room_left_def room_talked_def room_joined_def room_before_def sample_member_def numeral_2_eq_2)
  qed
qed

text \<open>C18: names stay distinct: over any sequence of events that are admissible (\<open>room_ok\<close>: no NUL and no percent sign, connected members, messages that fit), if no two members with a name were shown by
  the same name, none are afterwards, although the check compares only the front part of the stored names and stores a byte that it has not checked.\<close>

theorem chat_names_stay_distinct:
  assumes "room_inv s" and "sound_memory al rodata lfd" and "run_ok (room_ok lfd) (room_event lfd) (room_of s) fds"
    and "names_distinct (rm_members (room_of s))"
  shows "returns (run_res (chat_event al rodata stk e lfd) s fds) (\<lambda>s'. names_distinct (rm_members (room_of s')))"
proof -
  have "run_ok (room_ok lfd) (room_event lfd) r fds \<Longrightarrow> names_distinct (rm_members r) \<Longrightarrow>
      names_distinct (rm_members (foldl (room_event lfd) r fds))" for r
    by (induction fds arbitrary: r) (simp_all add: room_event_names)
  note keeps = this [OF assms(3,4)]
  have "room_inv s \<and> sound_memory al rodata lfd" using assms(1,2) ..
  from chat.run_refines [OF this assms(3), of stk e] show ?thesis
    by (rule returns_mono) (simp add: keeps)
qed

theorem chat_names_stay_distinct_witness:
  "returns (run_res (chat_event zero_alloc [NUL] no_request 5 4) room_sample [9, 8, 7])
    (\<lambda>s'. names_distinct (rm_members (room_of s')))"
proof (rule chat_names_stay_distinct [OF room_sample_view(1) room_sample_run(3)])
  show "run_ok (room_ok 4) (room_event 4) (room_of room_sample) [9, 8, 7]"
    unfolding room_sample_view by (rule room_sample_run)
  show "names_distinct (rm_members (room_of room_sample))"
    by (simp add: room_sample_view room_before_def names_distinct_def named_member_def sample_member_def shown_def NUL_def)
qed

end
