(* ===== verification/Spec2Isabelle.thy ===== *)
theory Spec2Isabelle
  imports HostilePrime Answers ChatRoom
begin

text \<open>
  \<^bold>\<open>What this is.\<close> A verification library for the C programs under \<open>src/c/source\<close>: four TCP servers (an echo
  server, a primality server, a server for asset prices, a chat server) over a small library of their own (a byte queue,
  sockets, epoll registration, receiving, logging). Each server is one thread: it waits with \<open>epoll_wait\<close>, and handles one event
  after the other on non-blocking connections. Shared state is what makes this hard: queues shared by connections,
  buffers that are reallocated while pointers into them are in use, and linked lists of clients whose head may
  point to any element.

  \<^bold>\<open>Conventions.\<close> A C function is a function with the same name. What stops it is a value of \<open>fault\<close> (theory
  Prelude): a failed assertion, an exit, or undefined behaviour, which is always explicit: a null pointer, a freed
  struct, an access out of bounds, an uninitialised read, a signed overflow, a format string that reads missing arguments, a loop
  that never ends. \<open>returns m P\<close> says that the code returns and that \<open>P\<close> holds of what it returns, so no theorem
  is about partial correctness only, unless it speaks of the fault itself. Assertions are enabled, as they are unless \<open>NDEBUG\<close> is defined. \<open>size_t\<close> is a 64 bit word; an \<open>int\<close> that comes from a conversion or counts bytes is an
  integer with the conversion written out. Memory is a list of bytes, fresh memory has arbitrary contents (\<open>allocator\<close>), and
  structs in a linked list live in an explicit heap (theory Dll). The operating system is explicit state
  (theory Kernel): what each socket will deliver, how it answers each \<open>send\<close>, which connections wait, which calls of \<open>epoll_ctl\<close>
  fail, are data of this state and arbitrary; the bytes sent, the interest list and the closed descriptors are recorded.

  \<^bold>\<open>Theories and code.\<close>
  \<^item> Prelude: results, runs of a step function and the locale \<open>stepper\<close> (an invariant, an abstract step, and the
    refinement of runs that follows), the locale \<open>per_client\<close> (what a run does to one client), widths of integers, memory, C strings.
  \<^item> Queue: \<open>utils/queue.c\<close>. The record \<open>queue\<close> is \<open>struct queue\<close>; \<open>head\<close> is an offset. \<open>q_inv\<close> is the invariant of all
    operations, \<open>q_bytes\<close> the contents. The growth test in \<open>double\<close> is computed as binary64 does and proved equal to integer arithmetic
    below \<open>2 ^ 50\<close>. The locale \<open>byte_buffer\<close> is what the servers need of it.
  \<^item> Kernel, Sockets (\<open>utils/sockets.c\<close>), Receive (\<open>recv_request\<close> of \<open>utils/utils.c\<close>), Epoll (\<open>utils/epoll.c\<close>), Logger
    (\<open>log/log.c\<close> and \<open>init_logs\<close> of \<open>utils/utils.c\<close>), Server (the start-up and the end of a connection, which all \<open>main\<close> functions share).
  \<^item> Buffer: what the buffer of a queue holds besides the contents of the queue (\<open>laid\<close>: where bytes of earlier contents stay when
    something is pushed; \<open>q_text\<close>: the C string in it), for the two servers that read buffers as C strings.
  \<^item> Echo: \<open>smoke-test/main.c\<close>. \<open>echo_event\<close> is the body of the event loop and refines \<open>echo_service\<close>.
  \<^item> Dll: walking, extending and cutting doubly linked lists, for any struct with \<open>next\<close> and \<open>prev\<close>; used by both list programs.
  \<^item> Prices (\<open>asset-prices.c\<close>), Messages (\<open>messages.c\<close>), Sessions (\<open>client-session.c\<close>, with the locale \<open>client_table\<close>),
    Means (\<open>main.c\<close>) of \<open>means-to-an-end\<close>: the array of prices with the mean of a range, the binary protocol, the list of clients, and the server,
    which refines \<open>means_service\<close>: a ledger of its own per client. Its time-out is \<open>means_cleanup\<close>; \<open>means_outcome\<close> tells a server that still
    runs from one that has exited, with what was left of its state. Answers: what one client of it gets, whatever the others do.
  \<^item> Prime (\<open>is-prime-request.c\<close>), PrimeMain (\<open>main.c\<close>) of \<open>prime-time\<close>: the test by trial division against the definition of primes, the
    splitting by \<open>strtok_r\<close> against the lines of the text, and the server, which refines \<open>prime_service\<close>. That service
    keeps the pending bytes of all clients in one place, because the code does.
  \<^item> Chat (\<open>client.c\<close>), ChatMain (\<open>main.c\<close>) of \<open>budget-chat\<close>: the list of clients, names, joining, messages, leaving. Every loop
    over the clients is \<open>traverse\<close> with the body of that loop, and is equal to \<open>until_stop\<close> over the list of structs.
  \<^item> ChatRoom: the handler of an event of \<open>budget-chat/main.c\<close> over a whole list of clients. \<open>room_of\<close> reads heap, queues and kernel as
    a \<open>room\<close>, and \<open>chat_event\<close> refines \<open>room_event\<close>; with it, that names stay distinct.
  \<^item> World, Hostile, HostilePrime: the echo server, the price server and the prime server when nothing is assumed of the kernel. \<open>driven\<close> is the step
    relation of a server between whose events the world moves (bytes and connections come, calls fail, memory runs out), the locale
    \<open>driver\<close> its rule for invariants, and \<open>implies\<close> carries facts about allocators that never fail over to runs that get through.

  \<^bold>\<open>What the lemmas show.\<close> Each operation keeps its invariant and does what its specification says, on every branch, errors included.
  Each server's event refines an abstract service; runs of any length then follow from \<open>stepper\<close>, and from these what clients
  see: that echo and prices keep clients apart and serve them to the end, under what condition the prime server does (each event
  brings whole lines) and how it mixes clients otherwise, and that the chat server never serves anybody and stops at its first event where
  the kernel refuses to send on a listening socket. The functions of the chat, and its handler of events, are proved for lists of any length all the same.
  In theory Hostile the two servers that hold what they promise are proved to hold it whatever the kernel answers; in theory
  HostilePrime the third, whose answers may depend on anybody's bytes, is proved to send nothing but its three responses.

  \<^bold>\<open>Fuel and bounds.\<close> \<open>grow_loop\<close> has fuel 65: after 64 doublings the capacity is 0 and stays 0
  (\<open>grow_loop_fuel\<close>); on well-formed queues it ends with the least doubling that has room (\<open>queue_expand_capacity_least\<close>). Walks of a list have as much fuel as addresses were handed out, one more where the first struct
  is visited by the loop itself: more steps meet a struct twice (\<open>walk_from_fuel\<close>). All other loops are total functions. Queues are proved up to
  \<open>2 ^ 40\<close> bytes, single events up to \<open>2 ^ 31\<close> because sizes are converted to \<open>int\<close>. The servers are proved for traffic without percent
  signs where the code prints the clients' bytes as a format string, and for sockets that take each message whole; what \<open>sendall\<close> does otherwise is in theory Sockets,
  and what the servers never do, however it ends, in the theories Hostile and HostilePrime. The room of the chat is proved for fresh memory that is zero, and for messages that fit,
  with what their buffer held before, into the array they are composed in.
  The prime server needs numbers below \<open>ROOT * ROOT\<close> (above, \<open>i * i\<close> may overflow) and fresh memory that is zero, because the tokenizer runs on to
  the next NUL.

  \<^bold>\<open>Not modelled.\<close> Output to the log beyond the calls in theory Logger, and the expansion of format strings by the C library. Release of memory
  (leaks), except for the structs of linked lists, whose use after \<open>free\<close> is a fault. In \<open>sendall\<close>: exhaustion of the stack by the array of the size of the
  message, overflow of \<open>len + 2\<close> for the largest lengths, and the signal \<open>SIGPIPE\<close>. \<open>isalnum\<close> of a negative \<open>char\<close>, which C leaves undefined, is false.
  The chat server's exit at a time-out is only recorded as an exit. The library json-c, which is not
  part of the sources: the calls are the record \<open>json_lib\<close>, an argument of the definitions; the refinement theorems about primes assume \<open>json_total\<close>, that
  reading the value of an integer sets no \<open>errno\<close>. What follows a string literal in memory,
  and the contents of the stack, are arguments as well. The programs under \<open>src/zig\<close>, which implement some of the
  exercises a second time, the C++ tests and the build files. Nothing else of \<open>src/c/source\<close> is left out: the lines that no definition
  translates are comments, includes, prototypes, macro wrappers of the logger and the constants of each \<open>main.c\<close> (port, log file,
  capacities), whose values stand in the definitions that use them where they matter.
\<close>

end
